(* ===== verification/Prelude.thy ===== *)
theory Prelude
  imports Main "HOL-Library.Word"
begin

text \<open>
  Shared vocabulary of the development.  It holds the machine integers and result types the
  Rust sources use, the big-endian conversions, the decimal and hexadecimal printers of
  \<open>std::fmt\<close>, the string helpers of \<open>std::str\<close>, and the generic lemmas on lists, options and
  words that the component theories share.

  A Rust \<open>String\<close> is a sequence of UTF-8 bytes; it is modelled as a HOL \<^typ>\<open>string\<close>, whose
  characters are bytes, so \<^term>\<open>length\<close> is Rust's \<open>len()\<close>.  A \<open>usize\<close> is a \<^typ>\<open>nat\<close>; where the
  source guards against wrap-around the bound \<open>2 ^ 64\<close> is written out.
\<close>

unbundle bit_operations_syntax

section \<open>Machine integers and result types\<close>

type_synonym u8 = "8 word"
type_synonym u16 = "16 word"
type_synonym u32 = "32 word"
type_synonym u64 = "64 word"
type_synonym bytes = "u8 list"
type_synonym user_id = int

text \<open>\<open>std::task::Poll\<close>.\<close>

datatype 'a poll = Ready 'a | Pending

text \<open>The \<open>std::io::ErrorKind\<close> values the sources construct or test, and \<open>std::io::Error\<close>.\<close>

datatype io_kind =
    NotFound | TimedOut | InvalidInput | InvalidData | UnexpectedEof | WriteZero
  | BrokenPipe | ConnectionReset | OutOfMemory | OtherKind

datatype io_error = Io_Error (err_kind: io_kind) (err_msg: string)

type_synonym 'a io_result = "io_error + 'a"

text \<open>
  Collections of the development: \<open>be_simps\<close> holds the big-endian conversions, \<open>buf_simps\<close> the
  take/drop arithmetic of byte buffers.
\<close>

named_theorems be_simps
named_theorems buf_simps

section \<open>Big-endian conversions\<close>

text \<open>\<open>u16::to_be_bytes\<close>, \<open>u16::from_be_bytes\<close> and their 32-bit counterparts.\<close>

definition u16_to_be_bytes :: "u16 \<Rightarrow> bytes" where
  "u16_to_be_bytes w = [ucast (drop_bit 8 w), ucast w]"

definition u16_from_be_bytes :: "u8 \<Rightarrow> u8 \<Rightarrow> u16" where
  "u16_from_be_bytes a b = push_bit 8 (ucast a) OR ucast b"

definition u32_to_be_bytes :: "u32 \<Rightarrow> bytes" where
  "u32_to_be_bytes w = [ucast (drop_bit 24 w), ucast (drop_bit 16 w), ucast (drop_bit 8 w), ucast w]"

definition u32_from_be_bytes :: "u8 \<Rightarrow> u8 \<Rightarrow> u8 \<Rightarrow> u8 \<Rightarrow> u32" where
  "u32_from_be_bytes a b c d =
     push_bit 24 (ucast a) OR push_bit 16 (ucast b) OR push_bit 8 (ucast c) OR ucast d"

lemma length_u16_to_be_bytes [simp]: "length (u16_to_be_bytes w) = 2"
  by (simp add: u16_to_be_bytes_def)

lemma length_u32_to_be_bytes [simp]: "length (u32_to_be_bytes w) = 4"
  by (simp add: u32_to_be_bytes_def)

lemma u16_from_to_be [simp, be_simps]:
  "u16_from_be_bytes (ucast (drop_bit 8 w)) (ucast w) = w"
  by (rule bit_word_eqI)
     (auto simp: u16_from_be_bytes_def bit_or_iff bit_push_bit_iff bit_ucast_iff bit_drop_bit_eq)

lemma u16_to_from_be [simp, be_simps]: "u16_to_be_bytes (u16_from_be_bytes a b) = [a, b]"
proof -
  have "ucast (drop_bit 8 (u16_from_be_bytes a b)) = a"
    by (rule bit_word_eqI)
       (auto simp: u16_from_be_bytes_def bit_or_iff bit_push_bit_iff bit_ucast_iff bit_drop_bit_eq
             dest: bit_imp_le_length)
  moreover have "ucast (u16_from_be_bytes a b) = b"
    by (rule bit_word_eqI)
       (auto simp: u16_from_be_bytes_def bit_or_iff bit_push_bit_iff bit_ucast_iff)
  ultimately show ?thesis by (simp add: u16_to_be_bytes_def)
qed

lemma u32_from_to_be [simp, be_simps]:
  "u32_from_be_bytes (ucast (drop_bit 24 w)) (ucast (drop_bit 16 w)) (ucast (drop_bit 8 w)) (ucast w) = w"
proof (rule bit_word_eqI)
  fix n assume n: "n < LENGTH(32)"
  consider "n < 8" | "8 \<le> n" "n < 16" | "16 \<le> n" "n < 24" | "24 \<le> n" "n < 32"
    using n by fastforce
  then show "bit (u32_from_be_bytes (ucast (drop_bit 24 w)) (ucast (drop_bit 16 w))
                    (ucast (drop_bit 8 w)) (ucast w)) n = bit w n"
    by cases (simp_all add: u32_from_be_bytes_def bit_or_iff bit_push_bit_iff bit_ucast_iff
                bit_drop_bit_eq le_diff_conv less_diff_conv2)
qed

lemma u16_to_be_bytes_inj: "u16_to_be_bytes v = u16_to_be_bytes w \<Longrightarrow> v = w"
  by (metis u16_from_to_be u16_to_be_bytes_def list.inject)

section \<open>Words as numbers\<close>

lemma u8_bound: "unat (x :: u8) < 256"
  using unsigned_less [of x, where ?'a = nat] by simp

lemma u8_less [simp]: "256 \<le> n \<Longrightarrow> unat (x :: u8) < n"
  using u8_bound [of x] by linarith

lemma unat_ucast_u8 [simp]:
  "unat (ucast (x :: u8) :: u16) = unat x"
  "unat (ucast (x :: u8) :: u32) = unat x"
  "unat (ucast (x :: u8) :: u64) = unat x"
  by (simp_all add: unsigned_ucast_eq take_bit_nat_eq_self_iff)

text \<open>A shift and a small disjoint value add up.\<close>

lemma nat_push_or:
  fixes x y :: nat
  assumes "y < 2 ^ k"
  shows "push_bit k x OR y = x * 2 ^ k + y"
proof -
  have "push_bit k x AND take_bit k y = 0"
    by (intro bit_eqI) (auto simp: bit_simps)
  then have "push_bit k x AND y = 0" using assms by (simp add: take_bit_nat_eq_self)
  then show ?thesis by (simp add: disjunctive_add_eq_or [symmetric] push_bit_eq_mult)
qed

lemma unat_u16_from_be: "unat (u16_from_be_bytes a b) = unat a * 2 ^ 8 + unat b"
proof -
  have "unat a * 256 < 65536" using u8_bound [of a] by linarith
  then have "take_bit 16 (push_bit 8 (unat a)) = push_bit 8 (unat a)"
    by (simp add: push_bit_eq_mult take_bit_nat_eq_self)
  then show ?thesis
    unfolding u16_from_be_bytes_def unsigned_or_eq unsigned_push_bit_eq by (simp add: nat_push_or)
qed

lemma unat_u32_from_be:
  "unat (u32_from_be_bytes a b c d) = unat a * 2 ^ 24 + unat b * 2 ^ 16 + unat c * 2 ^ 8 + unat d"
proof -
  note bnd = u8_bound [of a] u8_bound [of b] u8_bound [of c] u8_bound [of d]
  have t: "take_bit 32 (push_bit 24 (unat a)) = push_bit 24 (unat a)"
       "take_bit 32 (push_bit 16 (unat b)) = push_bit 16 (unat b)"
       "take_bit 32 (push_bit 8 (unat c)) = push_bit 8 (unat c)"
    using bnd by (auto simp: push_bit_eq_mult intro!: take_bit_nat_eq_self)
  have 1: "push_bit 8 (unat c) OR unat d = unat c * 2 ^ 8 + unat d"
    by (simp add: nat_push_or)
  have "unat c * 256 + unat d < 65536" using bnd by linarith
  then have "unat c * 2 ^ 8 + unat d < 2 ^ 16" by simp
  then have 2: "push_bit 16 (unat b) OR (unat c * 2 ^ 8 + unat d) = unat b * 2 ^ 16 + (unat c * 2 ^ 8 + unat d)"
    by (rule nat_push_or)
  have "unat b * 65536 + (unat c * 256 + unat d) < 16777216" using bnd by linarith
  then have "unat b * 2 ^ 16 + (unat c * 2 ^ 8 + unat d) < 2 ^ 24" by simp
  then have 3: "push_bit 24 (unat a) OR (unat b * 2 ^ 16 + (unat c * 2 ^ 8 + unat d)) =
     unat a * 2 ^ 24 + (unat b * 2 ^ 16 + (unat c * 2 ^ 8 + unat d))"
    by (rule nat_push_or)
  show ?thesis
    unfolding u32_from_be_bytes_def unsigned_or_eq unsigned_push_bit_eq
    using 1 2 3 by (simp add: t or.assoc)
qed

section \<open>Byte strings\<close>

text \<open>\<open>str::as_bytes\<close> and the unchecked half of \<open>str::from_utf8\<close>.\<close>

definition as_bytes :: "string \<Rightarrow> bytes" where
  "as_bytes s = map of_char s"

definition str_of_bytes :: "bytes \<Rightarrow> string" where
  "str_of_bytes bs = map (\<lambda>b. char_of (unat b)) bs"

lemma length_as_bytes [simp]: "length (as_bytes s) = length s"
  by (simp add: as_bytes_def)

lemma length_str_of_bytes [simp]: "length (str_of_bytes bs) = length bs"
  by (simp add: str_of_bytes_def)

lemma unat_of_char: "unat (of_char c :: u8) = of_char c"
proof -
  have "(of_char c :: nat) < 256" by simp
  moreover have "(of_char c :: u8) = of_nat (of_char c)" by (simp add: of_nat_of_char)
  ultimately show ?thesis by (simp add: unat_of_nat)
qed

lemma str_of_as_bytes [simp]: "str_of_bytes (as_bytes s) = s"
  by (induction s) (simp_all add: str_of_bytes_def as_bytes_def unat_of_char)

lemma as_bytes_str_of [simp]: "as_bytes (str_of_bytes bs) = bs"
proof (induction bs)
  case (Cons b bs)
  have "(of_char (char_of (unat b)) :: u8) = of_nat (of_char (char_of (unat b)))"
    by (simp only: of_nat_of_char)
  also have "\<dots> = b"
    using unsigned_less [of b, where ?'a = nat] by (simp add: of_char_of)
  finally show ?case using Cons by (simp add: as_bytes_def str_of_bytes_def)
qed (simp add: as_bytes_def str_of_bytes_def)

text \<open>A string between single quotes, as error messages show it.\<close>

definition quoted :: "string \<Rightarrow> string" where
  "quoted s = [CHR 0x27] @ s @ [CHR 0x27]"

text \<open>
  \<open>core::str::from_utf8\<close> accepts exactly the well-formed UTF-8 byte sequences (Unicode,
  table 3-7): no stray continuation bytes, overlong forms, surrogates or values past U+10FFFF.
\<close>

definition is_cont :: "u8 \<Rightarrow> bool" where
  "is_cont b \<longleftrightarrow> 0x80 \<le> b \<and> b \<le> 0xBF"

fun utf8_valid :: "bytes \<Rightarrow> bool" where
  "utf8_valid [] = True"
| "utf8_valid (a # bs) =
     (if a \<le> 0x7F then utf8_valid bs
      else if 0xC2 \<le> a \<and> a \<le> 0xDF then
        (case bs of b # r \<Rightarrow> is_cont b \<and> utf8_valid r | _ \<Rightarrow> False)
      else if 0xE0 \<le> a \<and> a \<le> 0xEF then
        (case bs of
           b # c # r \<Rightarrow>
             is_cont b \<and> (a = 0xE0 \<longrightarrow> 0xA0 \<le> b) \<and> (a = 0xED \<longrightarrow> b \<le> 0x9F) \<and> is_cont c \<and> utf8_valid r
         | _ \<Rightarrow> False)
      else if 0xF0 \<le> a \<and> a \<le> 0xF4 then
        (case bs of
           b # c # d # r \<Rightarrow>
             is_cont b \<and> (a = 0xF0 \<longrightarrow> 0x90 \<le> b) \<and> (a = 0xF4 \<longrightarrow> b \<le> 0x8F) \<and>
             is_cont c \<and> is_cont d \<and> utf8_valid r
         | _ \<Rightarrow> False)
      else False)"

text \<open>\<open>std::str::from_utf8\<close>, and the invariant every Rust \<open>String\<close> satisfies.\<close>

definition from_utf8 :: "bytes \<Rightarrow> string option" where
  "from_utf8 bs = (if utf8_valid bs then Some (str_of_bytes bs) else None)"

definition str_ok :: "string \<Rightarrow> bool" where
  "str_ok s \<longleftrightarrow> utf8_valid (as_bytes s)"

lemma from_utf8_as_bytes [simp]: "str_ok s \<Longrightarrow> from_utf8 (as_bytes s) = Some s"
  by (simp add: from_utf8_def str_ok_def)

lemma from_utf8_SomeD: "from_utf8 bs = Some s \<Longrightarrow> bs = as_bytes s \<and> str_ok s"
  by (auto simp: from_utf8_def str_ok_def split: if_splits)

lemma utf8_valid_ascii: "\<forall>b \<in> set bs. b \<le> 0x7F \<Longrightarrow> utf8_valid bs"
  by (induction bs) auto

section \<open>Buffers\<close>

lemma nth_append_ge [buf_simps]: "i < length xs \<Longrightarrow> (xs @ ys) ! i = xs ! i"
  by (simp add: nth_append)

lemma take_eq_nthD: "take n xs = ys \<Longrightarrow> i < n \<Longrightarrow> n \<le> length xs \<Longrightarrow> xs ! i = ys ! i"
  by (metis nth_take)

text \<open>A buffer long enough splits into its head bytes and a tail.\<close>

lemma take2_nth: "2 \<le> length xs \<Longrightarrow> take 2 xs = [xs ! 0, xs ! 1]"
  by (cases xs; cases "tl xs") (auto simp: numeral_2_eq_2)

lemma take2_drop_nth:
  assumes "i + 2 \<le> length xs"
  shows "take 2 (drop i xs) = [xs ! i, xs ! Suc i]"
  using assms take2_nth [of "drop i xs"] by simp

lemma drop_split2:
  assumes "i + 2 \<le> length xs"
  shows "drop i xs = xs ! i # xs ! Suc i # drop (i + 2) xs"
  using assms by (metis Cons_nth_drop_Suc Suc_eq_plus1 Suc_lessD add_2_eq_Suc' less_eq_Suc_le)

end
