(* ===== verification/Net_Addr.thy ===== *)
theory Net_Addr
  imports Prelude
begin

text \<open>
  The part of \<open>std::net\<close> the sources rely on: \<open>Ipv4Addr\<close>, \<open>Ipv6Addr\<close>, \<open>IpAddr\<close> and
  \<open>SocketAddr\<close>, their \<open>Display\<close> forms and the textual parser behind \<open>str::parse::<IpAddr>()\<close>.
  An address is its octets; \<open>ip_ok\<close> states the array lengths \<open>[u8; 4]\<close> and \<open>[u8; 16]\<close>.
  The main facts are that a printed IPv4 address parses back to itself and that the parser
  only returns addresses with the right number of octets.
\<close>

section \<open>Addresses\<close>

datatype ip_addr = V4 (v4_octets: bytes) | V6 (v6_octets: bytes)

fun ip_ok :: "ip_addr \<Rightarrow> bool" where
  "ip_ok (V4 o4) = (length o4 = 4)"
| "ip_ok (V6 o6) = (length o6 = 16)"

record socket_addr =
  sa_ip :: ip_addr
  sa_port :: u16

text \<open>\<open>Ipv6Addr::segments\<close> and the construction of an address from segments.\<close>

fun segments :: "bytes \<Rightarrow> u16 list" where
  "segments (a # b # r) = u16_from_be_bytes a b # segments r"
| "segments _ = []"

definition octets_of_segments :: "u16 list \<Rightarrow> bytes" where
  "octets_of_segments gs = concat (map u16_to_be_bytes gs)"

lemma length_segments: "length (segments os) = length os div 2"
  by (induction os rule: segments.induct) auto

lemma length_octets_of_segments [simp]: "length (octets_of_segments gs) = 2 * length gs"
  by (induction gs) (simp_all add: octets_of_segments_def)

lemma segments_octets_of_segments [simp]: "segments (octets_of_segments gs) = gs"
  by (induction gs) (simp_all add: octets_of_segments_def u16_to_be_bytes_def)

lemma octets_of_segments_segments:
  "even (length os) \<Longrightarrow> octets_of_segments (segments os) = os"
  by (induction os rule: segments.induct) (auto simp: octets_of_segments_def)

section \<open>Number formatting\<close>

definition digit_char :: "nat \<Rightarrow> char" where
  "digit_char d = (if d < 10 then char_of (48 + d) else char_of (87 + d))"

text \<open>\<open>\{\}\<close> and \<open>\{:x\}\<close> on unsigned integers.\<close>

fun show_nat :: "nat \<Rightarrow> string" where
  "show_nat n = (if n < 10 then [digit_char n] else show_nat (n div 10) @ [digit_char (n mod 10)])"

fun show_hex :: "nat \<Rightarrow> string" where
  "show_hex n = (if n < 16 then [digit_char n] else show_hex (n div 16) @ [digit_char (n mod 16)])"

declare show_nat.simps [simp del] show_hex.simps [simp del]

text \<open>\<open>char::to_digit\<close>.\<close>

definition to_digit :: "nat \<Rightarrow> char \<Rightarrow> nat option" where
  "to_digit radix c =
     (let n = of_char c :: nat;
          d = (if 48 \<le> n \<and> n \<le> 57 then n - 48
               else if 97 \<le> n \<and> n \<le> 122 then n - 87
               else if 65 \<le> n \<and> n \<le> 90 then n - 55 else radix)
      in if d < radix then Some d else None)"

lemma to_digit_digit_char [simp]: "d < radix \<Longrightarrow> radix \<le> 16 \<Longrightarrow> to_digit radix (digit_char d) = Some d"
  by (simp add: to_digit_def digit_char_def of_char_of)

section \<open>Display\<close>

text \<open>\<open>impl Display for Ipv4Addr\<close>.\<close>

fun sep_join :: "string \<Rightarrow> string list \<Rightarrow> string" where
  "sep_join sep [] = []"
| "sep_join sep [s] = s"
| "sep_join sep (s # ss) = s @ sep @ sep_join sep ss"

definition show_ipv4 :: "bytes \<Rightarrow> string" where
  "show_ipv4 os = sep_join ''.'' (map (\<lambda>b. show_nat (unat b)) os)"

text \<open>
  \<open>impl Display for Ipv6Addr\<close>: an IPv4-mapped address prints its embedded IPv4 form; otherwise
  the first longest run of at least two zero segments is elided.
\<close>

definition to_ipv4_mapped :: "bytes \<Rightarrow> bytes option" where
  "to_ipv4_mapped os =
     (if take 12 os = [0, 0, 0, 0, 0, 0, 0, 0, 0, 0, 0xFF, 0xFF] then Some (drop 12 os) else None)"

text \<open>The scan keeps the longest and the current zero span as (start, length) pairs.\<close>

fun zero_span :: "nat \<Rightarrow> nat \<times> nat \<Rightarrow> nat \<times> nat \<Rightarrow> u16 list \<Rightarrow> nat \<times> nat" where
  "zero_span i longest current [] = longest"
| "zero_span i longest (cs, cl) (s # ss) =
     (if s = 0 then
        let current = ((if cl = 0 then i else cs), Suc cl);
            longest = (if snd current > snd longest then current else longest)
        in zero_span (Suc i) longest current ss
      else zero_span (Suc i) longest (0, 0) ss)"

definition fmt_subslice :: "u16 list \<Rightarrow> string" where
  "fmt_subslice gs = sep_join '':'' (map (\<lambda>g. show_hex (unat g)) gs)"

definition show_ipv6 :: "bytes \<Rightarrow> string" where
  "show_ipv6 os =
     (case to_ipv4_mapped os of
        Some v4 \<Rightarrow> ''::ffff:'' @ show_ipv4 v4
      | None \<Rightarrow>
          let gs = segments os; (start, len) = zero_span 0 (0, 0) (0, 0) gs
          in if len > 1 then fmt_subslice (take start gs) @ ''::'' @ fmt_subslice (drop (start + len) gs)
             else fmt_subslice gs)"

fun show_ip :: "ip_addr \<Rightarrow> string" where
  "show_ip (V4 os) = show_ipv4 os"
| "show_ip (V6 os) = show_ipv6 os"

section \<open>Parsing\<close>

text \<open>
  \<open>core::net::parser\<close>.  Every reader is atomic: it returns the value and the unread input, or
  \<open>None\<close> and consumes nothing.
\<close>

fun digits_value :: "nat \<Rightarrow> nat \<Rightarrow> string \<Rightarrow> nat" where
  "digits_value radix acc [] = acc"
| "digits_value radix acc (c # cs) =
     digits_value radix (acc * radix + (case to_digit radix c of Some d \<Rightarrow> d | None \<Rightarrow> 0)) cs"

definition read_number :: "nat \<Rightarrow> nat \<Rightarrow> bool \<Rightarrow> nat \<Rightarrow> string \<Rightarrow> (nat \<times> string) option" where
  "read_number radix max_digits allow_zero_prefix type_max s =
     (let ds = takeWhile (\<lambda>c. to_digit radix c \<noteq> None) s;
          v = digits_value radix 0 ds
      in if length ds > max_digits then None
         else if ds = [] then None
         else if \<not> allow_zero_prefix \<and> hd ds = CHR ''0'' \<and> length ds > 1 then None
         else if v > type_max then None
         else Some (v, drop (length ds) s))"

definition read_separator :: "char \<Rightarrow> nat \<Rightarrow> (string \<Rightarrow> ('a \<times> string) option) \<Rightarrow> string \<Rightarrow> ('a \<times> string) option" where
  "read_separator sep index inner s =
     (if index > 0 then
        (case s of c # r \<Rightarrow> (if c = sep then inner r else None) | [] \<Rightarrow> None)
      else inner s)"

fun read_ipv4_groups :: "nat \<Rightarrow> nat \<Rightarrow> string \<Rightarrow> (bytes \<times> string) option" where
  "read_ipv4_groups 0 i s = Some ([], s)"
| "read_ipv4_groups (Suc k) i s =
     (case read_separator (CHR ''.'') i (read_number 10 3 False 255) s of
        None \<Rightarrow> None
      | Some (n, s') \<Rightarrow>
          (case read_ipv4_groups k (Suc i) s' of
             None \<Rightarrow> None
           | Some (os, s'') \<Rightarrow> Some (of_nat n # os, s'')))"

definition read_ipv4_addr :: "string \<Rightarrow> (bytes \<times> string) option" where
  "read_ipv4_addr s = read_ipv4_groups 4 0 s"

text \<open>
  \<open>read_groups\<close> fills at most \<open>r\<close> further slots, \<open>i\<close> being the index of the next one; the flag
  says that a trailing IPv4 address was read.
\<close>

fun read_groups :: "nat \<Rightarrow> nat \<Rightarrow> string \<Rightarrow> u16 list \<times> bool \<times> string" where
  "read_groups 0 i s = ([], False, s)"
| "read_groups (Suc r) i s =
     (case (if r > 0 then read_separator (CHR '':'') i read_ipv4_addr s else None) of
        Some (v4, s') \<Rightarrow> (segments v4, True, s')
      | None \<Rightarrow>
          (case read_separator (CHR '':'') i (read_number 16 4 True 0xFFFF) s of
             None \<Rightarrow> ([], False, s)
           | Some (g, s') \<Rightarrow>
               (let (gs, b, s'') = read_groups r (Suc i) s' in (of_nat g # gs, b, s''))))"

definition read_ipv6_addr :: "string \<Rightarrow> (bytes \<times> string) option" where
  "read_ipv6_addr s =
     (let (head, head_ipv4, s1) = read_groups 8 0 s in
      if length head = 8 then Some (octets_of_segments head, s1)
      else if head_ipv4 then None
      else
        (case s1 of
           c1 # c2 # s2 \<Rightarrow>
             (if c1 = CHR '':'' \<and> c2 = CHR '':'' then
                (let (tail, _, s3) = read_groups (8 - (length head + 1)) 0 s2 in
                 Some (octets_of_segments
                        (head @ replicate (8 - length head - length tail) 0 @ tail), s3))
              else None)
         | _ \<Rightarrow> None))"

text \<open>\<open>str::parse::<Ipv4Addr>()\<close>, \<open>str::parse::<Ipv6Addr>()\<close> and \<open>str::parse::<IpAddr>()\<close>.\<close>

definition parse_ipv4 :: "string \<Rightarrow> bytes option" where
  "parse_ipv4 s =
     (case read_ipv4_addr s of Some (os, []) \<Rightarrow> (if length s > 15 then None else Some os) | _ \<Rightarrow> None)"

definition parse_ipv6 :: "string \<Rightarrow> bytes option" where
  "parse_ipv6 s = (case read_ipv6_addr s of Some (os, []) \<Rightarrow> Some os | _ \<Rightarrow> None)"

definition parse_ip :: "string \<Rightarrow> ip_addr option" where
  "parse_ip s =
     (case read_ipv4_addr s of
        Some (os, r) \<Rightarrow> (if r = [] then Some (V4 os) else None)
      | None \<Rightarrow>
          (case read_ipv6_addr s of
             Some (os, r) \<Rightarrow> (if r = [] then Some (V6 os) else None)
           | None \<Rightarrow> None))"

section \<open>The parser returns well-formed addresses\<close>

lemma read_ipv4_groups_length:
  "read_ipv4_groups k i s = Some (os, r) \<Longrightarrow> length os = k"
  by (induction k i s arbitrary: os r rule: read_ipv4_groups.induct) (auto split: option.splits)

lemma read_ipv4_addr_length: "read_ipv4_addr s = Some (os, r) \<Longrightarrow> length os = 4"
  by (auto simp: read_ipv4_addr_def dest: read_ipv4_groups_length)

lemma read_separator_SomeD:
  "read_separator c i f s = Some (x, r) \<Longrightarrow> \<exists>s'. f s' = Some (x, r)"
  by (auto simp: read_separator_def split: if_splits list.splits)

lemma read_groups_length: "length (fst (read_groups r i s)) \<le> r"
proof (induction r i s rule: read_groups.induct)
  case (2 r i s)
  let ?v4 = "if r > 0 then read_separator (CHR '':'') i read_ipv4_addr s else None"
  let ?g = "read_separator (CHR '':'') i (read_number 16 4 True 0xFFFF) s"
  show ?case
  proof (cases ?v4)
    case (Some p)
    then obtain os s' where "p = (os, s')" and "read_separator (CHR '':'') i read_ipv4_addr s = Some (os, s')"
      and "r > 0" by (cases p) (auto split: if_splits)
    then have "length os = 4" by (metis read_separator_SomeD read_ipv4_addr_length)
    with Some \<open>p = (os, s')\<close> \<open>r > 0\<close> show ?thesis by (simp add: length_segments)
  next
    case None
    show ?thesis
    proof (cases ?g)
      case None
      with \<open>?v4 = None\<close> show ?thesis by simp
    next
      case (Some p)
      then have "length (fst (read_groups r (Suc i) (snd p))) \<le> r"
        using "2.IH" [OF None] by (metis surj_pair snd_conv)
      with None Some show ?thesis by (cases p) (auto split: prod.splits)
    qed
  qed
qed simp

lemma read_ipv6_addr_length:
  assumes "read_ipv6_addr s = Some (os, r)"
  shows "length os = 16"
proof -
  obtain head b s1 where h: "read_groups 8 0 s = (head, b, s1)" by (cases "read_groups 8 0 s")
  then have hl: "length head \<le> 8" using read_groups_length [of 8 0 s] by simp
  show ?thesis
  proof (cases "length head = 8")
    case True
    then show ?thesis using assms h by (auto simp: read_ipv6_addr_def)
  next
    case False
    then obtain s2 where s2: "s1 = CHR '':'' # CHR '':'' # s2" and "\<not> b"
      using assms h by (auto simp: read_ipv6_addr_def split: if_splits list.splits)
    obtain tail b' s3 where t: "read_groups (8 - (length head + 1)) 0 s2 = (tail, b', s3)"
      by (cases "read_groups (8 - (length head + 1)) 0 s2")
    then have "length tail \<le> 8 - (length head + 1)"
      using read_groups_length [of "8 - (length head + 1)" 0 s2] by simp
    with False hl show ?thesis using assms h s2 t \<open>\<not> b\<close>
      by (auto simp: read_ipv6_addr_def)
  qed
qed

lemma parse_ip_ok:
  assumes "parse_ip s = Some ip"
  shows "ip_ok ip"
proof -
  consider os where "ip = V4 os" "read_ipv4_addr s = Some (os, [])"
    | os where "ip = V6 os" "read_ipv6_addr s = Some (os, [])"
    using assms by (auto simp: parse_ip_def split: option.splits if_splits)
  then show ?thesis
    by cases (simp_all add: read_ipv4_addr_length read_ipv6_addr_length)
qed

section \<open>A printed IPv4 address parses back\<close>

text \<open>The digits of an octet: at most three, none a superfluous leading zero.\<close>

lemma show_nat_octet1: "n < 10 \<Longrightarrow> show_nat n = [digit_char n]"
  by (simp add: show_nat.simps)

lemma show_nat_octet2:
  "10 \<le> n \<Longrightarrow> n < 100 \<Longrightarrow> show_nat n = [digit_char (n div 10), digit_char (n mod 10)]"
  by (subst show_nat.simps) (simp add: show_nat_octet1)

lemma show_nat_octet3:
  assumes "100 \<le> n" "n < 1000"
  shows "show_nat n = [digit_char (n div 100), digit_char (n div 10 mod 10), digit_char (n mod 10)]"
proof -
  have "10 \<le> n div 10" "n div 10 < 100" "n div 10 div 10 = n div 100"
    using assms by (auto simp: div_mult2_eq [symmetric])
  then show ?thesis using assms by (subst show_nat.simps) (simp add: show_nat_octet2)
qed

lemma digit_char_nonzero: "0 < d \<Longrightarrow> d < 10 \<Longrightarrow> digit_char d \<noteq> CHR ''0''"
proof
  assume d: "0 < d" "d < 10" and "digit_char d = CHR ''0''"
  then have "(of_char (digit_char d) :: nat) = of_char (CHR ''0'')" by simp
  then show False using d by (simp add: digit_char_def of_char_of)
qed

text \<open>Reading a run of decimal digits that ends at a non-digit.\<close>

lemma takeWhile_digit_chars:
  assumes "\<forall>d \<in> set ds. d < 10" and "r = [] \<or> to_digit 10 (hd r) = None"
  shows "takeWhile (\<lambda>c. to_digit 10 c \<noteq> None) (map digit_char ds @ r) = map digit_char ds"
  using assms(1)
proof (induction ds)
  case Nil
  show ?case using assms(2) by (cases r) auto
qed simp

lemma read_number_digits:
  assumes ds: "\<forall>d \<in> set ds. d < 10" and r: "r = [] \<or> to_digit 10 (hd r) = None"
    and len: "ds \<noteq> []" "length ds \<le> 3" and lead: "length ds > 1 \<Longrightarrow> hd ds \<noteq> 0"
    and v: "digits_value 10 0 (map digit_char ds) = n" "n \<le> 255"
  shows "read_number 10 3 False 255 (map digit_char ds @ r) = Some (n, r)"
proof -
  have "length ds > 1 \<Longrightarrow> hd (map digit_char ds) \<noteq> CHR ''0''"
    using lead len ds by (cases ds) (auto dest: digit_char_nonzero)
  then show ?thesis
    using takeWhile_digit_chars [OF ds r] len v by (auto simp: read_number_def Let_def)
qed

lemma read_number_octet:
  assumes n: "n < 256" and r: "r = [] \<or> to_digit 10 (hd r) = None"
  shows "read_number 10 3 False 255 (show_nat n @ r) = Some (n, r)"
proof -
  consider "n < 10" | "10 \<le> n" "n < 100" | "100 \<le> n" using n by linarith
  then show ?thesis
  proof cases
    case 1
    then show ?thesis using read_number_digits [of "[n]" r n] r by (simp add: show_nat_octet1)
  next
    case 2
    then show ?thesis using read_number_digits [of "[n div 10, n mod 10]" r n] r
      by (simp add: show_nat_octet2)
  next
    case 3
    have "n div 100 * 10 + n div 10 mod 10 = n div 10"
      using div_mult_mod_eq [of "n div 10" 10] by (simp add: div_mult2_eq [symmetric])
    then have "(n div 100 * 10 + n div 10 mod 10) * 10 + n mod 10 = n" by simp
    with 3 n show ?thesis
      using read_number_digits [of "[n div 100, n div 10 mod 10, n mod 10]" r n] r
      by (simp add: show_nat_octet3)
  qed
qed

lemma show_nat_nonempty [simp]: "show_nat n \<noteq> []"
  by (subst show_nat.simps) simp

lemma to_digit_dot [simp]: "to_digit 10 CHR ''.'' = None"
  by (simp add: to_digit_def)

lemma read_ipv4_show:
  assumes "length os = 4"
  shows "read_ipv4_addr (show_ipv4 os) = Some (os, [])"
proof -
  obtain a b c d where os: "os = [a, b, c, d]"
    using assms by (auto simp: numeral_eq_Suc length_Suc_conv)
  have [simp]: "unat x < 256" for x :: u8
    using unsigned_less [of x, where ?'a = nat] by simp
  have 4: "(4::nat) = Suc (Suc (Suc (Suc 0)))" by simp
  show ?thesis
    by (simp add: os show_ipv4_def read_ipv4_addr_def 4 read_separator_def read_number_octet
          read_number_octet [where r = "[]", simplified])
qed

lemma parse_ip_show_ipv4: "length os = 4 \<Longrightarrow> parse_ip (show_ipv4 os) = Some (V4 os)"
  by (simp add: parse_ip_def read_ipv4_show)

section \<open>Evaluation\<close>

text \<open>Equations that let \<open>simp\<close> run the parser on a literal.\<close>

lemma read_ipv4_groups_numeral: "read_ipv4_groups (numeral k) i s =
     (case read_separator (CHR ''.'') i (read_number 10 3 False 255) s of
        None \<Rightarrow> None
      | Some (n, s') \<Rightarrow>
          (case read_ipv4_groups (pred_numeral k) (Suc i) s' of
             None \<Rightarrow> None
           | Some (os, s'') \<Rightarrow> Some (of_nat n # os, s'')))"
  by (simp add: numeral_eq_Suc)

lemma read_groups_numeral: "read_groups (numeral k) i s =
     (case (if pred_numeral k > 0 then read_separator (CHR '':'') i read_ipv4_addr s else None) of
        Some (v4, s') \<Rightarrow> (segments v4, True, s')
      | None \<Rightarrow>
          (case read_separator (CHR '':'') i (read_number 16 4 True 0xFFFF) s of
             None \<Rightarrow> ([], False, s)
           | Some (g, s') \<Rightarrow>
               (let (gs, b, s'') = read_groups (pred_numeral k) (Suc i) s' in (of_nat g # gs, b, s''))))"
  by (simp add: numeral_eq_Suc)

lemmas parse_ip_eval =
  parse_ip_def read_ipv4_addr_def read_ipv6_addr_def read_number_def read_separator_def
  to_digit_def Let_def read_ipv4_groups_numeral read_groups_numeral

end
