(* ===== verification/Protocol.thy ===== *)
theory Protocol
  imports Net_Addr
begin

text \<open>
  \<open>src/src/core/protocol.rs\<close>: the Trojan wire format.  Addresses, the request header and the UDP
  packets that travel inside the TCP stream, each with its decoder and encoder.

  A decoder reads a byte buffer and answers \<open>Ok\<close> with the value and the number of bytes used,
  \<open>NeedMoreData\<close>, or \<open>Invalid\<close> with the message of the source.  The zero-copy decoders take the
  \<open>BytesMut\<close> by reference, so they also return the buffer that is left.  Encoders are modelled for
  release builds, where \<open>debug_assert!\<close> is compiled out.

  The lemmas give both directions of the round trip, prefix stability (more input never changes
  an answer that is not \<open>NeedMoreData\<close>), the agreement of \<open>check_complete\<close> with
  \<open>decode_zerocopy\<close>, and the framing of a stream of UDP packets.
\<close>

section \<open>Addresses\<close>

definition ATYP_IPV4 :: u8 where "ATYP_IPV4 = 1"
definition ATYP_DOMAIN :: u8 where "ATYP_DOMAIN = 3"
definition ATYP_IPV6 :: u8 where "ATYP_IPV6 = 4"

lemmas atyp_defs = ATYP_IPV4_def ATYP_DOMAIN_def ATYP_IPV6_def

datatype trojan_cmd = Connect | UdpAssociate

definition trojan_cmd_try_from :: "u8 \<Rightarrow> string + trojan_cmd" where
  "trojan_cmd_try_from value =
     (if value = 1 then Inr Connect
      else if value = 3 then Inr UdpAssociate
      else Inl ''invalid trojan command'')"

datatype address = IPv4 bytes u16 | IPv6 bytes u16 | Domain string u16

text \<open>The Rust types guarantee the array lengths and that a \<open>String\<close> is UTF-8.\<close>

fun address_ok :: "address \<Rightarrow> bool" where
  "address_ok (IPv4 ip port) = (length ip = 4)"
| "address_ok (IPv6 ip port) = (length ip = 16)"
| "address_ok (Domain d port) = str_ok d"

datatype 'a decode_result = Ok 'a nat | NeedMoreData | Invalid string

fun address_display :: "address \<Rightarrow> string" where
  "address_display (IPv4 ip port) = show_ipv4 ip @ '':'' @ show_nat (unat port)"
| "address_display (IPv6 ip port) = ''['' @ show_ipv6 ip @ '']:'' @ show_nat (unat port)"
| "address_display (Domain domain port) = domain @ '':'' @ show_nat (unat port)"

fun from_ip :: "ip_addr \<Rightarrow> u16 \<Rightarrow> address" where
  "from_ip (V4 v4) port = IPv4 v4 port"
| "from_ip (V6 v6) port = IPv6 v6 port"

fun literal_ip :: "address \<Rightarrow> ip_addr option" where
  "literal_ip (IPv4 ip _) = Some (V4 ip)"
| "literal_ip (IPv6 ip _) = Some (V6 ip)"
| "literal_ip (Domain d _) = parse_ip d"

definition address_decode :: "bytes \<Rightarrow> address decode_result" where
  "address_decode buf =
     (if buf = [] then NeedMoreData
      else
        let atyp = buf ! 0 in
        if atyp = ATYP_IPV4 then
          (if length buf < 7 then NeedMoreData
           else Ok (IPv4 (take 4 (drop 1 buf)) (u16_from_be_bytes (buf ! 5) (buf ! 6))) 7)
        else if atyp = ATYP_IPV6 then
          (if length buf < 19 then NeedMoreData
           else Ok (IPv6 (take 16 (drop 1 buf)) (u16_from_be_bytes (buf ! 17) (buf ! 18))) 19)
        else if atyp = ATYP_DOMAIN then
          (if length buf < 2 then NeedMoreData
           else
             let domain_len = unat (buf ! 1); total_len = 1 + 1 + domain_len + 2 in
             if length buf < total_len then NeedMoreData
             else
               (case from_utf8 (take domain_len (drop 2 buf)) of
                  Some domain \<Rightarrow>
                    Ok (Domain domain (u16_from_be_bytes (buf ! (2 + domain_len)) (buf ! (3 + domain_len))))
                       total_len
                | None \<Rightarrow> Invalid ''invalid domain encoding''))
        else Invalid ''invalid address type'')"

text \<open>\<open>Address::encode\<close> appends to the buffer and returns the number of bytes written.\<close>

definition address_encode :: "address \<Rightarrow> bytes \<Rightarrow> bytes \<times> nat" where
  "address_encode a buf =
     (let start_len = length buf;
          buf' =
            (case a of
               IPv4 ip port \<Rightarrow> buf @ [ATYP_IPV4] @ ip @ u16_to_be_bytes port
             | IPv6 ip port \<Rightarrow> buf @ [ATYP_IPV6] @ ip @ u16_to_be_bytes port
             | Domain domain port \<Rightarrow>
                 buf @ [ATYP_DOMAIN] @ [of_nat (min (length domain) 255)]
                     @ take (min (length domain) 255) (as_bytes domain) @ u16_to_be_bytes port)
      in (buf', length buf' - start_len))"

fun address_port :: "address \<Rightarrow> u16" where
  "address_port (IPv4 _ port) = port"
| "address_port (IPv6 _ port) = port"
| "address_port (Domain _ port) = port"

fun address_host :: "address \<Rightarrow> string" where
  "address_host (IPv4 ip _) = show_ipv4 ip"
| "address_host (IPv6 ip _) = show_ipv6 ip"
| "address_host (Domain domain _) = domain"

section \<open>The request header\<close>

record trojan_request =
  tr_password :: bytes
  tr_cmd :: trojan_cmd
  tr_addr :: address
  tr_payload :: bytes

definition REQ_MIN_SIZE :: nat where "REQ_MIN_SIZE = 68"

definition CR :: u8 where "CR = 0x0D"
definition LF :: u8 where "LF = 0x0A"

lemmas crlf_defs = CR_def LF_def

text \<open>\<open>check_complete\<close>: the header length, or \<open>None\<close> for more data, or \<open>Some\<close> message.\<close>

definition check_complete :: "bytes \<Rightarrow> string option + nat" where
  "check_complete buf =
     (if length buf < REQ_MIN_SIZE then Inl None
      else if buf ! 56 \<noteq> CR \<or> buf ! 57 \<noteq> LF then Inl (Some ''missing CRLF after password'')
      else
        (case trojan_cmd_try_from (buf ! 58) of
           Inl _ \<Rightarrow> Inl (Some ''invalid trojan command'')
         | Inr _ \<Rightarrow>
             (case address_decode (drop 59 buf) of
                NeedMoreData \<Rightarrow> Inl None
              | Invalid msg \<Rightarrow> Inl (Some msg)
              | Ok _ addr_consumed \<Rightarrow>
                  let crlf_pos = 59 + addr_consumed in
                  if length buf < crlf_pos + 2 then Inl None
                  else if buf ! crlf_pos \<noteq> CR \<or> buf ! (crlf_pos + 1) \<noteq> LF
                    then Inl (Some ''missing CRLF after address'')
                  else Inr (crlf_pos + 2))))"

text \<open>
  \<open>TrojanRequest::decode_zerocopy\<close>: on success the header is split off, all that remains
  becomes the payload, and the buffer is left empty; otherwise the buffer is untouched.
\<close>

definition request_decode_zerocopy :: "bytes \<Rightarrow> trojan_request decode_result \<times> bytes" where
  "request_decode_zerocopy buf =
     (if length buf < REQ_MIN_SIZE then (NeedMoreData, buf)
      else
        let password = take 56 buf in
        if buf ! 56 \<noteq> CR \<or> buf ! 57 \<noteq> LF then (Invalid ''missing CRLF after password'', buf)
        else
          (case trojan_cmd_try_from (buf ! 58) of
             Inl msg \<Rightarrow> (Invalid msg, buf)
           | Inr cmd \<Rightarrow>
               (case address_decode (drop 59 buf) of
                  NeedMoreData \<Rightarrow> (NeedMoreData, buf)
                | Invalid msg \<Rightarrow> (Invalid msg, buf)
                | Ok addr addr_consumed \<Rightarrow>
                    let crlf_pos = 59 + addr_consumed in
                    if length buf < crlf_pos + 2 then (NeedMoreData, buf)
                    else if buf ! crlf_pos \<noteq> CR \<or> buf ! (crlf_pos + 1) \<noteq> LF
                      then (Invalid ''missing CRLF after address'', buf)
                    else
                      let header_len = crlf_pos + 2 in
                      (Ok \<lparr>tr_password = password, tr_cmd = cmd, tr_addr = addr,
                           tr_payload = drop header_len buf\<rparr> header_len, []))))"

section \<open>UDP packets inside the stream\<close>

record trojan_udp_packet =
  up_addr :: address
  up_payload :: bytes

definition UDP_MIN_SIZE :: nat where "UDP_MIN_SIZE = 11"

definition udp_decode :: "bytes \<Rightarrow> trojan_udp_packet decode_result" where
  "udp_decode buf =
     (if length buf < UDP_MIN_SIZE then NeedMoreData
      else
        (case address_decode buf of
           NeedMoreData \<Rightarrow> NeedMoreData
         | Invalid msg \<Rightarrow> Invalid msg
         | Ok addr addr_len \<Rightarrow>
             if length buf < addr_len + 4 then NeedMoreData
             else
               let payload_len = unat (u16_from_be_bytes (buf ! addr_len) (buf ! (addr_len + 1))) in
               if buf ! (addr_len + 2) \<noteq> CR \<or> buf ! (addr_len + 3) \<noteq> LF
                 then Invalid ''missing CRLF in UDP packet''
               else
                 let total_len = addr_len + 4 + payload_len in
                 if length buf < total_len then NeedMoreData
                 else Ok \<lparr>up_addr = addr,
                          up_payload = take (total_len - (addr_len + 4)) (drop (addr_len + 4) buf)\<rparr> total_len))"

definition udp_decode_zerocopy :: "bytes \<Rightarrow> trojan_udp_packet decode_result \<times> bytes" where
  "udp_decode_zerocopy buf =
     (if length buf < UDP_MIN_SIZE then (NeedMoreData, buf)
      else
        (case address_decode buf of
           NeedMoreData \<Rightarrow> (NeedMoreData, buf)
         | Invalid msg \<Rightarrow> (Invalid msg, buf)
         | Ok addr addr_len \<Rightarrow>
             if length buf < addr_len + 4 then (NeedMoreData, buf)
             else
               let payload_len = unat (u16_from_be_bytes (buf ! addr_len) (buf ! (addr_len + 1))) in
               if buf ! (addr_len + 2) \<noteq> CR \<or> buf ! (addr_len + 3) \<noteq> LF
                 then (Invalid ''missing CRLF in UDP packet'', buf)
               else
                 let total_len = addr_len + 4 + payload_len in
                 if length buf < total_len then (NeedMoreData, buf)
                 else
                   let header_len = addr_len + 4;
                       buf1 = drop header_len buf;
                       payload = take payload_len buf1;
                       buf2 = drop payload_len buf1
                   in (Ok \<lparr>up_addr = addr, up_payload = payload\<rparr> total_len, buf2)))"

definition udp_encode :: "address \<Rightarrow> bytes \<Rightarrow> bytes" where
  "udp_encode addr payload =
     (let buf = fst (address_encode addr []);
          buf = buf @ u16_to_be_bytes (of_nat (length payload));
          buf = buf @ [CR, LF]
      in buf @ payload)"

section \<open>Addresses: round trip and soundness\<close>

text \<open>
  \<open>addr_bytes\<close> is the encoding of an address; \<open>encodable\<close> are the well-formed addresses whose
  domain fits the one-byte length field.
\<close>

definition addr_bytes :: "address \<Rightarrow> bytes" where
  "addr_bytes a = fst (address_encode a [])"

fun encodable :: "address \<Rightarrow> bool" where
  "encodable (Domain d port) = (str_ok d \<and> length d \<le> 255)"
| "encodable a = address_ok a"

lemma address_encode_eq: "address_encode a buf = (buf @ addr_bytes a, length (addr_bytes a))"
  by (cases a) (simp_all add: address_encode_def addr_bytes_def Let_def)

lemma addr_bytes_simps:
  "addr_bytes (IPv4 ip port) = ATYP_IPV4 # ip @ u16_to_be_bytes port"
  "addr_bytes (IPv6 ip port) = ATYP_IPV6 # ip @ u16_to_be_bytes port"
  "length d \<le> 255 \<Longrightarrow>
     addr_bytes (Domain d port) = ATYP_DOMAIN # of_nat (length d) # as_bytes d @ u16_to_be_bytes port"
  by (simp_all add: addr_bytes_def address_encode_def Let_def min_def)

lemma length_addr_bytes:
  "encodable a \<Longrightarrow> length (addr_bytes a) =
     (case a of IPv4 _ _ \<Rightarrow> 7 | IPv6 _ _ \<Rightarrow> 19 | Domain d _ \<Rightarrow> length d + 4)"
  by (cases a) (auto simp: addr_bytes_simps)

lemma length_addr_bytes_bounds:
  "encodable a \<Longrightarrow> 4 \<le> length (addr_bytes a) \<and> length (addr_bytes a) \<le> 259"
  by (cases a) (auto simp: length_addr_bytes)

lemma unat_of_nat_u8: "n \<le> 255 \<Longrightarrow> unat (of_nat n :: u8) = n"
  by (simp add: unat_of_nat)

lemma nth_append_len: "i = length xs \<Longrightarrow> (xs @ y # ys) ! i = y"
  by simp

text \<open>Decoding an encoded address gives it back, whatever follows it in the buffer.\<close>

lemma address_decode_encode:
  assumes "encodable a"
  shows "address_decode (addr_bytes a @ rest) = Ok a (length (addr_bytes a))"
proof (cases a)
  case (IPv4 ip port)
  with assms obtain i0 i1 i2 i3 where "ip = [i0, i1, i2, i3]"
    by (auto simp: numeral_eq_Suc length_Suc_conv)
  with IPv4 show ?thesis
    by (simp add: address_decode_def addr_bytes_simps atyp_defs u16_to_be_bytes_def)
next
  case (IPv6 ip port)
  with assms have "length ip = 16" by simp
  with IPv6 show ?thesis
    by (simp add: address_decode_def addr_bytes_simps atyp_defs u16_to_be_bytes_def nth_append)
next
  case (Domain d port)
  with assms have "str_ok d" "length d \<le> 255" by auto
  with Domain show ?thesis
    by (simp add: address_decode_def addr_bytes_simps atyp_defs u16_to_be_bytes_def nth_append
          unat_of_nat_u8 Let_def)
qed

text \<open>A successful decode consumed exactly the encoding of the address it returns.\<close>

lemma drop_via_middle:
  assumes "i + n + 2 \<le> length xs"
  shows "drop i xs = take n (drop i xs) @ [xs ! (i + n), xs ! (i + n + 1)] @ drop (i + n + 2) xs"
proof -
  have "drop i xs = take n (drop i xs) @ drop (i + n) xs"
    by (metis append_take_drop_id drop_drop add.commute)
  also have "drop (i + n) xs = [xs ! (i + n), xs ! (i + n + 1)] @ drop (i + n + 2) xs"
    using drop_split2 [of "i + n" xs] assms by simp
  finally show ?thesis .
qed

lemma address_decode_sound:
  assumes "address_decode buf = Ok a n"
  shows "encodable a \<and> n = length (addr_bytes a) \<and> buf = addr_bytes a @ drop n buf"
proof -
  have ne: "buf \<noteq> []" using assms by (auto simp: address_decode_def)
  then have buf: "buf = buf ! 0 # drop 1 buf" by (cases buf) auto
  consider (v4) "buf ! 0 = ATYP_IPV4" | (v6) "buf ! 0 = ATYP_IPV6" | (dom) "buf ! 0 = ATYP_DOMAIN"
    using assms ne by (auto simp: address_decode_def Let_def split: if_splits)
  then show ?thesis
  proof cases
    case v4
    then have l: "7 \<le> length buf"
      and a: "a = IPv4 (take 4 (drop 1 buf)) (u16_from_be_bytes (buf ! 5) (buf ! 6))" "n = 7"
      using assms ne by (auto simp: address_decode_def Let_def split: if_splits)
    then show ?thesis using buf v4 drop_via_middle [of 1 4 buf] by (simp add: addr_bytes_simps)
  next
    case v6
    then have l: "19 \<le> length buf"
      and a: "a = IPv6 (take 16 (drop 1 buf)) (u16_from_be_bytes (buf ! 17) (buf ! 18))" "n = 19"
      using assms ne by (auto simp: address_decode_def Let_def atyp_defs split: if_splits)
    then show ?thesis using buf v6 drop_via_middle [of 1 16 buf] by (simp add: addr_bytes_simps)
  next
    case dom
    let ?l = "unat (buf ! 1)"
    from dom obtain d where l: "?l + 4 \<le> length buf" "from_utf8 (take ?l (drop 2 buf)) = Some d"
      and a: "a = Domain d (u16_from_be_bytes (buf ! (2 + ?l)) (buf ! (3 + ?l)))" "n = ?l + 4"
      using assms ne by (auto simp: address_decode_def Let_def atyp_defs split: if_splits option.splits)
    then have d: "take ?l (drop 2 buf) = as_bytes d" "str_ok d" by (auto dest: from_utf8_SomeD)
    have "length (take ?l (drop 2 buf)) = ?l" using l(1) by simp
    then have ld: "length d = ?l" using d(1) by (simp only: length_as_bytes)
    then have "length d \<le> 255" using u8_bound [of "buf ! 1"] by linarith
    moreover have "buf = buf ! 0 # buf ! 1 # drop 2 buf"
      using l(1) drop_split2 [of 0 buf] by (simp add: numeral_2_eq_2)
    moreover have "drop 2 buf = as_bytes d @ [buf ! (2 + ?l), buf ! (3 + ?l)] @ drop (?l + 4) buf"
      using drop_via_middle [of 2 ?l buf] l(1) d(1) by (simp add: add.commute eval_nat_numeral)
    ultimately show ?thesis using a d(2) dom ld
      by (simp add: addr_bytes_simps add.commute)
  qed
qed

text \<open>More input never changes an answer other than \<open>NeedMoreData\<close>.\<close>

lemma address_decode_append_Ok:
  "address_decode buf = Ok a n \<Longrightarrow> address_decode (buf @ ext) = Ok a n"
  using address_decode_encode [of a] address_decode_sound [of buf a n] by (metis append.assoc)

lemma from_utf8_take_append [buf_simps]:
  "n + i \<le> length buf \<Longrightarrow> from_utf8 (take n (drop i (buf @ ext))) = from_utf8 (take n (drop i buf))"
  by simp

lemma address_decode_append_Invalid:
  assumes "address_decode buf = Invalid m"
  shows "address_decode (buf @ ext) = Invalid m"
proof -
  have ne: "buf \<noteq> []" using assms by (auto simp: address_decode_def)
  then have b0: "(buf @ ext) ! 0 = buf ! 0" by (simp add: nth_append)
  show ?thesis
  proof (cases "buf ! 0 = ATYP_DOMAIN")
    case True
    let ?l = "unat (buf ! 1)"
    from True have l: "?l + 4 \<le> length buf" "from_utf8 (take ?l (drop 2 buf)) = None"
      "m = ''invalid domain encoding''"
      using assms ne by (auto simp: address_decode_def Let_def atyp_defs split: if_splits option.splits)
    then have "(buf @ ext) ! 1 = buf ! 1" by (simp add: nth_append)
    with True l b0 ne show ?thesis
      by (simp add: address_decode_def Let_def atyp_defs buf_simps)
  next
    case False
    with assms ne b0 show ?thesis
      by (auto simp: address_decode_def Let_def atyp_defs split: if_splits)
  qed
qed

text \<open>An encoding cut short is never accepted and never rejected.\<close>

lemma address_decode_take:
  assumes a: "encodable a" and k: "k < length (addr_bytes a)"
  shows "address_decode (take k (addr_bytes a)) = NeedMoreData"
proof -
  let ?p = "take k (addr_bytes a)"
  have full: "address_decode (?p @ drop k (addr_bytes a)) = Ok a (length (addr_bytes a))"
    using address_decode_encode [OF a, of "[]"] by simp
  show ?thesis
  proof (cases "address_decode ?p")
    case (Ok b n)
    then have "n = length (addr_bytes a)"
      using full address_decode_append_Ok [OF Ok, of "drop k (addr_bytes a)"] by auto
    moreover have "n \<le> length ?p" using address_decode_sound [OF Ok]
      by (metis length_append le_add1)
    ultimately show ?thesis using k by simp
  next
    case (Invalid m)
    then show ?thesis
      using full address_decode_append_Invalid [OF Invalid, of "drop k (addr_bytes a)"] by simp
  qed
qed

section \<open>The request header: round trip, soundness and framing\<close>

fun cmd_byte :: "trojan_cmd \<Rightarrow> u8" where
  "cmd_byte Connect = 1"
| "cmd_byte UdpAssociate = 3"

definition header_bytes :: "bytes \<Rightarrow> trojan_cmd \<Rightarrow> address \<Rightarrow> bytes" where
  "header_bytes pw cmd a = pw @ [CR, LF] @ [cmd_byte cmd] @ addr_bytes a @ [CR, LF]"

definition request_bytes :: "trojan_request \<Rightarrow> bytes" where
  "request_bytes r = header_bytes (tr_password r) (tr_cmd r) (tr_addr r) @ tr_payload r"

definition request_ok :: "trojan_request \<Rightarrow> bool" where
  "request_ok r \<longleftrightarrow> length (tr_password r) = 56 \<and> encodable (tr_addr r)"

lemma trojan_cmd_try_from_byte [simp]: "trojan_cmd_try_from (cmd_byte c) = Inr c"
  by (cases c) (simp_all add: trojan_cmd_try_from_def)

lemma trojan_cmd_try_from_InrD: "trojan_cmd_try_from b = Inr c \<Longrightarrow> b = cmd_byte c"
  by (auto simp: trojan_cmd_try_from_def split: if_splits)

lemma length_header_bytes:
  "length pw = 56 \<Longrightarrow> length (header_bytes pw cmd a) = 61 + length (addr_bytes a)"
  by (simp add: header_bytes_def)

text \<open>The fixed positions of a header, read through the buffer that holds it.\<close>

lemma header_bytes_nth:
  assumes "length pw = 56"
  shows "(header_bytes pw cmd a @ p) ! 56 = CR" "(header_bytes pw cmd a @ p) ! 57 = LF"
    and "(header_bytes pw cmd a @ p) ! 58 = cmd_byte cmd"
    and "drop 59 (header_bytes pw cmd a @ p) = addr_bytes a @ [CR, LF] @ p"
    and "(header_bytes pw cmd a @ p) ! (59 + length (addr_bytes a)) = CR"
    and "(header_bytes pw cmd a @ p) ! (60 + length (addr_bytes a)) = LF"
    and "take 56 (header_bytes pw cmd a @ p) = pw"
  using assms by (simp_all add: header_bytes_def nth_append)

lemma request_decode_ok:
  assumes "request_ok r" and "REQ_MIN_SIZE \<le> length (request_bytes r)"
  shows "request_decode_zerocopy (request_bytes r) =
    (Ok r (length (header_bytes (tr_password r) (tr_cmd r) (tr_addr r))), [])"
proof -
  have pw: "length (tr_password r) = 56" and a: "encodable (tr_addr r)"
    using assms(1) by (auto simp: request_ok_def)
  define buf where "buf = request_bytes r"
  let ?n = "length (addr_bytes (tr_addr r))"
  note h = header_bytes_nth [OF pw, of "tr_cmd r" "tr_addr r" "tr_payload r",
      folded request_bytes_def, folded buf_def]
  have d: "address_decode (drop 59 buf) = Ok (tr_addr r) ?n"
    unfolding h(4) by (rule address_decode_encode [OF a])
  have l: "length buf = 61 + ?n + length (tr_payload r)"
    unfolding buf_def request_bytes_def by (simp add: length_header_bytes [OF pw])
  have dr: "drop (61 + ?n) buf = tr_payload r"
    unfolding buf_def request_bytes_def by (simp add: length_header_bytes [OF pw])
  have "\<not> length buf < REQ_MIN_SIZE" using assms(2) by (simp add: buf_def)
  then show ?thesis
    using h d dr unfolding buf_def [symmetric]
    by (simp add: request_decode_zerocopy_def Let_def length_header_bytes [OF pw] l)
qed

text \<open>The layout of any buffer that passes the tests of the header.\<close>

lemma request_layout:
  assumes l: "REQ_MIN_SIZE \<le> length buf" and crlf1: "buf ! 56 = CR" "buf ! 57 = LF"
    and c: "trojan_cmd_try_from (buf ! 58) = Inr cmd"
    and a: "address_decode (drop 59 buf) = Ok addr n"
    and crlf2: "59 + n + 2 \<le> length buf" "buf ! (59 + n) = CR" "buf ! (59 + n + 1) = LF"
  shows "encodable addr \<and> n = length (addr_bytes addr) \<and>
         buf = header_bytes (take 56 buf) cmd addr @ drop (59 + n + 2) buf"
proof -
  have l': "68 \<le> length buf" using l by (simp add: REQ_MIN_SIZE_def)
  from address_decode_sound [OF a] have e: "encodable addr" "n = length (addr_bytes addr)"
    and d: "drop 59 buf = addr_bytes addr @ drop n (drop 59 buf)" by auto
  have "buf = take 56 buf @ drop 56 buf" by simp
  also have "drop 56 buf = CR # LF # cmd_byte cmd # drop 59 buf"
    using l' crlf1 trojan_cmd_try_from_InrD [OF c] drop_split2 [of 56 buf]
      Cons_nth_drop_Suc [of 58 buf] by simp
  also have "drop 59 buf = addr_bytes addr @ [CR, LF] @ drop (59 + n + 2) buf"
    using d crlf2 drop_split2 [of "59 + n" buf] by (simp add: add.commute)
  finally show ?thesis using e by (simp add: header_bytes_def)
qed

text \<open>The two readers of a header go through the same tests.\<close>

lemma try_from_InlD: "trojan_cmd_try_from b = Inl m \<Longrightarrow> m = ''invalid trojan command''"
  by (auto simp: trojan_cmd_try_from_def split: if_splits)

lemma check_complete_cases:
  "case check_complete buf of
     Inl None \<Rightarrow> request_decode_zerocopy buf = (NeedMoreData, buf)
   | Inl (Some msg) \<Rightarrow> request_decode_zerocopy buf = (Invalid msg, buf)
   | Inr n \<Rightarrow> \<exists>r. request_decode_zerocopy buf = (Ok r n, []) \<and> tr_payload r = drop n buf"
  by (auto simp: check_complete_def request_decode_zerocopy_def Let_def
        split: sum.splits decode_result.splits dest: try_from_InlD)

lemma request_decode_OkD:
  assumes "request_decode_zerocopy buf = (Ok r n, rest)"
  shows "REQ_MIN_SIZE \<le> length buf \<and> buf ! 56 = CR \<and> buf ! 57 = LF \<and>
     (\<exists>cmd addr m. trojan_cmd_try_from (buf ! 58) = Inr cmd \<and>
        address_decode (drop 59 buf) = Ok addr m \<and>
        59 + m + 2 \<le> length buf \<and> buf ! (59 + m) = CR \<and> buf ! (59 + m + 1) = LF \<and>
        n = 59 + m + 2 \<and> rest = [] \<and>
        r = \<lparr>tr_password = take 56 buf, tr_cmd = cmd, tr_addr = addr, tr_payload = drop (59 + m + 2) buf\<rparr>)"
proof (cases "length buf < REQ_MIN_SIZE \<or> buf ! 56 \<noteq> CR \<or> buf ! 57 \<noteq> LF")
  case True
  then show ?thesis using assms by (simp add: request_decode_zerocopy_def Let_def split: if_split_asm)
next
  case False
  show ?thesis
  proof (cases "trojan_cmd_try_from (buf ! 58)")
    case Inl
    then show ?thesis using assms False by (simp add: request_decode_zerocopy_def)
  next
    case cmd: (Inr cmd)
    show ?thesis
    proof (cases "address_decode (drop 59 buf)")
      case (Ok addr m)
      then show ?thesis using assms False cmd
        by (auto simp: request_decode_zerocopy_def Let_def split: if_split_asm)
    qed (use assms False cmd in \<open>simp_all add: request_decode_zerocopy_def\<close>)
  qed
qed

lemma request_decode_sound:
  assumes "request_decode_zerocopy buf = (Ok r n, rest)"
  shows "request_ok r \<and> buf = request_bytes r \<and> rest = [] \<and>
         n = length (header_bytes (tr_password r) (tr_cmd r) (tr_addr r))"
proof -
  from request_decode_OkD [OF assms] obtain cmd addr m where
    l: "REQ_MIN_SIZE \<le> length buf" and crlf1: "buf ! 56 = CR" "buf ! 57 = LF"
    and c: "trojan_cmd_try_from (buf ! 58) = Inr cmd"
    and a: "address_decode (drop 59 buf) = Ok addr m"
    and crlf2: "59 + m + 2 \<le> length buf" "buf ! (59 + m) = CR" "buf ! (59 + m + 1) = LF"
    and r: "n = 59 + m + 2" "rest = []"
      "r = \<lparr>tr_password = take 56 buf, tr_cmd = cmd, tr_addr = addr, tr_payload = drop (59 + m + 2) buf\<rparr>"
    by blast
  have p: "length (take 56 buf) = 56" using l by (simp add: REQ_MIN_SIZE_def)
  from request_layout [OF l crlf1 c a crlf2] have e: "encodable addr" and m: "m = length (addr_bytes addr)"
    and b: "buf = header_bytes (take 56 buf) cmd addr @ drop (59 + m + 2) buf" by auto
  have "buf = request_bytes r" using b by (simp only: r request_bytes_def trojan_request.simps)
  moreover have "request_ok r" using e p by (simp add: r request_ok_def)
  moreover have "n = length (header_bytes (tr_password r) (tr_cmd r) (tr_addr r))"
    by (simp only: r trojan_request.simps length_header_bytes [OF p] m)
  ultimately show ?thesis using r(2) by simp
qed

lemma request_decode_append_Invalid:
  assumes "request_decode_zerocopy buf = (Invalid m, rest)"
  shows "request_decode_zerocopy (buf @ ext) = (Invalid m, buf @ ext)"
proof -
  have l: "68 \<le> length buf" using assms
    by (auto simp: request_decode_zerocopy_def REQ_MIN_SIZE_def split: if_splits)
  then have nths: "(buf @ ext) ! 56 = buf ! 56" "(buf @ ext) ! 57 = buf ! 57" "(buf @ ext) ! 58 = buf ! 58"
    and d: "drop 59 (buf @ ext) = drop 59 buf @ ext"
    by (simp_all add: nth_append)
  show ?thesis
  proof (cases "address_decode (drop 59 buf)")
    case (Ok a k)
    then show ?thesis using assms l
      by (auto simp: request_decode_zerocopy_def Let_def nths d address_decode_append_Ok [OF Ok]
            nth_append REQ_MIN_SIZE_def simp del: drop_append split: if_splits sum.splits)
  next
    case NeedMoreData
    then show ?thesis using assms l
      by (auto simp: request_decode_zerocopy_def Let_def nths REQ_MIN_SIZE_def
            split: if_splits sum.splits)
  next
    case (Invalid msg)
    then show ?thesis using assms l
      by (auto simp: request_decode_zerocopy_def Let_def nths d address_decode_append_Invalid [OF Invalid]
            REQ_MIN_SIZE_def simp del: drop_append split: if_splits sum.splits)
  qed
qed
section \<open>UDP packets: round trip, agreement of the two decoders, framing\<close>

definition udp_ok :: "trojan_udp_packet \<Rightarrow> bool" where
  "udp_ok p \<longleftrightarrow> encodable (up_addr p) \<and> length (up_payload p) < 65536"

text \<open>The wire image of a packet.\<close>

abbreviation udp_bytes :: "trojan_udp_packet \<Rightarrow> bytes" where
  "udp_bytes p \<equiv> udp_encode (up_addr p) (up_payload p)"

lemma udp_encode_eq:
  "udp_encode a p = addr_bytes a @ u16_to_be_bytes (of_nat (length p)) @ [CR, LF] @ p"
  by (simp add: udp_encode_def addr_bytes_def)

lemma length_udp_encode: "length (udp_encode a p) = length (addr_bytes a) + 4 + length p"
  by (simp add: udp_encode_eq)

text \<open>The copying decoder is the zero-copy decoder without the buffer.\<close>

lemma udp_decode_fst: "udp_decode buf = fst (udp_decode_zerocopy buf)"
  by (simp add: udp_decode_def udp_decode_zerocopy_def Let_def split: decode_result.split)

lemma unat_of_nat_u16: "n < 65536 \<Longrightarrow> unat (of_nat n :: u16) = n"
  by (simp add: unat_of_nat)

lemma udp_decode_encode:
  assumes p: "udp_ok p" and l: "UDP_MIN_SIZE \<le> length (udp_bytes p @ rest)"
  shows "udp_decode_zerocopy (udp_bytes p @ rest) = (Ok p (length (udp_bytes p)), rest)"
proof -
  let ?a = "up_addr p" and ?d = "up_payload p"
  let ?n = "length (addr_bytes ?a)"
  define buf where "buf = udp_bytes p @ rest"
  have buf: "buf = addr_bytes ?a @ u16_to_be_bytes (of_nat (length ?d)) @ [CR, LF] @ ?d @ rest"
    by (simp add: buf_def udp_encode_eq)
  have d: "address_decode buf = Ok ?a ?n"
    unfolding buf using p address_decode_encode by (simp add: udp_ok_def)
  have nths: "u16_from_be_bytes (buf ! ?n) (buf ! (?n + 1)) = of_nat (length ?d)"
    "buf ! (?n + 2) = CR" "buf ! (?n + 3) = LF" "drop (?n + 4) buf = ?d @ rest"
    by (simp_all add: buf nth_append u16_to_be_bytes_def)
  have lb: "length buf = ?n + 4 + length ?d + length rest" by (simp add: buf)
  have "\<not> length buf < UDP_MIN_SIZE" using l by (simp add: buf_def)
  moreover have "unat (of_nat (length ?d) :: u16) = length ?d"
    using p by (simp add: unat_of_nat_u16 udp_ok_def)
  ultimately show ?thesis
    unfolding buf_def [symmetric] udp_decode_zerocopy_def
    by (simp add: d nths lb Let_def length_udp_encode del: One_nat_def drop_drop add_2_eq_Suc')
qed

lemma udp_decode_sound:
  assumes "udp_decode_zerocopy buf = (Ok p n, rest)"
  shows "udp_ok p \<and> n = length (udp_bytes p) \<and> buf = udp_bytes p @ rest"
proof (cases "address_decode buf")
  case (Ok a m)
  let ?l = "u16_from_be_bytes (buf ! m) (buf ! (m + 1))"
  from Ok assms have b: "m + 4 + unat ?l \<le> length buf" "buf ! (m + 2) = CR" "buf ! (m + 3) = LF"
    and p: "p = \<lparr>up_addr = a, up_payload = take (unat ?l) (drop (m + 4) buf)\<rparr>"
       "n = m + 4 + unat ?l" "rest = drop (unat ?l) (drop (m + 4) buf)"
    by (simp_all add: udp_decode_zerocopy_def Let_def not_less split: if_split_asm)
  from address_decode_sound [OF Ok] have a: "encodable a" "m = length (addr_bytes a)"
    and d0: "buf = addr_bytes a @ drop m buf" by auto
  have "length (up_payload p) = unat ?l" using b(1) by (simp add: p(1))
  moreover have "unat ?l < 65536" using unsigned_less [of ?l, where ?'a = nat] by simp
  moreover have "drop m buf = [buf ! m, buf ! (m + 1), CR, LF] @ drop (m + 4) buf"
    using drop_split2 [of m buf] drop_split2 [of "m + 2" buf] b by (simp add: eval_nat_numeral)
  then have "drop m buf = u16_to_be_bytes ?l @ [CR, LF] @ up_payload p @ rest"
    by (simp add: p del: drop_drop)
  ultimately show ?thesis using a p(2) d0
    by (simp add: udp_ok_def udp_encode_eq p(1) length_udp_encode)
qed (use assms in \<open>simp_all add: udp_decode_zerocopy_def split: if_split_asm\<close>)

text \<open>A complete answer of \<open>check_complete\<close> does not depend on the bytes that follow.\<close>

lemma check_complete_length:
  assumes "check_complete buf = Inr n"
  shows "n \<le> length buf"
  using assms
  by (auto simp: check_complete_def Let_def split: if_split_asm sum.split_asm decode_result.split_asm)

lemma check_complete_append:
  assumes c: "check_complete buf \<noteq> Inl None"
  shows "check_complete (buf @ ext) = check_complete buf"
proof -
  have l: "68 \<le> length buf" using c
    by (auto simp: check_complete_def REQ_MIN_SIZE_def split: if_splits)
  then have nths: "(buf @ ext) ! 56 = buf ! 56" "(buf @ ext) ! 57 = buf ! 57" "(buf @ ext) ! 58 = buf ! 58"
    and d: "drop 59 (buf @ ext) = drop 59 buf @ ext"
    by (simp_all add: nth_append)
  have m: "\<not> length buf < REQ_MIN_SIZE" "\<not> length (buf @ ext) < REQ_MIN_SIZE"
    using l by (simp_all add: REQ_MIN_SIZE_def)
  show ?thesis
  proof (cases "address_decode (drop 59 buf)")
    case (Ok a k)
    have "length buf < 59 + k + 2 \<or>
          (\<not> length buf < 59 + k + 2 \<and> (buf @ ext) ! (59 + k) = buf ! (59 + k) \<and>
           (buf @ ext) ! (59 + k + 1) = buf ! (59 + k + 1))"
      by (auto simp: nth_append)
    then show ?thesis using c m unfolding check_complete_def nths d address_decode_append_Ok [OF Ok] Ok
      by (auto simp: Let_def split: if_split_asm sum.split)
  next
    case NeedMoreData
    then show ?thesis using c m unfolding check_complete_def nths
      by (auto split: if_split_asm sum.splits)
  next
    case (Invalid msg)
    then show ?thesis using c m unfolding check_complete_def nths d address_decode_append_Invalid [OF Invalid]
      by (auto split: if_split_asm sum.split)
  qed
qed

section \<open>Properties\<close>

text \<open>
  An encoded address (well-formed, with a domain of at most 255 bytes) decodes to itself
  from the front of any buffer, using exactly the bytes that \<open>encode\<close> reported; every proper prefix
  of it is answered \<open>NeedMoreData\<close>, so an address cut by the network is neither misread nor
  rejected.
\<close>

lemma address_roundtrip:
  assumes "encodable a"
  shows "address_decode (fst (address_encode a []) @ rest) = Ok a (snd (address_encode a [])) \<and>
    (\<forall>k. k < snd (address_encode a []) \<longrightarrow> address_decode (take k (fst (address_encode a []))) = NeedMoreData)"
  using address_decode_encode [OF assms, of rest] address_decode_take [OF assms]
  by (simp add: address_encode_eq)

text \<open>
  C21: \<open>TrojanRequest::decode_zerocopy\<close> accepts exactly the byte images of requests: a 56-byte
  hash, CRLF, a command byte, an encoded address, CRLF and a payload, at least \<open>MIN_SIZE\<close> bytes in
  all.  The fields it returns are those of the image, the reported length is that of the header, and
  the buffer is left empty.
\<close>

theorem request_decode_iff:
  "request_decode_zerocopy buf = (Ok r n, rest) \<longleftrightarrow>
     request_ok r \<and> buf = request_bytes r \<and> REQ_MIN_SIZE \<le> length buf \<and> rest = [] \<and>
     n = length (header_bytes (tr_password r) (tr_cmd r) (tr_addr r))"
proof
  assume d: "request_decode_zerocopy buf = (Ok r n, rest)"
  show "request_ok r \<and> buf = request_bytes r \<and> REQ_MIN_SIZE \<le> length buf \<and> rest = [] \<and>
     n = length (header_bytes (tr_password r) (tr_cmd r) (tr_addr r))"
    using request_decode_sound [OF d] request_decode_OkD [OF d] by simp
qed (use request_decode_ok [of r] in blast)

text \<open>
  C23: \<open>check_complete\<close> and \<open>decode_zerocopy\<close> agree on every buffer: the caller that decodes
  only after \<open>check_complete\<close> answered \<open>Ok\<close> always gets a request, with the same header length and
  the payload behind it, and the other answers are the same too.  An answer other than ``more data''
  is final: it does not depend on the bytes that follow.
\<close>

theorem check_complete_agrees:
  "(case check_complete buf of
      Inl None \<Rightarrow> request_decode_zerocopy buf = (NeedMoreData, buf)
    | Inl (Some msg) \<Rightarrow> request_decode_zerocopy buf = (Invalid msg, buf)
    | Inr n \<Rightarrow> n \<le> length buf \<and>
        (\<exists>r. request_decode_zerocopy buf = (Ok r n, []) \<and> tr_payload r = drop n buf)) \<and>
   (check_complete buf = Inl None \<or> check_complete (buf @ ext) = check_complete buf)"
  using check_complete_cases [of buf] check_complete_length [of buf] check_complete_append [of buf ext]
  by (auto split: sum.split option.split)


text \<open>
  C39: The minimum sizes assume a seven-byte address, but a domain of at most two bytes encodes
  to fewer: a complete, well-formed request for such a domain that carries no payload, and a complete
  UDP packet for it with a short payload, are answered \<open>NeedMoreData\<close> although nothing is missing.
\<close>

theorem short_domain_stalls:
  assumes "length d \<le> 2" and "str_ok d" and "length pw = 56"
  shows "request_decode_zerocopy (header_bytes pw cmd (Domain d port)) =
           (NeedMoreData, header_bytes pw cmd (Domain d port)) \<and>
         (length d + length payload \<le> 2 \<longrightarrow>
           udp_decode_zerocopy (udp_encode (Domain d port) payload) =
             (NeedMoreData, udp_encode (Domain d port) payload))"
proof -
  have "length (header_bytes pw cmd (Domain d port)) < REQ_MIN_SIZE"
    using assms by (simp add: length_header_bytes length_addr_bytes REQ_MIN_SIZE_def)
  moreover have "length d + length payload \<le> 2 \<Longrightarrow> length (udp_encode (Domain d port) payload) < UDP_MIN_SIZE"
    using assms by (simp add: length_udp_encode length_addr_bytes UDP_MIN_SIZE_def)
  ultimately show ?thesis by (simp add: request_decode_zerocopy_def udp_decode_zerocopy_def)
qed

theorem short_domain_stalls_witness:
  "request_decode_zerocopy (header_bytes (replicate 56 97) Connect (Domain ''ai'' 443)) =
     (NeedMoreData, header_bytes (replicate 56 97) Connect (Domain ''ai'' 443)) \<and>
   udp_decode_zerocopy (udp_encode (Domain ''ai'' 53) []) = (NeedMoreData, udp_encode (Domain ''ai'' 53) [])"
proof -
  have "str_ok ''ai''" by code_simp
  then show ?thesis
    using short_domain_stalls [of "''ai''" "replicate 56 97" Connect 443 "[]"]
      short_domain_stalls [of "''ai''" "replicate 56 97" Connect 53 "[]"] by simp
qed

end
