(* ===== verification/Ip_Filter.thy ===== *)
theory Ip_Filter
  imports Net_Addr
begin

text \<open>
  \<open>src/src/core/ip_filter.rs\<close>: the predicates that decide which destination addresses the
  proxy refuses to reach (SSRF protection).  The lemmas relate the octet tests of the code to the
  CIDR blocks they stand for, and show that an IPv6 address that carries an IPv4 address
  (mapped, compatible or NAT64) is judged by the address it carries.
\<close>

section \<open>The standard library's classification of IPv4 addresses\<close>

text \<open>\<open>Ipv4Addr::is_loopback\<close>, \<open>is_private\<close>, \<open>is_link_local\<close>, \<open>is_broadcast\<close>, \<open>is_multicast\<close>.\<close>

definition ipv4_is_loopback :: "bytes \<Rightarrow> bool" where
  "ipv4_is_loopback os \<longleftrightarrow> os ! 0 = 127"

definition ipv4_is_private :: "bytes \<Rightarrow> bool" where
  "ipv4_is_private os \<longleftrightarrow>
     os ! 0 = 10 \<or> (os ! 0 = 172 \<and> 16 \<le> os ! 1 \<and> os ! 1 \<le> 31) \<or> (os ! 0 = 192 \<and> os ! 1 = 168)"

definition ipv4_is_link_local :: "bytes \<Rightarrow> bool" where
  "ipv4_is_link_local os \<longleftrightarrow> os ! 0 = 169 \<and> os ! 1 = 254"

definition ipv4_is_broadcast :: "bytes \<Rightarrow> bool" where
  "ipv4_is_broadcast os \<longleftrightarrow> os = [255, 255, 255, 255]"

definition ipv4_is_multicast :: "bytes \<Rightarrow> bool" where
  "ipv4_is_multicast os \<longleftrightarrow> 224 \<le> os ! 0 \<and> os ! 0 \<le> 239"

section \<open>The filter\<close>

definition is_private_ipv4 :: "bytes \<Rightarrow> bool" where
  "is_private_ipv4 os \<longleftrightarrow>
     ipv4_is_loopback os
     \<or> ipv4_is_private os
     \<or> ipv4_is_link_local os
     \<or> os ! 0 = 0
     \<or> (os ! 0 = 100 \<and> (os ! 1 AND 0xC0) = 64)
     \<or> (os ! 0 = 192 \<and> os ! 1 = 0 \<and> os ! 2 = 0)
     \<or> ipv4_is_broadcast os
     \<or> ipv4_is_multicast os"

text \<open>\<open>Ipv4Addr::from(((s[6] as u32) << 16) | s[7] as u32)\<close>: the last four octets.\<close>

definition v4_of_segments :: "u16 \<Rightarrow> u16 \<Rightarrow> bytes" where
  "v4_of_segments a b = u16_to_be_bytes a @ u16_to_be_bytes b"

definition embedded_ipv4 :: "bytes \<Rightarrow> bytes option" where
  "embedded_ipv4 ip =
     (let s = segments ip in
      if take 6 s = [0x64, 0xff9b, 0, 0, 0, 0] then Some (v4_of_segments (s ! 6) (s ! 7))
      else (case to_ipv4_mapped ip of
              Some v4 \<Rightarrow> Some v4
            | None \<Rightarrow>
                if take 6 s = [0, 0, 0, 0, 0, 0] \<and> (s ! 6 \<noteq> 0 \<or> s ! 7 > 1)
                then Some (v4_of_segments (s ! 6) (s ! 7))
                else None))"

definition is_ipv6_ula :: "bytes \<Rightarrow> bool" where
  "is_ipv6_ula ip \<longleftrightarrow> (segments ip ! 0 AND 0xfe00) = 0xfc00"

definition is_ipv6_link_local :: "bytes \<Rightarrow> bool" where
  "is_ipv6_link_local ip \<longleftrightarrow> (segments ip ! 0 AND 0xffc0) = 0xfe80"

text \<open>\<open>Ipv6Addr::is_unspecified\<close>, \<open>is_loopback\<close> and \<open>is_multicast\<close> of the standard library.\<close>

definition ipv6_is_unspecified :: "bytes \<Rightarrow> bool" where
  "ipv6_is_unspecified ip \<longleftrightarrow> ip = replicate 16 0"

definition ipv6_is_loopback :: "bytes \<Rightarrow> bool" where
  "ipv6_is_loopback ip \<longleftrightarrow> ip = replicate 15 0 @ [1]"

definition ipv6_is_multicast :: "bytes \<Rightarrow> bool" where
  "ipv6_is_multicast ip \<longleftrightarrow> (segments ip ! 0 AND 0xff00) = 0xff00"

definition is_private_ipv6 :: "bytes \<Rightarrow> bool" where
  "is_private_ipv6 ip =
     (case embedded_ipv4 ip of
        Some v4 \<Rightarrow> is_private_ipv4 v4
      | None \<Rightarrow>
          ipv6_is_unspecified ip
          \<or> ipv6_is_loopback ip
          \<or> ipv6_is_multicast ip
          \<or> is_ipv6_ula ip
          \<or> is_ipv6_link_local ip)"

fun is_private_ip :: "ip_addr \<Rightarrow> bool" where
  "is_private_ip (V4 v4) = is_private_ipv4 v4"
| "is_private_ip (V6 v6) = is_private_ipv6 v6"

section \<open>The octet tests are CIDR blocks\<close>

text \<open>
  The reference: an IPv4 address as a 32-bit word, and the blocks the filter covers as
  (network, prefix length) pairs.
\<close>

definition ipv4_word :: "bytes \<Rightarrow> u32" where
  "ipv4_word os = u32_from_be_bytes (os ! 0) (os ! 1) (os ! 2) (os ! 3)"

definition in_cidr :: "u32 \<Rightarrow> bytes \<times> nat \<Rightarrow> bool" where
  "in_cidr ip block = (drop_bit (32 - snd block) ip = drop_bit (32 - snd block) (ipv4_word (fst block)))"

definition private_ipv4_blocks :: "(bytes \<times> nat) list" where
  "private_ipv4_blocks =
     [([127, 0, 0, 0], 8), ([10, 0, 0, 0], 8), ([172, 16, 0, 0], 12), ([192, 168, 0, 0], 16),
      ([169, 254, 0, 0], 16), ([0, 0, 0, 0], 8), ([100, 64, 0, 0], 10), ([192, 0, 0, 0], 24),
      ([255, 255, 255, 255], 32), ([224, 0, 0, 0], 4)]"

text \<open>Each prefix length compares the leading digits of the address in base 256.\<close>

lemma u32_bound: "unat (x :: u32) < 4294967296"
  using unsigned_less [of x, where ?'a = nat] by simp

lemma in_cidr_nat:
  "in_cidr ip (net, len) \<longleftrightarrow> unat ip div 2 ^ (32 - len) = unat (ipv4_word net) div 2 ^ (32 - len)"
  unfolding in_cidr_def word_unat_eq_iff unsigned_drop_bit_eq 
  by (simp add: drop_bit_eq_div take_bit_nat_eq_self u32_bound)

lemma div_digit: "r < (n::nat) \<Longrightarrow> (q * n + r) div n = q"
  by simp

lemma cidr_digits:
  fixes a b c d :: nat
  assumes "b < 256" "c < 256" "d < 256"
  shows "(((a * 256 + b) * 256 + c) * 256 + d) div 256 = (a * 256 + b) * 256 + c"
    and "(((a * 256 + b) * 256 + c) * 256 + d) div 65536 = a * 256 + b"
    and "(((a * 256 + b) * 256 + c) * 256 + d) div 16777216 = a"
    and "(((a * 256 + b) * 256 + c) * 256 + d) div 268435456 = a div 16"
    and "(((a * 256 + b) * 256 + c) * 256 + d) div 4194304 = a * 4 + b div 64"
    and "(((a * 256 + b) * 256 + c) * 256 + d) div 1048576 = a * 16 + b div 16"
proof -
  define w where "w = ((a * 256 + b) * 256 + c) * 256 + d"
  have 8: "w div 256 = (a * 256 + b) * 256 + c" unfolding w_def by (rule div_digit [OF assms(3)])
  have 16: "w div 65536 = a * 256 + b"
    using div_digit [OF assms(2), of "a * 256 + b"] 8 div_mult2_eq [of w 256 256] by simp
  have 24: "w div 16777216 = a"
    using div_digit [OF assms(1), of a] 16 div_mult2_eq [of w 65536 256] by simp
  have 28: "w div 268435456 = a div 16" using 24 div_mult2_eq [of w 16777216 16] by simp
  have d: "(a * 256 + b) div 64 = a * 4 + b div 64" "(a * 256 + b) div 16 = a * 16 + b div 16"
    using div_mult_self3 [of 64 "a * 4" b] div_mult_self3 [of 16 "a * 16" b] by (simp_all add: mult.assoc)
  have 22: "w div 4194304 = a * 4 + b div 64" using 16 d(1) div_mult2_eq [of w 65536 64] by simp
  have 20: "w div 1048576 = a * 16 + b div 16" using 16 d(2) div_mult2_eq [of w 65536 16] by simp
  show "(((a * 256 + b) * 256 + c) * 256 + d) div 256 = (a * 256 + b) * 256 + c"
    "(((a * 256 + b) * 256 + c) * 256 + d) div 65536 = a * 256 + b"
    "(((a * 256 + b) * 256 + c) * 256 + d) div 16777216 = a"
    "(((a * 256 + b) * 256 + c) * 256 + d) div 268435456 = a div 16"
    "(((a * 256 + b) * 256 + c) * 256 + d) div 4194304 = a * 4 + b div 64"
    "(((a * 256 + b) * 256 + c) * 256 + d) div 1048576 = a * 16 + b div 16"
    using 8 16 24 28 22 20 by (simp_all only: w_def)
qed

lemma and_C0: "(b :: u8) AND 0xC0 = push_bit 6 (drop_bit 6 b)"
proof (rule bit_word_eqI)
  fix n assume n: "n < LENGTH(8)"
  have "(0xC0 :: u8) = push_bit 6 (mask 2)" by (simp add: push_bit_eq_mult mask_eq_exp_minus_1)
  then have "bit (0xC0 :: u8) n = bit (push_bit 6 (mask 2) :: u8) n" by (rule arg_cong)
  also have "\<dots> \<longleftrightarrow> 6 \<le> n" using n by (auto simp: bit_simps)
  finally have "bit (0xC0 :: u8) n \<longleftrightarrow> 6 \<le> n" .
  then show "bit (b AND 0xC0) n = bit (push_bit 6 (drop_bit 6 b)) n"
    using n by (auto simp: bit_simps)
qed

lemma and_C0_64: "(b :: u8) AND 0xC0 = 64 \<longleftrightarrow> unat b div 64 = 1"
proof -
  have "unat b div 64 * 64 < 2 ^ 8"
    using le_less_trans [OF div_times_less_eq_dividend u8_bound] by simp
  moreover have "unat (drop_bit 6 b) = unat b div 64" by (simp add: drop_bit_eq_div unat_div)
  ultimately have "unat (push_bit 6 (drop_bit 6 b)) = unat b div 64 * 64"
    unfolding unsigned_push_bit_eq by (simp add: push_bit_eq_mult take_bit_nat_eq_self)
  then show ?thesis by (simp add: and_C0 word_unat_eq_iff)
qed

lemma ipv4_word_octets:
  "unat (ipv4_word [a, b, c, d]) = ((unat a * 256 + unat b) * 256 + unat c) * 256 + unat d"
  by (simp add: ipv4_word_def unat_u32_from_be)

lemma ipv4_word_div:
  "unat (ipv4_word [a, b, c, d]) div 268435456 = unat a div 16"
  "unat (ipv4_word [a, b, c, d]) div 16777216 = unat a"
  "unat (ipv4_word [a, b, c, d]) div 4194304 = unat a * 4 + unat b div 64"
  "unat (ipv4_word [a, b, c, d]) div 1048576 = unat a * 16 + unat b div 16"
  "unat (ipv4_word [a, b, c, d]) div 65536 = unat a * 256 + unat b"
  "unat (ipv4_word [a, b, c, d]) div 256 = (unat a * 256 + unat b) * 256 + unat c"
  by (simp_all only: ipv4_word_octets cidr_digits [OF u8_bound u8_bound u8_bound])

lemma base_eq:
  fixes x y u v n :: nat
  assumes "x < n" "y < n"
  shows "u * n + x = v * n + y \<longleftrightarrow> u = v \<and> x = y"
  using div_digit [OF assms(1), of u] div_digit [OF assms(2), of v] by auto

lemma in_cidr_octets:
  "in_cidr (ipv4_word [a, b, c, d]) ([p, q, r, s], 4) \<longleftrightarrow> unat a div 16 = unat p div 16"
  "in_cidr (ipv4_word [a, b, c, d]) ([p, q, r, s], 8) \<longleftrightarrow> a = p"
  "in_cidr (ipv4_word [a, b, c, d]) ([p, q, r, s], 10) \<longleftrightarrow> a = p \<and> unat b div 64 = unat q div 64"
  "in_cidr (ipv4_word [a, b, c, d]) ([p, q, r, s], 12) \<longleftrightarrow> a = p \<and> unat b div 16 = unat q div 16"
  "in_cidr (ipv4_word [a, b, c, d]) ([p, q, r, s], 16) \<longleftrightarrow> a = p \<and> b = q"
  "in_cidr (ipv4_word [a, b, c, d]) ([p, q, r, s], 24) \<longleftrightarrow> a = p \<and> b = q \<and> c = r"
  "in_cidr (ipv4_word [a, b, c, d]) ([p, q, r, s], 32) \<longleftrightarrow> a = p \<and> b = q \<and> c = r \<and> d = s"
proof -
  have lt: "unat x div 64 < 4" "unat x div 16 < 16" for x :: u8
    by (intro less_mult_imp_div_less; simp)+
  note base = base_eq [OF u8_bound u8_bound] base_eq [OF lt(1) lt(1)] base_eq [OF lt(2) lt(2)]
  show "in_cidr (ipv4_word [a, b, c, d]) ([p, q, r, s], 4) \<longleftrightarrow> unat a div 16 = unat p div 16"
    by (simp add: in_cidr_nat ipv4_word_div(1))
  show "in_cidr (ipv4_word [a, b, c, d]) ([p, q, r, s], 8) \<longleftrightarrow> a = p"
    by (simp add: in_cidr_nat ipv4_word_div(2) word_unat_eq_iff)
  show "in_cidr (ipv4_word [a, b, c, d]) ([p, q, r, s], 10) \<longleftrightarrow> a = p \<and> unat b div 64 = unat q div 64"
    by (simp add: in_cidr_nat ipv4_word_div(3) base word_unat_eq_iff)
  show "in_cidr (ipv4_word [a, b, c, d]) ([p, q, r, s], 12) \<longleftrightarrow> a = p \<and> unat b div 16 = unat q div 16"
    by (simp add: in_cidr_nat ipv4_word_div(4) base word_unat_eq_iff)
  show "in_cidr (ipv4_word [a, b, c, d]) ([p, q, r, s], 16) \<longleftrightarrow> a = p \<and> b = q"
    by (simp add: in_cidr_nat ipv4_word_div(5) base word_unat_eq_iff)
  have "in_cidr (ipv4_word [a, b, c, d]) ([p, q, r, s], 24) \<longleftrightarrow>
      (unat a * 256 + unat b) * 256 + unat c = (unat p * 256 + unat q) * 256 + unat r"
    unfolding in_cidr_nat by (simp add: ipv4_word_div(6))
  then show "in_cidr (ipv4_word [a, b, c, d]) ([p, q, r, s], 24) \<longleftrightarrow> a = p \<and> b = q \<and> c = r"
    by (simp only: base word_unat_eq_iff conj_assoc)
  have "in_cidr (ipv4_word [a, b, c, d]) ([p, q, r, s], 32) \<longleftrightarrow>
      ((unat a * 256 + unat b) * 256 + unat c) * 256 + unat d =
      ((unat p * 256 + unat q) * 256 + unat r) * 256 + unat s"
    unfolding in_cidr_nat by (simp add: ipv4_word_octets)
  then show "in_cidr (ipv4_word [a, b, c, d]) ([p, q, r, s], 32) \<longleftrightarrow> a = p \<and> b = q \<and> c = r \<and> d = s"
    by (simp only: base word_unat_eq_iff conj_assoc)
qed

lemma u8_range_div16: "(224 :: u8) \<le> x \<and> x \<le> 239 \<longleftrightarrow> unat x div 16 = 14"
  by (simp add: word_le_nat_alt) linarith

lemma u8_range_172: "(16 :: u8) \<le> x \<and> x \<le> 31 \<longleftrightarrow> unat x div 16 = 1"
  by (simp add: word_le_nat_alt) linarith

text \<open>
  C37: the octet tests of \<open>is_private_ipv4\<close> accept exactly the addresses of ten CIDR blocks:
  127.0.0.0/8, 10.0.0.0/8, 172.16.0.0/12, 192.168.0.0/16, 169.254.0.0/16, 0.0.0.0/8,
  100.64.0.0/10, 192.0.0.0/24, 255.255.255.255/32 and 224.0.0.0/4.
\<close>

theorem is_private_ipv4_blocks:
  assumes "length os = 4"
  shows "is_private_ipv4 os \<longleftrightarrow> list_ex (in_cidr (ipv4_word os)) private_ipv4_blocks"
proof -
  obtain a b c d where os: "os = [a, b, c, d]"
    using assms by (auto simp: numeral_eq_Suc length_Suc_conv)
  have 1: "list_ex (in_cidr (ipv4_word os)) private_ipv4_blocks \<longleftrightarrow>
      a = 127 \<or> a = 10 \<or> (a = 172 \<and> unat b div 16 = 1) \<or> (a = 192 \<and> b = 168) \<or>
      (a = 169 \<and> b = 254) \<or> a = 0 \<or> (a = 100 \<and> unat b div 64 = 1) \<or> (a = 192 \<and> b = 0 \<and> c = 0) \<or>
      os = [255, 255, 255, 255] \<or> unat a div 16 = 14"
    by (simp add: os private_ipv4_blocks_def in_cidr_octets)
  show ?thesis
    unfolding 1 is_private_ipv4_def ipv4_is_loopback_def ipv4_is_private_def ipv4_is_link_local_def
      ipv4_is_broadcast_def ipv4_is_multicast_def
    by (simp add: os and_C0_64 u8_range_172 u8_range_div16 disj_ac)
qed

theorem is_private_ipv4_blocks_witness:
  "length [172, 31, 4, 9 :: u8] = 4 \<and> is_private_ipv4 [172, 31, 4, 9] \<and>
   list_ex (in_cidr (ipv4_word [172, 31, 4, 9])) private_ipv4_blocks"
proof -
  have l: "length [172, 31, 4, 9 :: u8] = 4" by simp
  have p: "is_private_ipv4 [172, 31, 4, 9]" by (simp add: is_private_ipv4_def ipv4_is_private_def)
  show ?thesis using l p is_private_ipv4_blocks [OF l] by simp
qed

section \<open>IPv6 forms that carry an IPv4 address\<close>

definition mapped_prefix :: bytes where
  "mapped_prefix = [0, 0, 0, 0, 0, 0, 0, 0, 0, 0, 0xFF, 0xFF]"

definition compatible_prefix :: bytes where
  "compatible_prefix = [0, 0, 0, 0, 0, 0, 0, 0, 0, 0, 0, 0]"

definition nat64_prefix :: bytes where
  "nat64_prefix = [0, 0x64, 0xFF, 0x9B, 0, 0, 0, 0, 0, 0, 0, 0]"

lemma u16_be_consts:
  "u16_from_be_bytes 0 0 = 0" "u16_from_be_bytes 0xFF 0xFF = 0xFFFF"
  "u16_from_be_bytes 0 0x64 = 0x64" "u16_from_be_bytes 0xFF 0x9B = 0xFF9B"
  by (simp_all add: word_unat_eq_iff unat_u16_from_be)

lemma u16_be_zero_iff: "u16_from_be_bytes a b = 0 \<longleftrightarrow> a = 0 \<and> b = 0"
  by (auto simp: word_unat_eq_iff unat_u16_from_be)

text \<open>
  the filter cannot be bypassed by writing an IPv4 address as IPv6: an IPv4-mapped
  (\<open>::ffff:a.b.c.d\<close>), IPv4-compatible (\<open>::a.b.c.d\<close>) or NAT64 (\<open>64:ff9b::a.b.c.d\<close>) address is
  private exactly when the IPv4 address it carries is, for every \<open>a.b.c.d\<close>.
\<close>

lemma is_private_ip_embedded:
  assumes v4: "length v4 = 4" and pre: "pre \<in> {mapped_prefix, compatible_prefix, nat64_prefix}"
  shows "is_private_ip (V6 (pre @ v4)) = is_private_ip (V4 v4)"
proof -
  obtain a b c d where v: "v4 = [a, b, c, d]"
    using v4 by (auto simp: numeral_eq_Suc length_Suc_conv)
  consider "pre = mapped_prefix" | "pre = compatible_prefix" | "pre = nat64_prefix" using pre by blast
  then show ?thesis
  proof cases
    case 1
    then show ?thesis
      by (simp add: v mapped_prefix_def is_private_ipv6_def embedded_ipv4_def to_ipv4_mapped_def u16_be_consts)
  next
    case 2
    show ?thesis
    proof (cases "u16_from_be_bytes a b = 0 \<and> \<not> u16_from_be_bytes c d > 1")
      case True
      then have z: "a = 0" "b = 0" "c = 0" "d = 0 \<or> d = 1"
        by (auto simp: u16_be_zero_iff word_less_nat_alt word_unat_eq_iff unat_u16_from_be le_Suc_eq)
      have "ipv6_is_unspecified (pre @ v4) \<or> ipv6_is_loopback (pre @ v4)"
        using z 2 by (auto simp: v compatible_prefix_def ipv6_is_unspecified_def ipv6_is_loopback_def numeral_eq_Suc)
      moreover have "embedded_ipv4 (pre @ v4) = None"
        using True 2 by (simp add: v compatible_prefix_def embedded_ipv4_def to_ipv4_mapped_def u16_be_consts)
      ultimately show ?thesis using z
        by (auto simp: is_private_ipv6_def v is_private_ipv4_def)
    next
      case False
      then have "embedded_ipv4 (pre @ v4) = Some v4"
        using 2 by (auto simp: v compatible_prefix_def embedded_ipv4_def to_ipv4_mapped_def
                      u16_be_consts v4_of_segments_def)
      then show ?thesis by (simp add: is_private_ipv6_def)
    qed
  next
    case 3
    then show ?thesis
      by (simp add: v nat64_prefix_def is_private_ipv6_def embedded_ipv4_def u16_be_consts v4_of_segments_def)
  qed
qed

end
