(* ===== verification/Dns.thy ===== *)
theory Dns
  imports Protocol Ip_Filter
begin

text \<open>
  \<open>src/src/core/dns.rs\<close> and \<open>src/src/core/hooks.rs\<close>: resolution of an \<open>Address\<close> to connect candidates,
  the private-address screening of direct targets, the \<open>OutboundRouter\<close> interface and the
  \<open>DirectRouter\<close>.

  The DNS cache is an external crate.  It is a parameter \<open>resolve\<close> of the definitions that use it:
  a function from the state of the outside world (the cache and the name servers behind it), a host
  and a port to an answer and the next state.  Passing the state makes rebinding expressible: the
  same name may be answered differently at every call.

  The interface \<open>OutboundRouter\<close> is the locale \<open>screening_router\<close>: what a router that blocks
  private targets promises about the direct connections it allows.  \<open>DirectRouter\<close> is interpreted
  here, \<open>AclRouter\<close> in \<open>Acl\<close>.
\<close>

section \<open>The resolver and its errors\<close>

text \<open>The duration of a timeout is kept as its \<open>Debug\<close> form.\<close>

datatype dns_error =
    DnsNotFound string | DnsTimeout string | DnsInvalidHost string | DnsOther string

type_synonym 'd resolver = "'d \<Rightarrow> string \<Rightarrow> u16 \<Rightarrow> (dns_error + socket_addr list) \<times> 'd"

fun dns_error_to_io :: "dns_error \<Rightarrow> io_error" where
  "dns_error_to_io (DnsNotFound host) = Io_Error NotFound (''no addresses found for '' @ host)"
| "dns_error_to_io (DnsTimeout d) = Io_Error TimedOut (''DNS query timeout after '' @ d)"
| "dns_error_to_io (DnsInvalidHost h) = Io_Error InvalidInput (''invalid host: '' @ h)"
| "dns_error_to_io (DnsOther e) = Io_Error OtherKind e"

text \<open>
  The documented behaviour of the resolver that the direct path relies on: a successful answer
  is not empty, and an IP literal is answered with itself.
\<close>

definition resolver_answers :: "'d resolver \<Rightarrow> bool" where
  "resolver_answers resolve \<longleftrightarrow> (\<forall>d host port. fst (resolve d host port) \<noteq> Inr [])"

definition resolver_literals :: "'d resolver \<Rightarrow> bool" where
  "resolver_literals resolve \<longleftrightarrow>
     (\<forall>d host port ip sas. parse_ip host = Some ip \<longrightarrow> fst (resolve d host port) = Inr sas \<longrightarrow>
        (\<forall>sa \<in> set sas. sa_ip sa = ip))"

section \<open>Resolved addresses\<close>

record resolved_addrs =
  ra_v4 :: "bytes option"
  ra_v6 :: "bytes option"
  ra_port :: u16
  ra_v6_first :: bool

definition candidates :: "resolved_addrs \<Rightarrow> socket_addr list" where
  "candidates r =
     (let v4 = map_option (\<lambda>ip. \<lparr>sa_ip = V4 ip, sa_port = ra_port r\<rparr>) (ra_v4 r);
          v6 = map_option (\<lambda>ip. \<lparr>sa_ip = V6 ip, sa_port = ra_port r\<rparr>) (ra_v6 r);
          (first, second) = (if ra_v6_first r then (v6, v4) else (v4, v6))
      in (case first of Some x \<Rightarrow> [x] | None \<Rightarrow> []) @ (case second of Some x \<Rightarrow> [x] | None \<Rightarrow> []))"

definition get_or_insert :: "'a option \<Rightarrow> 'a \<Rightarrow> 'a option" where
  "get_or_insert slot x = (case slot of None \<Rightarrow> Some x | Some y \<Rightarrow> Some y)"

fun collect_step :: "ip_addr \<Rightarrow> resolved_addrs \<Rightarrow> resolved_addrs" where
  "collect_step (V4 v4) out = out\<lparr>ra_v4 := get_or_insert (ra_v4 out) v4\<rparr>"
| "collect_step (V6 v6) out =
     (let out = (if ra_v4 out = None \<and> ra_v6 out = None then out\<lparr>ra_v6_first := True\<rparr> else out)
      in out\<lparr>ra_v6 := get_or_insert (ra_v6 out) v6\<rparr>)"

definition collect :: "u16 \<Rightarrow> ip_addr list \<Rightarrow> resolved_addrs option" where
  "collect port ips =
     (let out = fold collect_step ips \<lparr>ra_v4 = None, ra_v6 = None, ra_port = port, ra_v6_first = False\<rparr>
      in if ra_v4 out \<noteq> None \<or> ra_v6 out \<noteq> None then Some out else None)"

text \<open>\<open>socket_addr\<close> panics, here \<open>None\<close>, when there is no candidate.\<close>

definition ra_socket_addr :: "resolved_addrs \<Rightarrow> socket_addr option" where
  "ra_socket_addr r = (case candidates r of sa # _ \<Rightarrow> Some sa | [] \<Rightarrow> None)"

section \<open>Resolution and screening\<close>

fun resolve_addrs :: "'d resolver \<Rightarrow> 'd \<Rightarrow> address \<Rightarrow> resolved_addrs io_result \<times> 'd" where
  "resolve_addrs resolve d (IPv4 ip port) =
     (Inr \<lparr>ra_v4 = Some ip, ra_v6 = None, ra_port = port, ra_v6_first = False\<rparr>, d)"
| "resolve_addrs resolve d (IPv6 ip port) =
     (Inr \<lparr>ra_v4 = None, ra_v6 = Some ip, ra_port = port, ra_v6_first = True\<rparr>, d)"
| "resolve_addrs resolve d (Domain host port) =
     (case resolve d host port of
        (Inl e, d') \<Rightarrow> (Inl (dns_error_to_io e), d')
      | (Inr it, d') \<Rightarrow>
          (case collect port (map sa_ip it) of
             Some r \<Rightarrow> (Inr r, d')
           | None \<Rightarrow> (Inl (Io_Error NotFound (''no addresses found for '' @ host)), d')))"

text \<open>Whether the target is private, and the addresses found on the way.\<close>

fun check_private_and_resolve ::
    "'d resolver \<Rightarrow> 'd \<Rightarrow> address \<Rightarrow> (bool \<times> resolved_addrs option) \<times> 'd" where
  "check_private_and_resolve resolve d (IPv4 ip _) = ((is_private_ip (V4 ip), None), d)"
| "check_private_and_resolve resolve d (IPv6 ip _) = ((is_private_ip (V6 ip), None), d)"
| "check_private_and_resolve resolve d (Domain host port) =
     (case parse_ip host of
        Some ip \<Rightarrow> ((is_private_ip ip, None), d)
      | None \<Rightarrow>
          (case resolve d host port of
             (Inl _, d') \<Rightarrow> ((True, None), d')
           | (Inr it, d') \<Rightarrow>
               let ips = map sa_ip it in
               if list_ex is_private_ip ips then ((True, None), d')
               else ((False, collect port ips), d')))"

datatype direct_target = Blocked | Allow "resolved_addrs option"

definition screen_direct_target :: "'d resolver \<Rightarrow> 'd \<Rightarrow> address \<Rightarrow> bool \<Rightarrow> direct_target \<times> 'd" where
  "screen_direct_target resolve d addr block_private_ip =
     (if block_private_ip then
        (case check_private_and_resolve resolve d addr of
           ((is_private, resolved), d') \<Rightarrow>
             if is_private then (Blocked, d') else (Allow resolved, d'))
      else
        (case addr of
           Domain _ _ \<Rightarrow>
             (case resolve_addrs resolve d addr of
                (Inl _, d') \<Rightarrow> (Allow None, d')
              | (Inr r, d') \<Rightarrow> (Allow (Some r), d'))
         | _ \<Rightarrow> (Allow None, d)))"

section \<open>Routers\<close>

text \<open>The outbound handlers of the routing library are the type parameter \<open>'h\<close>.\<close>

datatype 'h outbound_type =
    Direct "resolved_addrs option" "'h option"
  | Reject
  | Proxy 'h "ip_addr option"

record direct_router =
  dr_block_private_ip :: bool

definition direct_route :: "'d resolver \<Rightarrow> direct_router \<Rightarrow> 'd \<Rightarrow> address \<Rightarrow> 'h outbound_type \<times> 'd" where
  "direct_route resolve self d addr =
     (case screen_direct_target resolve d addr (dr_block_private_ip self) of
        (Blocked, d') \<Rightarrow> (Reject, d')
      | (Allow resolved, d') \<Rightarrow> (Direct resolved None, d'))"

text \<open>The default \<open>OutboundRouter::route_udp\<close>, which \<open>DirectRouter\<close> keeps.\<close>

definition direct_route_udp :: "'d resolver \<Rightarrow> direct_router \<Rightarrow> 'd \<Rightarrow> address \<Rightarrow> 'h outbound_type \<times> 'd" where
  "direct_route_udp resolve self d addr = direct_route resolve self d addr"

section \<open>Lemmas on resolved addresses\<close>

fun is_v4 :: "ip_addr \<Rightarrow> bool" where
  "is_v4 (V4 _) = True"
| "is_v4 (V6 _) = False"

lemma collect_step_port [simp]: "ra_port (collect_step ip r) = ra_port r"
  by (cases ip) (simp_all add: Let_def)

lemma get_or_insert_simps [simp]:
  "get_or_insert None x = Some x" "get_or_insert (Some y) x = Some y"
  by (simp_all add: get_or_insert_def)

text \<open>Once a family is present its slot and the order are fixed.\<close>

lemma fold_collect_set:
  "ra_v4 r \<noteq> None \<or> ra_v6 r \<noteq> None \<Longrightarrow>
   fold collect_step ips r =
     r\<lparr>ra_v4 := (case ra_v4 r of Some x \<Rightarrow> Some x | None \<Rightarrow> map_option v4_octets (find is_v4 ips)),
       ra_v6 := (case ra_v6 r of Some x \<Rightarrow> Some x | None \<Rightarrow> map_option v6_octets (find (\<lambda>ip. \<not> is_v4 ip) ips))\<rparr>"
proof (induction ips arbitrary: r)
  case Nil
  then show ?case by (cases r) (auto split: option.split)
next
  case (Cons ip ips)
  have "ra_v4 (collect_step ip r) \<noteq> None \<or> ra_v6 (collect_step ip r) \<noteq> None"
    by (cases ip) (auto simp: get_or_insert_def split: option.split)
  from Cons.IH [OF this] Cons.prems show ?case
    by (cases ip) (auto simp: Let_def split: option.split)
qed

text \<open>The specification of \<open>collect\<close>: the head of the list, then the first of the other family.\<close>

definition preferred :: "ip_addr list \<Rightarrow> ip_addr list" where
  "preferred ips =
     (case ips of
        [] \<Rightarrow> []
      | ip # rest \<Rightarrow> ip # (case find (\<lambda>x. is_v4 x \<noteq> is_v4 ip) rest of Some x \<Rightarrow> [x] | None \<Rightarrow> []))"

lemma find_v4_octets: "find is_v4 ips = Some x \<Longrightarrow> V4 (v4_octets x) = x"
  by (induction ips) (auto split: if_splits elim: is_v4.elims)

lemma find_v6_octets: "find (\<lambda>x. \<not> is_v4 x) ips = Some x \<Longrightarrow> V6 (v6_octets x) = x"
  by (induction ips) (auto split: if_splits elim: is_v4.elims)

lemma collect_spec:
  "case collect port ips of
     None \<Rightarrow> ips = []
   | Some r \<Rightarrow> ips \<noteq> [] \<and> candidates r = map (\<lambda>ip. \<lparr>sa_ip = ip, sa_port = port\<rparr>) (preferred ips)"
proof (cases ips)
  case (Cons ip rest)
  show ?thesis
    by (cases ip)
       (auto simp: Cons collect_def Let_def fold_collect_set preferred_def candidates_def
             dest: find_v4_octets find_v6_octets split: option.split)
qed (simp add: collect_def)

lemma find_Some_set: "find P xs = Some x \<Longrightarrow> x \<in> set xs"
  by (auto simp: find_Some_iff)

lemma preferred_subset: "set (preferred ips) \<subseteq> set ips"
  by (auto simp: preferred_def dest!: find_Some_set [OF sym] split: list.splits option.split_asm)

lemma preferred_nonempty: "ips \<noteq> [] \<Longrightarrow> preferred ips \<noteq> []"
  by (cases ips) (simp_all add: preferred_def)

lemma collect_SomeD:
  assumes "collect port ips = Some r"
  shows "candidates r \<noteq> []" and "sa \<in> set (candidates r) \<Longrightarrow> sa_ip sa \<in> set ips \<and> sa_port sa = port"
  using collect_spec [where port = port and ips = ips] assms preferred_subset [of ips] preferred_nonempty [of ips] by auto

lemma collect_eq_None [simp]: "collect port ips = None \<longleftrightarrow> ips = []"
  using collect_spec [where port = port and ips = ips] by (auto simp: collect_def)

section \<open>The contract of a screening router\<close>

text \<open>An address list that may be connected to: every address is public, or the operator's own.\<close>

definition ra_allowed :: "ip_addr set \<Rightarrow> u16 \<Rightarrow> resolved_addrs \<Rightarrow> bool" where
  "ra_allowed trusted port r \<longleftrightarrow>
     candidates r \<noteq> [] \<and>
     (\<forall>sa \<in> set (candidates r). sa_port sa = port \<and> (\<not> is_private_ip (sa_ip sa) \<or> sa_ip sa \<in> trusted))"

text \<open>
  The addresses the direct outbound may end up connecting to when it is handed \<open>resolved\<close>: the
  given ones, or those of a fresh resolution, whose answer may differ from the router's.
\<close>

definition direct_candidates ::
    "'d resolver \<Rightarrow> 'd \<Rightarrow> address \<Rightarrow> resolved_addrs option \<Rightarrow> socket_addr list" where
  "direct_candidates resolve d addr resolved =
     (case resolved of
        Some r \<Rightarrow> candidates r
      | None \<Rightarrow> (case fst (resolve_addrs resolve d addr) of Inl _ \<Rightarrow> [] | Inr r \<Rightarrow> candidates r))"

locale screening_router =
  fixes route :: "'d \<Rightarrow> address \<Rightarrow> 'h outbound_type \<times> 'd"
    and resolve :: "'d resolver"
    and trusted :: "ip_addr set"
  assumes resolved_allowed:
      "route d a = (Direct (Some r) h, d') \<Longrightarrow> ra_allowed trusted (address_port a) r"
    and unresolved_literal:
      "route d a = (Direct None h, d') \<Longrightarrow>
         (\<exists>ip. literal_ip a = Some ip \<and> \<not> is_private_ip ip) \<or>
         (\<exists>host port. a = Domain host port \<and> fst (resolve d host port) = Inr [])"
begin

text \<open>
  Whatever the name servers answer later, a direct connection that the router allowed never goes
  to a private address that the operator did not configure.
\<close>

lemma direct_never_private:
  assumes "resolver_answers resolve" and "resolver_literals resolve"
    and r: "fst (route d a) = Direct resolved h"
    and sa: "sa \<in> set (direct_candidates resolve later a resolved)"
  shows "\<not> is_private_ip (sa_ip sa) \<or> sa_ip sa \<in> trusted"
proof (cases resolved)
  case (Some ra)
  then show ?thesis
    using r sa resolved_allowed [of d a ra h "snd (route d a)"]
    by (auto simp: direct_candidates_def ra_allowed_def prod_eq_iff)
next
  case None
  then have "(\<exists>ip. literal_ip a = Some ip \<and> \<not> is_private_ip ip) \<or>
    (\<exists>host port. a = Domain host port \<and> fst (resolve d host port) = Inr [])"
    using r unresolved_literal [of d a h "snd (route d a)"] by (simp add: prod_eq_iff)
  then obtain ip where ip: "literal_ip a = Some ip" "\<not> is_private_ip ip"
    using assms(1) by (auto simp: resolver_answers_def)
  show ?thesis
  proof (cases a)
    case (Domain host port)
    then have "parse_ip host = Some ip" using ip by simp
    with sa None Domain obtain sas ra where
      "fst (resolve later host port) = Inr sas" "collect port (map sa_ip sas) = Some ra"
      "sa \<in> set (candidates ra)"
      by (auto simp: direct_candidates_def split: sum.splits option.splits prod.splits)
    then have "sa_ip sa = ip"
      using assms(2) \<open>parse_ip host = Some ip\<close> collect_SomeD(2) [of port "map sa_ip sas" ra sa]
      by (auto simp: resolver_literals_def)
    then show ?thesis using ip by simp
  qed (use sa None ip in \<open>auto simp: direct_candidates_def candidates_def\<close>)
qed

end

text \<open>The two laws, for everything that goes through \<open>screen_direct_target\<close>.\<close>

lemma screen_Allow_Some:
  assumes "screen_direct_target resolve d a True = (Allow (Some r), d')"
  shows "ra_allowed {} (address_port a) r"
proof (cases a)
  case (Domain host port)
  with assms obtain sas :: "socket_addr list" where
    "\<not> list_ex is_private_ip (map sa_ip sas)" "collect port (map sa_ip sas) = Some r"
    by (auto simp: screen_direct_target_def Let_def
        split: prod.splits option.splits sum.splits if_splits)
  then show ?thesis
    using collect_SomeD [of port "map sa_ip sas" r] Domain
    by (fastforce simp: ra_allowed_def list_ex_iff)
qed (use assms in \<open>auto simp: screen_direct_target_def split: if_splits\<close>)

lemma screen_Allow_None:
  assumes "screen_direct_target resolve d a True = (Allow None, d')"
  shows "(\<exists>ip. literal_ip a = Some ip \<and> \<not> is_private_ip ip) \<or>
         (\<exists>host port. a = Domain host port \<and> fst (resolve d host port) = Inr [])"
  using assms
  by (cases a)
     (auto simp: screen_direct_target_def Let_def
        split: prod.splits option.splits sum.splits if_splits)

interpretation dr: screening_router "direct_route resolve \<lparr>dr_block_private_ip = True\<rparr>" resolve "{}"
  for resolve :: "'d resolver"
  by unfold_locales
     (auto simp: direct_route_def intro: screen_Allow_Some dest!: screen_Allow_None
        split: prod.splits direct_target.splits)

section \<open>Properties\<close>

text \<open>
  \<open>ResolvedAddrs::collect\<close> keeps the resolver's preference: the first candidate is the first
  address of the answer, the second (if any) is the first address of the other family, and the
  ports are the requested one.  It fails only for an empty answer, so \<open>socket_addr\<close> never panics on
  a collected value.
\<close>

lemma collect_preference:
  "(case collect port ips of
      None \<Rightarrow> ips = []
    | Some r \<Rightarrow> ips \<noteq> [] \<and>
        candidates r = map (\<lambda>ip. \<lparr>sa_ip = ip, sa_port = port\<rparr>) (preferred ips) \<and>
        ra_socket_addr r = Some \<lparr>sa_ip = hd ips, sa_port = port\<rparr>)"
  using collect_spec [where port = port and ips = ips]
  by (auto simp: ra_socket_addr_def preferred_def split: option.split list.splits)

text \<open>
  C1: With \<open>block_private_ip\<close>, a direct connection allowed by \<open>DirectRouter\<close> never reaches a
  private address, even when the domain is resolved again later and the name servers have changed
  their answer (DNS rebinding), provided the resolver answers non-empty lists and answers an IP
  literal with itself.
\<close>

theorem direct_router_ssrf_safe:
  assumes "resolver_answers resolve" and "resolver_literals resolve"
    and "fst (direct_route resolve \<lparr>dr_block_private_ip = True\<rparr> d a) = Direct resolved h"
    and "sa \<in> set (direct_candidates resolve later a resolved)"
  shows "\<not> is_private_ip (sa_ip sa)"
  using dr.direct_never_private [OF assms] by simp

text \<open>A rebinding resolver: public at the first lookup, loopback ever after.\<close>

definition rebinding_resolver :: "nat resolver" where
  "rebinding_resolver n host port =
     (case parse_ip host of
        Some ip \<Rightarrow> (Inr [\<lparr>sa_ip = ip, sa_port = port\<rparr>], n)
      | None \<Rightarrow>
          (Inr [\<lparr>sa_ip = (if n = 0 then V4 [93, 184, 216, 34] else V4 [127, 0, 0, 1]), sa_port = port\<rparr>],
           Suc n))"

lemma rebinding_resolver_contract:
  "resolver_answers rebinding_resolver" "resolver_literals rebinding_resolver"
  by (auto simp: resolver_answers_def resolver_literals_def rebinding_resolver_def split: option.split)

theorem direct_router_ssrf_safe_witness:
  "\<exists>resolved. fst (direct_route rebinding_resolver \<lparr>dr_block_private_ip = True\<rparr> 0 (Domain ''evil.org'' 80))
       = (Direct resolved None :: nat outbound_type) \<and>
     direct_candidates rebinding_resolver 1 (Domain ''evil.org'' 80) resolved \<noteq> [] \<and>
     \<not> is_private_ip (sa_ip (hd (direct_candidates rebinding_resolver 1 (Domain ''evil.org'' 80) resolved)))"
proof -
  let ?r = "Some \<lparr>ra_v4 = Some [93, 184, 216, 34], ra_v6 = None, ra_port = 80, ra_v6_first = False\<rparr>"
  have p: "parse_ip ''evil.org'' = None" by (simp add: parse_ip_eval)
  have "\<not> is_private_ip (V4 [93, 184, 216, 34])" by code_simp
  with p have r: "fst (direct_route rebinding_resolver \<lparr>dr_block_private_ip = True\<rparr> 0 (Domain ''evil.org'' 80))
       = (Direct ?r None :: nat outbound_type)"
    by (simp add: direct_route_def screen_direct_target_def rebinding_resolver_def collect_def Let_def)
  have c: "direct_candidates rebinding_resolver 1 (Domain ''evil.org'' 80) ?r \<noteq> []"
    by (simp add: direct_candidates_def candidates_def)
  show ?thesis
    using r c direct_router_ssrf_safe [OF rebinding_resolver_contract r hd_in_set [OF c]] by blast
qed

text \<open>
  Under \<open>block_private_ip\<close> screening fails closed on a resolver error, and one private
  address among the answers is enough to block the target; without it, every target is allowed.
\<close>

lemma screening_fails_closed:
  "(parse_ip host = None \<longrightarrow> fst (resolve d host port) = Inl e \<longrightarrow>
      fst (screen_direct_target resolve d (Domain host port) True) = Blocked) \<and>
   (parse_ip host = None \<longrightarrow> fst (resolve d host port) = Inr sas \<longrightarrow>
      (\<exists>sa \<in> set sas. is_private_ip (sa_ip sa)) \<longrightarrow>
      fst (screen_direct_target resolve d (Domain host port) True) = Blocked) \<and>
   (\<forall>ip. literal_ip a = Some ip \<longrightarrow>
      screen_direct_target resolve d a True = ((if is_private_ip ip then Blocked else Allow None), d)) \<and>
   fst (screen_direct_target resolve d a False) \<noteq> Blocked"
  by (cases a)
     (auto simp: screen_direct_target_def Let_def list_ex_iff split: prod.splits sum.splits option.splits)



end
