(* ===== verification/Config_Auto.thy ===== *)
theory Config_Auto
  imports Net_Addr
begin

text \<open>
  \<open>src/src/config_auto.rs\<close>: the connection limit, given by the operator or derived from the
  resources of the host.

  The quantities are \<open>u64\<close> words; the saturating operations of Rust are written out on them.  The
  host queries (\<open>available_parallelism\<close>, \<open>sysconf\<close>, \<open>getrlimit\<close>) are arguments.
\<close>

section \<open>Saturating arithmetic\<close>

definition U64_MAX :: nat where "U64_MAX = 2 ^ 64 - 1"

definition saturating_mul :: "u64 \<Rightarrow> u64 \<Rightarrow> u64" where
  "saturating_mul a b = of_nat (min (unat a * unat b) U64_MAX)"

definition saturating_sub :: "u64 \<Rightarrow> u64 \<Rightarrow> u64" where
  "saturating_sub a b = (if b \<le> a then a - b else 0)"

section \<open>The specification of the limit\<close>

datatype max_connections = Auto | Fixed u64

text \<open>\<open>str::eq_ignore_ascii_case\<close> and \<open>str::parse::<usize>()\<close>.\<close>

definition to_ascii_lowercase :: "char \<Rightarrow> char" where
  "to_ascii_lowercase c =
     (let n = of_char c :: nat in if 65 \<le> n \<and> n \<le> 90 then char_of (n + 32) else c)"

definition eq_ignore_ascii_case :: "string \<Rightarrow> string \<Rightarrow> bool" where
  "eq_ignore_ascii_case a b \<longleftrightarrow> map to_ascii_lowercase a = map to_ascii_lowercase b"

definition parse_usize :: "string \<Rightarrow> u64 option" where
  "parse_usize s =
     (let ds = (case s of c # r \<Rightarrow> (if c = CHR ''+'' then r else s) | [] \<Rightarrow> s) in
      if ds = [] then None
      else if \<not> list_all (\<lambda>c. to_digit 10 c \<noteq> None) ds then None
      else let v = digits_value 10 0 ds in if v \<le> U64_MAX then Some (of_nat v) else None)"

definition max_connections_from_str :: "string \<Rightarrow> string + max_connections" where
  "max_connections_from_str s =
     (if eq_ignore_ascii_case s ''auto'' then Inr Auto
      else
        (case parse_usize s of
           None \<Rightarrow>
             Inl (''Invalid max_connections '' @ quoted s @ ''. Use '' @ quoted ''auto'' @ '' or a positive integer'')
         | Some n \<Rightarrow>
             if n = 0 then
               Inl (''Invalid max_connections '' @ quoted s @ ''. Must be '' @ quoted ''auto''
                      @ '' or a positive integer (>= 1)'')
             else Inr (Fixed n)))"

section \<open>The derived limit\<close>

definition PER_CORE_MBPS :: u64 where "PER_CORE_MBPS = 1500"
definition PER_USER_KBPS :: u64 where "PER_USER_KBPS = 200"
definition PER_SESSION_KB :: u64 where "PER_SESSION_KB = 200"
definition MEM_BUDGET_PCT :: u64 where "MEM_BUDGET_PCT = 50"
definition FD_RESERVE_DEFAULT :: u64 where "FD_RESERVE_DEFAULT = 1024"
definition FD_PER_SESSION :: u64 where "FD_PER_SESSION = 2"

lemmas limit_consts = PER_CORE_MBPS_def PER_USER_KBPS_def PER_SESSION_KB_def MEM_BUDGET_PCT_def
  FD_RESERVE_DEFAULT_def FD_PER_SESSION_def

datatype limit = LCpu | LMemory | LFileDescriptors

fun limit_as_str :: "limit \<Rightarrow> string" where
  "limit_as_str LCpu = ''cpu''"
| "limit_as_str LMemory = ''memory''"
| "limit_as_str LFileDescriptors = ''fd''"

record auto_breakdown =
  ab_value :: u64
  ab_cpu_cap :: u64
  ab_mem_cap :: u64
  ab_fd_cap :: u64
  ab_limiting :: limit

definition compute_auto :: "u64 \<Rightarrow> u64 \<Rightarrow> u64 \<Rightarrow> auto_breakdown" where
  "compute_auto cpus total_mem_kb nofile_soft =
     (let cpus = max cpus 1;
          cpu_cap = saturating_mul (saturating_mul cpus PER_CORE_MBPS) 1000 div PER_USER_KBPS;
          mem_cap = saturating_mul total_mem_kb MEM_BUDGET_PCT div 100 div PER_SESSION_KB;
          fd_reserve = min FD_RESERVE_DEFAULT (nofile_soft div 4);
          fd_cap = saturating_sub nofile_soft fd_reserve div FD_PER_SESSION;
          raw = min (min cpu_cap mem_cap) fd_cap;
          value = max raw 1;
          limiting =
            (if cpu_cap \<le> mem_cap \<and> cpu_cap \<le> fd_cap then LCpu
             else if mem_cap \<le> fd_cap then LMemory
             else LFileDescriptors)
      in \<lparr>ab_value = value, ab_cpu_cap = cpu_cap, ab_mem_cap = mem_cap, ab_fd_cap = fd_cap,
          ab_limiting = limiting\<rparr>)"

definition fixed_exceeds_auto_cap :: "u64 \<Rightarrow> auto_breakdown \<Rightarrow> bool" where
  "fixed_exceeds_auto_cap value bd \<longleftrightarrow>
     value > ab_cpu_cap bd \<or> value > ab_mem_cap bd \<or> value > ab_fd_cap bd"

datatype resolve_mode = MAuto | MFixed

record resolved_max_connections =
  rm_value :: u64
  rm_mode :: resolve_mode
  rm_breakdown :: auto_breakdown
  rm_cpus :: u64
  rm_total_mem_kb :: u64
  rm_nofile_soft :: u64

text \<open>The memory of a Linux host from \<open>_SC_PHYS_PAGES\<close> and \<open>_SC_PAGESIZE\<close>, signed \<open>long\<close>s.\<close>

definition total_memory_kb :: "int \<Rightarrow> int \<Rightarrow> u64 option" where
  "total_memory_kb pages page_size =
     (if pages > 0 \<and> page_size > 0
      then Some (saturating_mul (of_int pages) (of_int page_size) div 1024) else None)"

text \<open>\<open>getrlimit\<close> returns a status and fills in the soft limit.\<close>

definition nofile_soft_limit :: "int \<times> u64 \<Rightarrow> u64 option" where
  "nofile_soft_limit q = (case q of (ret, rlim_cur) \<Rightarrow> if ret = 0 then Some rlim_cur else None)"

record host_info =
  hi_parallelism :: "u64 option"
  hi_pages :: int
  hi_page_size :: int
  hi_rlimit :: "int \<times> u64"

definition unwrap_or :: "'a option \<Rightarrow> 'a \<Rightarrow> 'a" where
  "unwrap_or x d = (case x of Some y \<Rightarrow> y | None \<Rightarrow> d)"

definition resolve_limit :: "host_info \<Rightarrow> max_connections \<Rightarrow> resolved_max_connections" where
  "resolve_limit host spec =
     (let cpus = unwrap_or (hi_parallelism host) 1;
          total_mem_kb = unwrap_or (total_memory_kb (hi_pages host) (hi_page_size host)) (4 * 1024 * 1024);
          nofile_soft = unwrap_or (nofile_soft_limit (hi_rlimit host)) 65536;
          breakdown = compute_auto cpus total_mem_kb nofile_soft;
          (value, mode) = (case spec of
             Fixed n \<Rightarrow> (n, MFixed)
           | Auto \<Rightarrow> (ab_value breakdown, MAuto))
      in \<lparr>rm_value = value, rm_mode = mode, rm_breakdown = breakdown, rm_cpus = cpus,
          rm_total_mem_kb = total_mem_kb, rm_nofile_soft = nofile_soft\<rparr>)"

section \<open>Lemmas\<close>

lemma unat_saturating_mul: "unat (saturating_mul a b) = min (unat a * unat b) U64_MAX"
  by (simp add: saturating_mul_def U64_MAX_def unat_of_nat)

lemma unat_saturating_sub: "unat (saturating_sub a b) = unat a - unat b"
  by (simp add: saturating_sub_def unat_sub_if' word_le_nat_alt)

lemma unat_max_u64: "unat (max a b :: u64) = max (unat a) (unat b)"
  by (simp add: max_def word_le_nat_alt)

lemma unat_min_u64: "unat (min a b :: u64) = min (unat a) (unat b)"
  by (simp add: min_def word_le_nat_alt)

lemmas unat_limits = unat_saturating_mul unat_saturating_sub unat_max_u64 unat_min_u64 unat_div limit_consts

text \<open>
  \<open>compute_auto\<close> is the documented formula on unbounded numbers, with the products capped at
  \<open>u64::MAX\<close>: the value is the least of the three caps, and at least one, so it is always a valid
  semaphore size; the limit reported as binding is one that attains the minimum.
\<close>

lemma compute_auto_formula:
  "let bd = compute_auto cpus mem nofile;
       cpu = min (min (max (unat cpus) 1 * 1500) U64_MAX * 1000) U64_MAX div 200;
       m = min (unat mem * 50) U64_MAX div 100 div 200;
       fd = (unat nofile - min 1024 (unat nofile div 4)) div 2
   in unat (ab_cpu_cap bd) = cpu \<and> unat (ab_mem_cap bd) = m \<and> unat (ab_fd_cap bd) = fd \<and>
      unat (ab_value bd) = max 1 (min cpu (min m fd)) \<and>
      min cpu (min m fd) = (case ab_limiting bd of LCpu \<Rightarrow> cpu | LMemory \<Rightarrow> m | LFileDescriptors \<Rightarrow> fd)"
proof -
  define cpu m fd where caps:
    "cpu = saturating_mul (saturating_mul (max cpus 1) PER_CORE_MBPS) 1000 div PER_USER_KBPS"
    "m = saturating_mul mem MEM_BUDGET_PCT div 100 div PER_SESSION_KB"
    "fd = saturating_sub nofile (min FD_RESERVE_DEFAULT (nofile div 4)) div FD_PER_SESSION"
  have u: "unat cpu = min (min (max (unat cpus) 1 * 1500) U64_MAX * 1000) U64_MAX div 200"
    "unat m = min (unat mem * 50) U64_MAX div 100 div 200"
    "unat fd = (unat nofile - min 1024 (unat nofile div 4)) div 2"
    by (simp_all add: caps unat_limits)
  show ?thesis
    unfolding compute_auto_def Let_def caps [symmetric] u [symmetric]
    by (auto simp: unat_max_u64 unat_min_u64 word_le_nat_alt)
qed

text \<open>
  Whatever the operator writes and whatever the host reports, the connection limit is at
  least one: the parser rejects zero and anything that is not \<open>auto\<close> or a number that fits, and
  the automatic mode never derives zero.
\<close>

lemma limit_positive:
  "(case max_connections_from_str s of
      Inl e \<Rightarrow> \<not> eq_ignore_ascii_case s ''auto'' \<and> (parse_usize s = None \<or> parse_usize s = Some 0)
    | Inr spec \<Rightarrow> 1 \<le> rm_value (resolve_limit host spec) \<and>
        (spec = Auto \<longleftrightarrow> rm_mode (resolve_limit host spec) = MAuto))"
proof -
  have pos: "1 \<le> ab_value (compute_auto a b c)" for a b c
    by (simp add: compute_auto_def Let_def)
  have ge: "n \<noteq> 0 \<Longrightarrow> 1 \<le> n" for n :: u64 by (simp add: word_le_nat_alt word_unat_eq_iff)
  show ?thesis
    using pos ge
    by (auto simp: max_connections_from_str_def resolve_limit_def Let_def split: option.splits)
qed

text \<open>
  The warning for a fixed limit is raised exactly when the value exceeds the smallest of the
  three caps; the automatic value itself never raises it, except when a cap is zero and the value
  was lifted to one.
\<close>

lemma fixed_warning_exact:
  "(fixed_exceeds_auto_cap v bd \<longleftrightarrow>
      min (unat (ab_cpu_cap bd)) (min (unat (ab_mem_cap bd)) (unat (ab_fd_cap bd))) < unat v) \<and>
   (let auto_bd = compute_auto a b c in
      fixed_exceeds_auto_cap (ab_value auto_bd) auto_bd \<longleftrightarrow>
        ab_cpu_cap auto_bd = 0 \<or> ab_mem_cap auto_bd = 0 \<or> ab_fd_cap auto_bd = 0)"
proof -
  have w: "x < max (min (min x y) z) 1 \<or> y < max (min (min x y) z) 1 \<or> z < max (min (min x y) z) 1 \<longleftrightarrow>
      x = 0 \<or> y = 0 \<or> z = 0" for x y z :: u64
    unfolding word_less_nat_alt word_unat_eq_iff unat_max_u64 unat_min_u64 by auto
  have "fixed_exceeds_auto_cap v bd \<longleftrightarrow>
      min (unat (ab_cpu_cap bd)) (min (unat (ab_mem_cap bd)) (unat (ab_fd_cap bd))) < unat v"
    by (simp add: fixed_exceeds_auto_cap_def word_less_nat_alt min_less_iff_disj)
  then show ?thesis by (simp add: fixed_exceeds_auto_cap_def [of "ab_value _"] compute_auto_def Let_def w)
qed

end
