(* ===== verification/Acl.thy ===== *)
theory Acl
  imports Dns Config_Auto "HOL-Library.AList"
begin

text \<open>
  \<open>src/src/acl.rs\<close>: the routing rules.  Outbound handlers built from the configuration file, the
  rule engine, and \<open>AclRouter\<close>, which decides for every target whether it goes out directly, through
  a proxy, or is rejected.

  The rule language belongs to the crate \<open>acl_engine_rs\<close>: its parser, compiler and matcher are
  parameters, and so are the socket calls with which bindings are tested at start-up (\<open>acl_env\<close>).
  An outbound object of that crate is represented by the data it was built from.  An \<open>Arc\<close> of a
  handler carries an identity, since the UDP relay compares handlers by pointer.

  \<open>AclRouter\<close> with \<open>block_private_ip\<close> is an instance of the contract \<open>screening_router\<close> of \<open>Dns\<close>.
\<close>

section \<open>Configuration\<close>

record socks5_config =
  s5_addr :: string
  s5_username :: "string option"
  s5_password :: "string option"
  s5_allow_udp :: bool

record http_config =
  hc_addr :: string
  hc_username :: "string option"
  hc_password :: "string option"
  hc_https :: bool

record direct_config =
  dc_mode :: string
  dc_bind_ipv4 :: "string option"
  dc_bind_ipv6 :: "string option"
  dc_bind_device :: "string option"
  dc_fast_open :: bool
  dc_tcp_nodelay :: bool
  dc_tcp_keepalive_secs :: nat

definition direct_config_default :: direct_config where
  "direct_config_default =
     \<lparr>dc_mode = ''auto'', dc_bind_ipv4 = None, dc_bind_ipv6 = None, dc_bind_device = None,
      dc_fast_open = False, dc_tcp_nodelay = True, dc_tcp_keepalive_secs = 60\<rparr>"

record outbound_entry =
  oe_name :: string
  oe_type :: string
  oe_socks5 :: "socks5_config option"
  oe_http :: "http_config option"
  oe_direct :: "direct_config option"

record acl_config =
  ac_outbounds :: "outbound_entry list"
  ac_inline :: "string list"

section \<open>Outbound handlers\<close>

datatype direct_mode = DAuto | Only4 | Only6 | Prefer46 | Prefer64

record direct_options =
  do_mode :: direct_mode
  do_bind_ip4 :: "bytes option"
  do_bind_ip6 :: "bytes option"
  do_bind_device :: "string option"
  do_fast_open :: bool
  do_tcp_nodelay :: bool
  do_tcp_keepalive :: "nat option"

text \<open>The objects of the library, by how they were built.\<close>

datatype direct_outbound = Direct_New | Direct_With direct_options
datatype socks5_outbound = Socks5_New string | Socks5_Auth string string string
datatype http_outbound = Http_New string | Http_Tls string | Http_Auth http_outbound string string

datatype outbound_handler =
    HDirect direct_outbound
  | HSocks5 socks5_outbound bool
  | HHttp http_outbound
  | HReject

text \<open>An \<open>Arc<OutboundHandler>\<close>: the identity of the allocation and its contents.\<close>

type_synonym handler_ref = "nat \<times> outbound_handler"

fun handler_debug :: "outbound_handler \<Rightarrow> string" where
  "handler_debug (HDirect _) = ''Direct''"
| "handler_debug (HSocks5 _ allow_udp) = ''Socks5(udp='' @ (if allow_udp then ''true'' else ''false'') @ '')''"
| "handler_debug (HHttp _) = ''Http''"
| "handler_debug HReject = ''Reject''"

text \<open>The calls of \<open>socket2\<close> and of the outbound constructors; \<open>Some\<close> is the error text.\<close>

record acl_env =
  env_socket_v4 :: "string option"
  env_socket_v6 :: "string option"
  env_bind :: "ip_addr \<Rightarrow> string option"
  env_bind_device :: "string \<Rightarrow> string option"
  env_direct_options :: "direct_options \<Rightarrow> string option"
  env_socks5_auth :: "string \<Rightarrow> string \<Rightarrow> string \<Rightarrow> string option"
  env_http_tls :: "string \<Rightarrow> string option"

definition parse_direct_mode :: "string \<Rightarrow> direct_mode option" where
  "parse_direct_mode mode =
     (if mode = ''auto'' then Some DAuto
      else if mode = ''4'' \<or> mode = ''only4'' then Some Only4
      else if mode = ''6'' \<or> mode = ''only6'' then Some Only6
      else if mode = ''prefer4'' \<or> mode = ''46'' then Some Prefer46
      else if mode = ''prefer6'' \<or> mode = ''64'' then Some Prefer64
      else None)"

text \<open>An optional textual address: absent, parsed, or an error.\<close>

definition parse_bind :: "string \<Rightarrow> string \<Rightarrow> (string \<Rightarrow> bytes option) \<Rightarrow> string option \<Rightarrow> string + bytes option" where
  "parse_bind field syntax parse s =
     (case s of
        None \<Rightarrow> Inr None
      | Some t \<Rightarrow>
          (case parse t of
             Some ip \<Rightarrow> Inr (Some ip)
           | None \<Rightarrow> Inl (''Invalid '' @ field @ '' '' @ quoted t @ '': invalid '' @ syntax @ '' address syntax'')))"

text \<open>Testing a bind address at start-up: create a socket of the family and bind it.\<close>

definition test_bind :: "string option \<Rightarrow> string option \<Rightarrow> string \<Rightarrow> string option" where
  "test_bind socket_err bind_err what =
     (case socket_err of
        Some e \<Rightarrow> Some (''Failed to create test socket: '' @ e)
      | None \<Rightarrow> (case bind_err of Some e \<Rightarrow> Some (what @ '' failed: '' @ e) | None \<Rightarrow> None))"

definition check_binds ::
    "acl_env \<Rightarrow> string \<Rightarrow> bytes option \<Rightarrow> bytes option \<Rightarrow> string option \<Rightarrow> string option" where
  "check_binds env name bind_ip4 bind_ip6 bind_device =
     (case Option.bind bind_ip4 (\<lambda>ip. test_bind (env_socket_v4 env) (env_bind env (V4 ip))
              (''FATAL: outbound '' @ quoted name @ '' bindIPv4 '' @ show_ipv4 ip)) of
        Some e \<Rightarrow> Some e
      | None \<Rightarrow>
          (case Option.bind bind_ip6 (\<lambda>ip. test_bind (env_socket_v6 env) (env_bind env (V6 ip))
                   (''FATAL: outbound '' @ quoted name @ '' bindIPv6 '' @ show_ipv6 ip)) of
             Some e \<Rightarrow> Some e
           | None \<Rightarrow>
               Option.bind bind_device (\<lambda>dev. test_bind (env_socket_v4 env) (env_bind_device env dev)
                 (''FATAL: outbound '' @ quoted name @ '' bindDevice '' @ quoted dev))))"

definition direct_from_entry :: "acl_env \<Rightarrow> outbound_entry \<Rightarrow> string + outbound_handler" where
  "direct_from_entry env entry =
     (let config = oe_direct entry;
          mode = (case config of Some d \<Rightarrow> dc_mode d | None \<Rightarrow> ''auto'') in
      case parse_direct_mode mode of
        None \<Rightarrow>
          Inl (''Invalid direct mode '' @ quoted mode @ '' for outbound '' @ quoted (oe_name entry)
               @ '', valid values: auto, 4, only4, 6, only6, prefer4, 46, prefer6, 64'')
      | Some direct_mode \<Rightarrow>
          (case parse_bind ''bindIPv4'' ''IPv4'' parse_ipv4 (Option.bind config dc_bind_ipv4) of
             Inl e \<Rightarrow> Inl e
           | Inr bind_ip4 \<Rightarrow>
               (case parse_bind ''bindIPv6'' ''IPv6'' parse_ipv6 (Option.bind config dc_bind_ipv6) of
                  Inl e \<Rightarrow> Inl e
                | Inr bind_ip6 \<Rightarrow>
                    let bind_device = Option.bind config dc_bind_device;
                        fast_open = (case config of Some d \<Rightarrow> dc_fast_open d | None \<Rightarrow> False);
                        tcp_nodelay = (case config of Some d \<Rightarrow> dc_tcp_nodelay d | None \<Rightarrow> True);
                        keepalive_secs = (case config of Some d \<Rightarrow> dc_tcp_keepalive_secs d | None \<Rightarrow> 60);
                        tcp_keepalive = (if keepalive_secs > 0 then Some keepalive_secs else None) in
                    (case check_binds env (oe_name entry) bind_ip4 bind_ip6 bind_device of
                       Some e \<Rightarrow> Inl e
                     | None \<Rightarrow>
                         let opts = \<lparr>do_mode = direct_mode, do_bind_ip4 = bind_ip4, do_bind_ip6 = bind_ip6,
                                     do_bind_device = bind_device, do_fast_open = fast_open,
                                     do_tcp_nodelay = tcp_nodelay, do_tcp_keepalive = tcp_keepalive\<rparr> in
                         (case env_direct_options env opts of
                            Some e \<Rightarrow> Inl (''Invalid direct outbound '' @ quoted (oe_name entry) @ '': '' @ e)
                          | None \<Rightarrow> Inr (HDirect (Direct_With opts)))))))"

definition socks5_from_entry :: "acl_env \<Rightarrow> outbound_entry \<Rightarrow> string + outbound_handler" where
  "socks5_from_entry env entry =
     (case oe_socks5 entry of
        None \<Rightarrow> Inl (''socks5 config required for outbound '' @ quoted (oe_name entry))
      | Some config \<Rightarrow>
          (case (s5_username config, s5_password config) of
             (Some username, Some password) \<Rightarrow>
               (case env_socks5_auth env (s5_addr config) username password of
                  Some e \<Rightarrow> Inl (''Invalid socks5 outbound '' @ quoted (oe_name entry) @ '': '' @ e)
                | None \<Rightarrow> Inr (HSocks5 (Socks5_Auth (s5_addr config) username password) (s5_allow_udp config)))
           | _ \<Rightarrow> Inr (HSocks5 (Socks5_New (s5_addr config)) (s5_allow_udp config))))"

definition http_from_entry :: "acl_env \<Rightarrow> outbound_entry \<Rightarrow> string + outbound_handler" where
  "http_from_entry env entry =
     (case oe_http entry of
        None \<Rightarrow> Inl (''http config required for outbound '' @ quoted (oe_name entry))
      | Some config \<Rightarrow>
          let with_auth = (\<lambda>http. case (hc_username config, hc_password config) of
                 (Some username, Some password) \<Rightarrow> Http_Auth http username password
               | _ \<Rightarrow> http) in
          if hc_https config then
            (case env_http_tls env (hc_addr config) of
               Some e \<Rightarrow> Inl (''Invalid http outbound '' @ quoted (oe_name entry) @ '': '' @ e)
             | None \<Rightarrow> Inr (HHttp (with_auth (Http_Tls (hc_addr config)))))
          else Inr (HHttp (with_auth (Http_New (hc_addr config)))))"

definition from_entry :: "acl_env \<Rightarrow> outbound_entry \<Rightarrow> string + outbound_handler" where
  "from_entry env entry =
     (if oe_type entry = ''direct'' then direct_from_entry env entry
      else if oe_type entry = ''socks5'' then socks5_from_entry env entry
      else if oe_type entry = ''http'' then http_from_entry env entry
      else if oe_type entry = ''reject'' then Inr HReject
      else Inl (''Unknown outbound type '' @ quoted (oe_type entry) @ '' for outbound '' @ quoted (oe_name entry)))"

fun allows_udp :: "outbound_handler \<Rightarrow> bool" where
  "allows_udp (HDirect _) = True"
| "allows_udp (HSocks5 _ allow_udp) = allow_udp"
| "allows_udp (HHttp _) = False"
| "allows_udp HReject = False"

section \<open>The engine\<close>

datatype protocol = TCP | UDP

datatype host_info = Host_Ip ip_addr | Host_Name string

type_synonym matcher = "host_info \<Rightarrow> protocol \<Rightarrow> u16 \<Rightarrow> (handler_ref \<times> ip_addr option) option"

type_synonym outbounds = "(string \<times> handler_ref) list"

record acl_engine =
  eng_compiled :: matcher
  eng_outbounds :: outbounds

text \<open>The geodata loader: its directory and whether a refresh is forced.\<close>

type_synonym geo_loader = "string option \<times> bool"

text \<open>Loading the entries in order; a later entry of the same name replaces an earlier one.\<close>

fun load_outbounds :: "acl_env \<Rightarrow> nat \<Rightarrow> outbound_entry list \<Rightarrow> outbounds \<Rightarrow> string + outbounds" where
  "load_outbounds env next [] outbounds = Inr outbounds"
| "load_outbounds env next (entry # entries) outbounds =
     (case from_entry env entry of
        Inl e \<Rightarrow> Inl e
      | Inr handler \<Rightarrow>
          load_outbounds env (Suc next) entries (AList.update (oe_name entry) (next, handler) outbounds))"

definition or_insert :: "string \<Rightarrow> handler_ref \<Rightarrow> outbounds \<Rightarrow> outbounds" where
  "or_insert name h outbounds =
     (case map_of outbounds name of Some _ \<Rightarrow> outbounds | None \<Rightarrow> AList.update name h outbounds)"

fun join_lines :: "string list \<Rightarrow> string" where
  "join_lines [] = []"
| "join_lines [s] = s"
| "join_lines (s # ss) = s @ [CHR 0x0A] @ join_lines ss"

definition acl_engine_new ::
    "acl_env \<Rightarrow> (string \<Rightarrow> string + 'r) \<Rightarrow> ('r \<Rightarrow> outbounds \<Rightarrow> geo_loader \<Rightarrow> string + matcher) \<Rightarrow>
     acl_config \<Rightarrow> string option \<Rightarrow> bool \<Rightarrow> string + acl_engine" where
  "acl_engine_new env parse_rules compile config data_dir refresh_geodata =
     (case load_outbounds env 0 (ac_outbounds config) [] of
        Inl e \<Rightarrow> Inl e
      | Inr outbounds \<Rightarrow>
          let n = length (ac_outbounds config);
              outbounds = or_insert ''reject'' (n, HReject) outbounds;
              outbounds = or_insert ''direct'' (n + 1, HDirect Direct_New) outbounds;
              rules = (if ac_inline config = [] then [''direct(all)''] else ac_inline config) in
          (case parse_rules (join_lines rules) of
             Inl e \<Rightarrow> Inl (''Failed to parse ACL rules: '' @ e)
           | Inr text_rules \<Rightarrow>
               (case compile text_rules outbounds (data_dir, refresh_geodata) of
                  Inl e \<Rightarrow> Inl (''Failed to compile ACL rules: '' @ e)
                | Inr compiled \<Rightarrow> Inr \<lparr>eng_compiled = compiled, eng_outbounds = outbounds\<rparr>)))"

definition match_host_hijack ::
    "acl_engine \<Rightarrow> string \<Rightarrow> u16 \<Rightarrow> protocol \<Rightarrow> (handler_ref \<times> ip_addr option) option" where
  "match_host_hijack engine host port protocol =
     (let host_info = (case parse_ip host of Some ip \<Rightarrow> Host_Ip ip | None \<Rightarrow> Host_Name host) in
      case eng_compiled engine host_info protocol port of
        Some result \<Rightarrow> Some result
      | None \<Rightarrow> map_option (\<lambda>h. (h, None)) (map_of (eng_outbounds engine) ''direct''))"

section \<open>Names that resolve to this host\<close>

definition trim_end_dots :: "string \<Rightarrow> string" where
  "trim_end_dots s = rev (dropWhile (\<lambda>c. c = CHR ''.'') (rev s))"

text \<open>\<open>rsplit('.').next()\<close>: what follows the last dot.\<close>

definition last_label :: "string \<Rightarrow> string" where
  "last_label s = rev (takeWhile (\<lambda>c. c \<noteq> CHR ''.'') (rev s))"

definition is_digit :: "char \<Rightarrow> bool" where
  "is_digit c \<longleftrightarrow> to_digit 10 c \<noteq> None"

definition is_hexdigit :: "char \<Rightarrow> bool" where
  "is_hexdigit c \<longleftrightarrow> to_digit 16 c \<noteq> None"

definition is_numeric_host :: "string \<Rightarrow> bool" where
  "is_numeric_host host =
     (let last = last_label (trim_end_dots host) in
      last \<noteq> [] \<and>
      (list_all is_digit last \<or>
       (take 2 last = ''0x'' \<or> take 2 last = ''0X'') \<and> drop 2 last \<noteq> [] \<and> list_all is_hexdigit (drop 2 last)))"

definition ends_with :: "string \<Rightarrow> string \<Rightarrow> bool" where
  "ends_with s t \<longleftrightarrow> length t \<le> length s \<and> drop (length s - length t) s = t"

definition localhost_names :: "string list" where
  "localhost_names =
     [''localhost'', ''localhost4'', ''localhost6'', ''localhost.localdomain'', ''localhost4.localdomain4'',
      ''localhost6.localdomain6'', ''ip6-localhost'', ''ip6-loopback'']"

definition is_localhost_name :: "string \<Rightarrow> bool" where
  "is_localhost_name host =
     (let h = map to_ascii_lowercase (trim_end_dots host) in
      List.member localhost_names h \<or> ends_with h ''.localhost'')"

section \<open>The router\<close>

record acl_router =
  ar_engine :: acl_engine
  ar_block_private_ip :: bool

text \<open>The refusal of proxied targets that would come back to this host or its network.\<close>

definition proxy_blocked :: "bool \<Rightarrow> address \<Rightarrow> bool" where
  "proxy_blocked block addr \<longleftrightarrow>
     block \<and>
     (case literal_ip addr of
        Some ip \<Rightarrow> is_private_ip ip
      | None \<Rightarrow> is_numeric_host (address_host addr) \<or> is_localhost_name (address_host addr))"

definition route_direct ::
    "'d resolver \<Rightarrow> bool \<Rightarrow> 'd \<Rightarrow> address \<Rightarrow> handler_ref option \<Rightarrow> ip_addr option \<Rightarrow> handler_ref outbound_type \<times> 'd" where
  "route_direct resolve block d addr handler hijack =
     (case hijack of
        Some ip \<Rightarrow> (Direct (collect (address_port addr) [ip]) handler, d)
      | None \<Rightarrow>
          (case screen_direct_target resolve d addr block of
             (Blocked, d') \<Rightarrow> (Reject, d')
           | (Allow resolved, d') \<Rightarrow> (Direct resolved handler, d')))"

definition route_with_protocol ::
    "'d resolver \<Rightarrow> acl_router \<Rightarrow> protocol \<Rightarrow> 'd \<Rightarrow> address \<Rightarrow> handler_ref outbound_type \<times> 'd" where
  "route_with_protocol resolve self protocol d addr =
     (case match_host_hijack (ar_engine self) (address_host addr) (address_port addr) protocol of
        None \<Rightarrow> route_direct resolve (ar_block_private_ip self) d addr None None
      | Some (h, hijack) \<Rightarrow>
          (case snd h of
             HReject \<Rightarrow> (Reject, d)
           | HDirect _ \<Rightarrow> route_direct resolve (ar_block_private_ip self) d addr (Some h) hijack
           | _ \<Rightarrow> if proxy_blocked (ar_block_private_ip self) addr then (Reject, d) else (Proxy h hijack, d)))"

definition acl_route :: "'d resolver \<Rightarrow> acl_router \<Rightarrow> 'd \<Rightarrow> address \<Rightarrow> handler_ref outbound_type \<times> 'd" where
  "acl_route resolve self d addr = route_with_protocol resolve self TCP d addr"

definition acl_route_udp :: "'d resolver \<Rightarrow> acl_router \<Rightarrow> 'd \<Rightarrow> address \<Rightarrow> handler_ref outbound_type \<times> 'd" where
  "acl_route_udp resolve self d addr = route_with_protocol resolve self UDP d addr"

section \<open>The router keeps the contract\<close>

text \<open>The addresses that rules of the operator may substitute.\<close>

definition hijack_ips :: "acl_engine \<Rightarrow> ip_addr set" where
  "hijack_ips engine = {ip. \<exists>hi proto port h. eng_compiled engine hi proto port = Some (h, Some ip)}"

lemma match_hijack:
  "match_host_hijack engine host port proto = Some (h, Some ip) \<Longrightarrow> ip \<in> hijack_ips engine"
  by (cases h) (auto simp: match_host_hijack_def hijack_ips_def Let_def split: option.splits, blast+)

lemma route_direct_cases:
  assumes "route_direct resolve block d addr handler hijack = (Direct resolved h, d')"
  shows "h = handler \<and>
    ((\<exists>ip. hijack = Some ip \<and> resolved = collect (address_port addr) [ip] \<and> d' = d) \<or>
     (hijack = None \<and> screen_direct_target resolve d addr block = (Allow resolved, d')))"
  using assms by (auto simp: route_direct_def split: option.splits prod.splits direct_target.splits)

lemma route_cases:
  assumes "route_with_protocol resolve self proto d addr = (Direct resolved h, d')"
  obtains hijack where "route_direct resolve (ar_block_private_ip self) d addr h hijack = (Direct resolved h, d')"
    and "\<forall>ip. hijack = Some ip \<longrightarrow> ip \<in> hijack_ips (ar_engine self)"
  using assms match_hijack route_direct_cases
  by (fastforce simp: route_with_protocol_def split: option.splits outbound_handler.splits if_splits)

lemma ra_allowed_mono: "ra_allowed {} port r \<Longrightarrow> ra_allowed t port r"
  by (auto simp: ra_allowed_def)

lemma collect_singleton: "collect port [ip] = Some r \<Longrightarrow> ra_allowed {ip} port r"
  using collect_SomeD [of port "[ip]" r] by (fastforce simp: ra_allowed_def)

lemma ra_allowed_trusted: "ra_allowed {ip} port r \<Longrightarrow> ip \<in> t \<Longrightarrow> ra_allowed t port r"
  by (auto simp: ra_allowed_def)

interpretation acl: screening_router
  "route_with_protocol resolve \<lparr>ar_engine = engine, ar_block_private_ip = True\<rparr> proto" resolve "hijack_ips engine"
  for resolve :: "'d resolver" and engine :: acl_engine and proto :: protocol
proof
  fix d a r and h :: "handler_ref option" and d'
  assume "route_with_protocol resolve \<lparr>ar_engine = engine, ar_block_private_ip = True\<rparr> proto d a = (Direct (Some r) h, d')"
  then obtain hijack where rd: "route_direct resolve True d a h hijack = (Direct (Some r) h, d')"
    and hj: "\<forall>ip. hijack = Some ip \<longrightarrow> ip \<in> hijack_ips engine"
    by (rule route_cases) simp
  show "ra_allowed (hijack_ips engine) (address_port a) r"
  proof (cases hijack)
    case None
    then show ?thesis using route_direct_cases [OF rd] screen_Allow_Some ra_allowed_mono by fastforce
  next
    case (Some ip)
    then have "collect (address_port a) [ip] = Some r" using route_direct_cases [OF rd] by auto
    then show ?thesis using hj Some collect_singleton ra_allowed_trusted by blast
  qed
next
  fix d a and h :: "handler_ref option" and d'
  assume "route_with_protocol resolve \<lparr>ar_engine = engine, ar_block_private_ip = True\<rparr> proto d a = (Direct None h, d')"
  then obtain hijack where rd: "route_direct resolve True d a h hijack = (Direct None h, d')"
    by (rule route_cases) simp
  have "hijack = None \<and> screen_direct_target resolve d a True = (Allow None, d')"
    using route_direct_cases [OF rd] by (auto simp: eq_commute [of None])
  then show "(\<exists>ip. literal_ip a = Some ip \<and> \<not> is_private_ip ip) \<or>
         (\<exists>host port. a = Domain host port \<and> fst (resolve d host port) = Inr [])"
    using screen_Allow_None [of resolve d a d'] by simp
qed

section \<open>Lemmas on names and handlers\<close>

lemma trim_end_dots_append [simp]: "trim_end_dots (s @ ''.'') = trim_end_dots s"
  by (simp add: trim_end_dots_def)

lemma trim_end_dots_replicate: "trim_end_dots (s @ replicate n (CHR ''.'')) = trim_end_dots s"
proof -
  have "dropWhile (\<lambda>c. c = CHR ''.'') (replicate n (CHR ''.'') @ rev s) = dropWhile (\<lambda>c. c = CHR ''.'') (rev s)"
    by (rule dropWhile_append2) auto
  then show ?thesis by (simp add: trim_end_dots_def)
qed

lemma trim_end_dots_id: "s = [] \<or> last s \<noteq> CHR ''.'' \<Longrightarrow> trim_end_dots s = s"
  by (cases s rule: rev_cases) (auto simp: trim_end_dots_def)

lemma last_label_append: "CHR ''.'' \<notin> set l \<Longrightarrow> last_label (p @ ''.'' @ l) = l"
  by (simp add: last_label_def) (subst takeWhile_append2, auto)

lemma last_label_whole: "CHR ''.'' \<notin> set l \<Longrightarrow> last_label l = l"
proof -
  assume "CHR ''.'' \<notin> set l"
  then have "takeWhile (\<lambda>c. c \<noteq> CHR ''.'') (rev l) = rev l" by (subst takeWhile_eq_all_conv) auto
  then show ?thesis by (simp only: last_label_def rev_rev_ident)
qed

lemma to_ascii_lowercase_idem: "to_ascii_lowercase (to_ascii_lowercase c) = to_ascii_lowercase c"
  by (auto simp: to_ascii_lowercase_def Let_def of_char_of)

lemma to_ascii_lowercase_dot: "to_ascii_lowercase c = CHR ''.'' \<longleftrightarrow> c = CHR ''.''"
proof
  assume h: "to_ascii_lowercase c = CHR ''.''"
  have "(of_char (to_ascii_lowercase c) :: nat) = (if 65 \<le> (of_char c :: nat) \<and> (of_char c :: nat) \<le> 90 then of_char c + 32 else of_char c)"
    by (auto simp: to_ascii_lowercase_def Let_def of_char_of)
  then have "(of_char c :: nat) = of_char (CHR ''.'')" using h by (auto split: if_splits)
  then show "c = CHR ''.''" by (simp only: of_char_eq_iff)
qed (simp add: to_ascii_lowercase_def)

lemma map_lower_trim: "map to_ascii_lowercase (trim_end_dots s) = trim_end_dots (map to_ascii_lowercase s)"
  by (simp add: trim_end_dots_def rev_map dropWhile_map o_def to_ascii_lowercase_dot)

lemma engine_defaults:
  assumes "acl_engine_new env parse_rules compile config dir refresh = Inr engine"
  shows "map_of (eng_outbounds engine) ''direct'' \<noteq> None" "map_of (eng_outbounds engine) ''reject'' \<noteq> None"
  using assms
  by (auto simp: acl_engine_new_def Let_def or_insert_def update_conv' split: sum.splits option.splits if_splits)

text \<open>What each constructor of handlers can return.\<close>

lemma direct_from_entry_kind: "case direct_from_entry env entry of Inr h \<Rightarrow> \<exists>dir. h = HDirect dir | Inl e \<Rightarrow> True"
  by (simp add: direct_from_entry_def Let_def split: sum.split option.split)

lemma socks5_from_entry_kind:
  "case socks5_from_entry env entry of
     Inr h \<Rightarrow> \<exists>c s. oe_socks5 entry = Some c \<and> h = HSocks5 s (s5_allow_udp c) | Inl e \<Rightarrow> True"
  by (simp add: socks5_from_entry_def split: sum.split option.split)

lemma http_from_entry_kind:
  "case http_from_entry env entry of Inr h \<Rightarrow> \<exists>c x. oe_http entry = Some c \<and> h = HHttp x | Inl e \<Rightarrow> True"
  by (simp add: http_from_entry_def Let_def split: sum.split option.split)

section \<open>Properties\<close>

text \<open>
  C12: With \<open>block_private_ip\<close>, a direct connection that the rules allow never reaches a private
  address, unless the operator's own rule names that address as a hijack destination; as for the
  direct router, later changes of the DNS answers do not matter.
\<close>

theorem acl_router_ssrf_safe:
  assumes "resolver_answers resolve" and "resolver_literals resolve"
    and "fst (route_with_protocol resolve \<lparr>ar_engine = engine, ar_block_private_ip = True\<rparr> proto d a) = Direct resolved h"
    and "sa \<in> set (direct_candidates resolve later a resolved)"
    and "\<forall>hi p port h ip. eng_compiled engine hi p port = Some (h, Some ip) \<longrightarrow> ip \<noteq> sa_ip sa"
  shows "\<not> is_private_ip (sa_ip sa)"
  using acl.direct_never_private [OF assms(1-4)] assms(5) unfolding hijack_ips_def by blast

definition demo_engine :: acl_engine where
  "demo_engine = \<lparr>eng_compiled = (\<lambda>hi p port. None), eng_outbounds = [(''direct'', (0, HDirect Direct_New))]\<rparr>"

theorem acl_router_ssrf_safe_witness:
  "\<exists>resolved. fst (acl_route rebinding_resolver \<lparr>ar_engine = demo_engine, ar_block_private_ip = True\<rparr> 0 (Domain ''evil.org'' 80))
      = Direct resolved (Some (0, HDirect Direct_New)) \<and>
    direct_candidates rebinding_resolver 1 (Domain ''evil.org'' 80) resolved \<noteq> [] \<and>
    \<not> is_private_ip (sa_ip (hd (direct_candidates rebinding_resolver 1 (Domain ''evil.org'' 80) resolved)))"
proof -
  let ?r = "Some \<lparr>ra_v4 = Some [93, 184, 216, 34], ra_v6 = None, ra_port = 80, ra_v6_first = False\<rparr>"
  have p: "parse_ip ''evil.org'' = None" by (simp add: parse_ip_eval)
  have "\<not> is_private_ip (V4 [93, 184, 216, 34])" by code_simp
  with p have r: "fst (route_with_protocol rebinding_resolver \<lparr>ar_engine = demo_engine, ar_block_private_ip = True\<rparr> TCP 0
       (Domain ''evil.org'' 80)) = Direct ?r (Some (0, HDirect Direct_New))"
    by (simp add: route_with_protocol_def route_direct_def match_host_hijack_def demo_engine_def
          screen_direct_target_def rebinding_resolver_def collect_def Let_def)
  have c: "direct_candidates rebinding_resolver 1 (Domain ''evil.org'' 80) ?r \<noteq> []"
    by (simp add: direct_candidates_def candidates_def)
  have "\<forall>hi p port h ip. eng_compiled demo_engine hi p port = Some (h, Some ip) \<longrightarrow>
      ip \<noteq> sa_ip (hd (direct_candidates rebinding_resolver 1 (Domain ''evil.org'' 80) ?r))"
    by (simp add: demo_engine_def)
  from acl_router_ssrf_safe [OF rebinding_resolver_contract r hd_in_set [OF c] this] r c
  show ?thesis by (auto simp: acl_route_def)
qed


definition demo_proxy_engine :: acl_engine where
  "demo_proxy_engine =
     \<lparr>eng_compiled = (\<lambda>hi p port. Some ((1, HSocks5 (Socks5_New ''127.0.0.1:1080'') True), None)),
      eng_outbounds = []\<rparr>"


text \<open>
  The loopback filter for proxied names is not evaded by spelling: trailing dots and letter
  case do not change the answers, every name under \<open>localhost\<close> is caught, and so is every name
  whose last label is a decimal or \<open>0x\<close> number, in particular every dotted quad.
\<close>

lemma loopback_names_caught:
  "is_localhost_name (h @ replicate n (CHR ''.'')) = is_localhost_name h \<and>
   is_numeric_host (h @ replicate n (CHR ''.'')) = is_numeric_host h \<and>
   is_localhost_name (map to_ascii_lowercase h) = is_localhost_name h \<and>
   is_localhost_name (h @ ''.localhost'') \<and>
   (digits \<noteq> [] \<longrightarrow> list_all is_digit digits \<longrightarrow>
      is_numeric_host digits \<and> is_numeric_host (h @ ''.'' @ digits)) \<and>
   (digits \<noteq> [] \<longrightarrow> list_all is_hexdigit digits \<longrightarrow>
      is_numeric_host (''0x'' @ digits) \<and> is_numeric_host (h @ ''.0x'' @ digits))"
proof -
  have dot: "\<not> is_hexdigit (CHR ''.'')" "\<not> is_digit (CHR ''.'')" by code_simp+
  have d: "CHR ''.'' \<notin> set ds" if "list_all is_digit ds" for ds using that dot by (auto simp: list_all_iff)
  have x: "CHR ''.'' \<notin> set ds" if "list_all is_hexdigit ds" for ds using that dot by (auto simp: list_all_iff)
  have t: "trim_end_dots (p @ ds) = p @ ds" if "ds \<noteq> []" "CHR ''.'' \<notin> set ds" for p ds
    using that by (intro trim_end_dots_id) (metis last_appendR last_in_set)
  have num: "is_numeric_host ds \<and> is_numeric_host (h @ ''.'' @ ds)"
    if ds: "ds \<noteq> []" "CHR ''.'' \<notin> set ds"
      "list_all is_digit ds \<or> (take 2 ds = ''0x'' \<or> take 2 ds = ''0X'') \<and> drop 2 ds \<noteq> [] \<and> list_all is_hexdigit (drop 2 ds)" for ds
    using t [OF ds(1,2), of "[]"] t [OF ds(1,2), of "h @ ''.''"] ds(1,3) last_label_append [OF ds(2), of h]
      last_label_whole [OF ds(2)]
    by (simp add: is_numeric_host_def Let_def)
  have "digits \<noteq> [] \<Longrightarrow> list_all is_digit digits \<Longrightarrow> is_numeric_host digits \<and> is_numeric_host (h @ ''.'' @ digits)"
    using num [of digits] d by blast
  moreover have "digits \<noteq> [] \<Longrightarrow> list_all is_hexdigit digits \<Longrightarrow>
      is_numeric_host (''0x'' @ digits) \<and> is_numeric_host (h @ ''.0x'' @ digits)"
    using num [of "''0x'' @ digits"] x by simp
  moreover have "is_localhost_name (h @ ''.localhost'')"
  proof -
    have e: "trim_end_dots (h @ ''.localhost'') = h @ ''.localhost''" using t [of "''localhost''" "h @ ''.''"] by simp
    have "map to_ascii_lowercase ''.localhost'' = ''.localhost''" by code_simp
    then show ?thesis unfolding is_localhost_name_def e Let_def by (simp add: ends_with_def)
  qed
  moreover have "is_localhost_name (map to_ascii_lowercase h) = is_localhost_name h"
    by (simp add: is_localhost_name_def map_lower_trim [symmetric] o_def to_ascii_lowercase_idem)
  ultimately show ?thesis
    by (simp add: is_localhost_name_def is_numeric_host_def trim_end_dots_replicate)
qed

text \<open>
  An engine that was built always has the outbounds \<open>direct\<close> and \<open>reject\<close>, so every host has a
  decision: a host that no rule matches goes to \<open>direct\<close>.  In particular the router's case of
  a missing handler cannot happen.
\<close>

lemma engine_total:
  assumes "acl_engine_new env parse_rules compile config dir refresh = Inr engine"
  shows "match_host_hijack engine host port proto \<noteq> None \<and>
    map_of (eng_outbounds engine) ''reject'' \<noteq> None \<and>
    (eng_compiled engine (case parse_ip host of Some ip \<Rightarrow> Host_Ip ip | None \<Rightarrow> Host_Name host) proto port = None \<longrightarrow>
       map_option fst (match_host_hijack engine host port proto) = map_of (eng_outbounds engine) ''direct'')"
  using engine_defaults [OF assms]
  by (auto simp: match_host_hijack_def Let_def option.map_comp o_def split: option.splits)

text \<open>
  A handler is of the kind its entry names, an unknown type is refused, SOCKS5 and HTTP
  entries need their own section, and UDP is offered only by direct handlers and by SOCKS5
  handlers that allow it.
\<close>

lemma from_entry_kind:
  "case from_entry env entry of
     Inr h \<Rightarrow>
       (case h of
          HDirect dir \<Rightarrow> oe_type entry = ''direct'' \<and> allows_udp h
        | HSocks5 s u \<Rightarrow> oe_type entry = ''socks5'' \<and> (\<exists>c. oe_socks5 entry = Some c \<and> allows_udp h = s5_allow_udp c)
        | HHttp x \<Rightarrow> oe_type entry = ''http'' \<and> oe_http entry \<noteq> None \<and> \<not> allows_udp h
        | HReject \<Rightarrow> oe_type entry = ''reject'' \<and> \<not> allows_udp h)
   | Inl e \<Rightarrow> oe_type entry \<noteq> ''reject''"
  using direct_from_entry_kind [where env = env and entry = entry]
    socks5_from_entry_kind [where env = env and entry = entry] http_from_entry_kind [where env = env and entry = entry]
  unfolding from_entry_def by (auto split: sum.splits)

end
