(* ===== verification/Conn_Manager.thy ===== *)
theory Conn_Manager
  imports Prelude "HOL-Library.AList"
begin

text \<open>
  \<open>src/src/core/connection.rs\<close>: the registry of active connections, with which a user is kicked
  and the server is shut down.

  The two concurrent hash maps are association lists, a \<open>HashSet\<close> of identifiers is a list without
  repetitions, and the cancellation tokens, which are shared between the registry and the tasks
  that hold a clone, live in a store \<open>cm_tokens\<close> addressed by token number.

  Every operation of the source is a sequence of atomic accesses to the two maps.  The accesses are
  definitions of their own (\<open>take_id\<close>, \<open>insert_conn\<close>, \<open>insert_user\<close>, \<open>remove_conn\<close>,
  \<open>remove_user\<close>, \<open>visit\<close>), and the operations are composed of them.  The step relation
  \<open>cm_step\<close> interleaves the accesses of any number of connection tasks and kickers, so that its
  invariant covers the races between them.
\<close>

section \<open>State\<close>

type_synonym connection_id = u64

record active_connection =
  ac_user_id :: user_id
  ac_cancel_token :: nat

record connection_manager =
  next_conn_id :: connection_id
  connections :: "(connection_id \<times> active_connection) list"
  user_connections :: "(user_id \<times> connection_id list) list"
  cm_tokens :: "bool list"

definition cm_new :: connection_manager where
  "cm_new = \<lparr>next_conn_id = 1, connections = [], user_connections = [], cm_tokens = []\<rparr>"

section \<open>Atomic accesses\<close>

text \<open>\<open>fetch_add\<close> wraps; a new token is not cancelled.\<close>

definition take_id :: "connection_manager \<Rightarrow> connection_id \<times> nat \<times> connection_manager" where
  "take_id cm =
     (next_conn_id cm, length (cm_tokens cm),
      cm\<lparr>next_conn_id := next_conn_id cm + 1, cm_tokens := cm_tokens cm @ [False]\<rparr>)"

definition insert_conn :: "connection_id \<Rightarrow> active_connection \<Rightarrow> connection_manager \<Rightarrow> connection_manager" where
  "insert_conn conn_id conn cm = cm\<lparr>connections := AList.update conn_id conn (connections cm)\<rparr>"

definition user_ids :: "connection_manager \<Rightarrow> user_id \<Rightarrow> connection_id list" where
  "user_ids cm user_id =
     (case map_of (user_connections cm) user_id of Some ids \<Rightarrow> ids | None \<Rightarrow> [])"

definition insert_user :: "user_id \<Rightarrow> connection_id \<Rightarrow> connection_manager \<Rightarrow> connection_manager" where
  "insert_user user_id conn_id cm =
     cm\<lparr>user_connections :=
          AList.update user_id (List.insert conn_id (user_ids cm user_id)) (user_connections cm)\<rparr>"

definition remove_conn :: "connection_id \<Rightarrow> connection_manager \<Rightarrow> active_connection option \<times> connection_manager" where
  "remove_conn conn_id cm =
     (map_of (connections cm) conn_id, cm\<lparr>connections := AList.delete conn_id (connections cm)\<rparr>)"

text \<open>\<open>remove_if_mut\<close> runs the closure on the entry under its lock and drops it if empty.\<close>

definition remove_user :: "user_id \<Rightarrow> connection_id \<Rightarrow> connection_manager \<Rightarrow> connection_manager" where
  "remove_user user_id conn_id cm =
     (case map_of (user_connections cm) user_id of
        None \<Rightarrow> cm
      | Some conn_ids \<Rightarrow>
          let conn_ids = removeAll conn_id conn_ids in
          if conn_ids = [] then cm\<lparr>user_connections := AList.delete user_id (user_connections cm)\<rparr>
          else cm\<lparr>user_connections := AList.update user_id conn_ids (user_connections cm)\<rparr>)"

definition cancel :: "nat \<Rightarrow> connection_manager \<Rightarrow> connection_manager" where
  "cancel tok cm = cm\<lparr>cm_tokens := (cm_tokens cm)[tok := True]\<rparr>"

text \<open>One round of the loop of \<open>kick_user\<close>.\<close>

definition visit :: "connection_id \<Rightarrow> nat \<times> connection_manager \<Rightarrow> nat \<times> connection_manager" where
  "visit conn_id = (\<lambda>(kicked, cm).
     (case map_of (connections cm) conn_id of
        Some conn \<Rightarrow> (kicked + 1, cancel (ac_cancel_token conn) cm)
      | None \<Rightarrow> (kicked, cm)))"

section \<open>Operations\<close>

definition register :: "user_id \<Rightarrow> connection_manager \<Rightarrow> (connection_id \<times> nat) \<times> connection_manager" where
  "register user_id cm =
     (let (conn_id, cancel_token, cm) = take_id cm;
          conn = \<lparr>ac_user_id = user_id, ac_cancel_token = cancel_token\<rparr>;
          cm = insert_conn conn_id conn cm;
          cm = insert_user user_id conn_id cm
      in ((conn_id, cancel_token), cm))"

definition unregister :: "connection_id \<Rightarrow> connection_manager \<Rightarrow> connection_manager" where
  "unregister conn_id cm =
     (case remove_conn conn_id cm of
        (Some conn, cm') \<Rightarrow> remove_user (ac_user_id conn) conn_id cm'
      | (None, cm') \<Rightarrow> cm')"

definition kick_user :: "user_id \<Rightarrow> connection_manager \<Rightarrow> nat \<times> connection_manager" where
  "kick_user user_id cm =
     (case map_of (user_connections cm) user_id of
        Some conn_ids \<Rightarrow> fold visit conn_ids (0, cm)
      | None \<Rightarrow> (0, cm))"

definition cancel_all :: "connection_manager \<Rightarrow> nat \<times> connection_manager" where
  "cancel_all cm =
     fold (\<lambda>(_, conn) (cancelled, cm). (cancelled + 1, cancel (ac_cancel_token conn) cm))
       (connections cm) (0, cm)"

definition connection_count :: "connection_manager \<Rightarrow> nat" where
  "connection_count cm = length (connections cm)"

definition user_count :: "connection_manager \<Rightarrow> nat" where
  "user_count cm = length (user_connections cm)"

section \<open>Concurrent tasks\<close>

text \<open>
  A connection task registers, is active, and unregisters when its scope guard runs.  A kicker
  holds the guard of the user's entry while it walks over its identifiers, which keeps every
  writer of that entry out; the map of connections stays open to all.
\<close>

datatype task =
    TStart user_id
  | TTaken user_id connection_id nat
  | TInserted user_id connection_id nat
  | TActive user_id connection_id nat
  | TRemoved user_id connection_id
  | TDone

datatype kicker = KWalk user_id "connection_id list" nat | KDone user_id nat

record cm_sys =
  sys_cm :: connection_manager
  sys_tasks :: "task list"
  sys_kickers :: "kicker list"

definition unguarded :: "cm_sys \<Rightarrow> user_id \<Rightarrow> bool" where
  "unguarded s u \<longleftrightarrow> (\<forall>k \<in> set (sys_kickers s). \<forall>rem n. k \<noteq> KWalk u rem n)"

inductive cm_step :: "cm_sys \<Rightarrow> cm_sys \<Rightarrow> bool" where
  spawn: "cm_step s (s\<lparr>sys_tasks := sys_tasks s @ [TStart u]\<rparr>)"
| take: "\<lbrakk>t < length (sys_tasks s); sys_tasks s ! t = TStart u; take_id (sys_cm s) = (c, tok, cm)\<rbrakk> \<Longrightarrow>
    cm_step s (s\<lparr>sys_cm := cm, sys_tasks := (sys_tasks s)[t := TTaken u c tok]\<rparr>)"
| insert: "\<lbrakk>t < length (sys_tasks s); sys_tasks s ! t = TTaken u c tok\<rbrakk> \<Longrightarrow>
    cm_step s (s\<lparr>sys_cm := insert_conn c \<lparr>ac_user_id = u, ac_cancel_token = tok\<rparr> (sys_cm s),
                 sys_tasks := (sys_tasks s)[t := TInserted u c tok]\<rparr>)"
| link: "\<lbrakk>t < length (sys_tasks s); sys_tasks s ! t = TInserted u c tok; unguarded s u\<rbrakk> \<Longrightarrow>
    cm_step s (s\<lparr>sys_cm := insert_user u c (sys_cm s),
                 sys_tasks := (sys_tasks s)[t := TActive u c tok]\<rparr>)"
| remove: "\<lbrakk>t < length (sys_tasks s); sys_tasks s ! t = TActive u c tok;
            remove_conn c (sys_cm s) = (Some conn, cm)\<rbrakk> \<Longrightarrow>
    cm_step s (s\<lparr>sys_cm := cm, sys_tasks := (sys_tasks s)[t := TRemoved (ac_user_id conn) c]\<rparr>)"
| remove_none: "\<lbrakk>t < length (sys_tasks s); sys_tasks s ! t = TActive u c tok;
            remove_conn c (sys_cm s) = (None, cm)\<rbrakk> \<Longrightarrow>
    cm_step s (s\<lparr>sys_cm := cm, sys_tasks := (sys_tasks s)[t := TDone]\<rparr>)"
| unlink: "\<lbrakk>t < length (sys_tasks s); sys_tasks s ! t = TRemoved u c; unguarded s u\<rbrakk> \<Longrightarrow>
    cm_step s (s\<lparr>sys_cm := remove_user u c (sys_cm s), sys_tasks := (sys_tasks s)[t := TDone]\<rparr>)"
| kick: "cm_step s (s\<lparr>sys_kickers := sys_kickers s @
            [case map_of (user_connections (sys_cm s)) u of
               Some ids \<Rightarrow> KWalk u ids 0 | None \<Rightarrow> KDone u 0]\<rparr>)"
| kick_visit: "\<lbrakk>k < length (sys_kickers s); sys_kickers s ! k = KWalk u (c # rem) n;
            visit c (n, sys_cm s) = (n', cm)\<rbrakk> \<Longrightarrow>
    cm_step s (s\<lparr>sys_cm := cm, sys_kickers := (sys_kickers s)[k := KWalk u rem n']\<rparr>)"
| kick_end: "\<lbrakk>k < length (sys_kickers s); sys_kickers s ! k = KWalk u [] n\<rbrakk> \<Longrightarrow>
    cm_step s (s\<lparr>sys_kickers := (sys_kickers s)[k := KDone u n]\<rparr>)"

definition cm_init :: cm_sys where
  "cm_init = \<lparr>sys_cm = cm_new, sys_tasks = [], sys_kickers = []\<rparr>"

inductive cm_reachable :: "cm_sys \<Rightarrow> bool" where
  init: "cm_reachable cm_init"
| step: "cm_reachable s \<Longrightarrow> cm_step s s' \<Longrightarrow> cm_reachable s'"

section \<open>The invariant of the interleaved system\<close>

text \<open>The identifier, the user and the token of a task.\<close>

fun task_id :: "task \<Rightarrow> connection_id option" where
  "task_id (TTaken u c tok) = Some c"
| "task_id (TInserted u c tok) = Some c"
| "task_id (TActive u c tok) = Some c"
| "task_id (TRemoved u c) = Some c"
| "task_id _ = None"

fun task_token :: "task \<Rightarrow> (user_id \<times> nat) option" where
  "task_token (TTaken u c tok) = Some (u, tok)"
| "task_token (TInserted u c tok) = Some (u, tok)"
| "task_token (TActive u c tok) = Some (u, tok)"
| "task_token _ = None"

fun task_conn :: "task \<Rightarrow> (connection_id \<times> active_connection) option" where
  "task_conn (TInserted u c tok) = Some (c, \<lparr>ac_user_id = u, ac_cancel_token = tok\<rparr>)"
| "task_conn (TActive u c tok) = Some (c, \<lparr>ac_user_id = u, ac_cancel_token = tok\<rparr>)"
| "task_conn _ = None"

fun task_link :: "task \<Rightarrow> (user_id \<times> connection_id) option" where
  "task_link (TActive u c tok) = Some (u, c)"
| "task_link (TRemoved u c) = Some (u, c)"
| "task_link _ = None"

fun kicker_user :: "kicker \<Rightarrow> user_id" where
  "kicker_user (KWalk u rem n) = u"
| "kicker_user (KDone u n) = u"

text \<open>No two tasks share an identifier.\<close>

definition unique_ids :: "task list \<Rightarrow> bool" where
  "unique_ids ts \<longleftrightarrow>
     (\<forall>i < length ts. \<forall>j < length ts. task_id (ts ! i) \<noteq> None \<longrightarrow> task_id (ts ! i) = task_id (ts ! j) \<longrightarrow> i = j)"

definition inv_ids :: "cm_sys \<Rightarrow> bool" where
  "inv_ids s \<longleftrightarrow>
     unat (next_conn_id (sys_cm s)) = Suc (length (cm_tokens (sys_cm s))) \<and>
     unique_ids (sys_tasks s) \<and>
     (\<forall>t \<in> set (sys_tasks s). \<forall>c. task_id t = Some c \<longrightarrow> unat c \<le> length (cm_tokens (sys_cm s))) \<and>
     (\<forall>t \<in> set (sys_tasks s). \<forall>c u tok. task_id t = Some c \<longrightarrow> task_token t = Some (u, tok) \<longrightarrow> unat c = Suc tok)"

definition inv_conns :: "cm_sys \<Rightarrow> bool" where
  "inv_conns s \<longleftrightarrow>
     distinct (map fst (connections (sys_cm s))) \<and>
     (\<forall>c ac. map_of (connections (sys_cm s)) c = Some ac \<longleftrightarrow> (\<exists>t \<in> set (sys_tasks s). task_conn t = Some (c, ac)))"

definition inv_users :: "cm_sys \<Rightarrow> bool" where
  "inv_users s \<longleftrightarrow>
     distinct (map fst (user_connections (sys_cm s))) \<and>
     (\<forall>u. map_of (user_connections (sys_cm s)) u \<noteq> Some []) \<and>
     (\<forall>u c. c \<in> set (user_ids (sys_cm s) u) \<longleftrightarrow> (\<exists>t \<in> set (sys_tasks s). task_link t = Some (u, c)))"

definition inv_kickers :: "cm_sys \<Rightarrow> bool" where
  "inv_kickers s \<longleftrightarrow>
     (\<forall>u rem n. KWalk u rem n \<in> set (sys_kickers s) \<longrightarrow>
        set rem \<subseteq> set (user_ids (sys_cm s) u) \<and>
        (\<forall>c tok. TActive u c tok \<in> set (sys_tasks s) \<longrightarrow> c \<notin> set rem \<longrightarrow> cm_tokens (sys_cm s) ! tok)) \<and>
     (\<forall>t \<in> set (sys_tasks s). \<forall>u tok. task_token t = Some (u, tok) \<longrightarrow> cm_tokens (sys_cm s) ! tok \<longrightarrow>
        (\<exists>k \<in> set (sys_kickers s). kicker_user k = u))"

definition cm_inv :: "cm_sys \<Rightarrow> bool" where
  "cm_inv s \<longleftrightarrow> inv_ids s \<and> inv_conns s \<and> inv_users s \<and> inv_kickers s"

declare map_of_eq_Some_iff [simp del] Some_eq_map_of_iff [simp del]

text \<open>Lists of tasks under an update.\<close>

lemma unique_task:
  assumes "unique_ids ts" "t < length ts" "task_id (ts ! t) = Some c" "y \<in> set ts" "task_id y = Some c"
  shows "y = ts ! t"
proof -
  obtain j where j: "j < length ts" "y = ts ! j" using assms(4) by (metis in_set_conv_nth)
  then have "j = t" using assms by (auto simp: unique_ids_def)
  then show ?thesis using j by simp
qed

lemma set_update_cases:
  assumes "unique_ids ts" "t < length ts" "task_id (ts ! t) = Some c" "y \<in> set (ts[t := x])"
  shows "y = x \<or> (y \<in> set ts \<and> task_id y \<noteq> Some c)"
proof -
  obtain i where i: "i < length ts" "y = ts[t := x] ! i" using assms(4) by (auto simp: in_set_conv_nth)
  show ?thesis
  proof (cases "i = t")
    case False
    then have "y = ts ! i" using i by simp
    moreover have "task_id (ts ! i) \<noteq> Some c" using assms(1-3) False i(1) by (auto simp: unique_ids_def)
    ultimately show ?thesis using i(1) by simp
  qed (use i assms(2) in simp)
qed

lemma set_update_iff:
  assumes "unique_ids ts" "t < length ts" "task_id (ts ! t) = Some c"
  shows "set (ts[t := x]) = insert x {y \<in> set ts. task_id y \<noteq> Some c}"
proof
  show "set (ts[t := x]) \<subseteq> insert x {y \<in> set ts. task_id y \<noteq> Some c}"
    using set_update_cases [OF assms] by blast
  have "y \<in> set (ts[t := x])" if m: "y \<in> set ts" "task_id y \<noteq> Some c" for y
  proof -
    obtain i where "i < length ts" "y = ts ! i" using m(1) by (metis in_set_conv_nth)
    moreover have "i \<noteq> t" using m(2) calculation assms(3) by auto
    ultimately show ?thesis by (metis length_list_update nth_list_update_neq nth_mem)
  qed
  then show "insert x {y \<in> set ts. task_id y \<noteq> Some c} \<subseteq> set (ts[t := x])"
    using assms(2) set_update_memI by fastforce
qed

lemma ex_update_iff:
  assumes "t < length ts" "\<not> P (ts ! t)"
  shows "(\<exists>y \<in> set (ts[t := x]). P y) \<longleftrightarrow> P x \<or> (\<exists>y \<in> set ts. P y)"
proof -
  have "y \<in> set (ts[t := x])" if "y \<in> set ts" "P y" for y
    using that assms by (metis in_set_conv_nth length_list_update nth_list_update_neq)
  then show ?thesis
    using assms(1) set_update_memI [of t ts x] set_update_subset_insert [of ts t x] by blast
qed

lemma ball_update:
  "\<forall>y \<in> set ts. P y \<Longrightarrow> P x \<Longrightarrow> \<forall>y \<in> set (ts[t := x]). P y"
  using set_update_subset_insert [of ts t x] by blast

lemma unique_ids_same:
  assumes "unique_ids ts" "t < length ts" "task_id x = task_id (ts ! t) \<or> task_id x = None"
  shows "unique_ids (ts[t := x])"
  using assms by (auto simp: unique_ids_def nth_list_update) metis

lemma unique_ids_fresh:
  assumes "unique_ids ts" "t < length ts" "\<forall>y \<in> set ts. task_id y \<noteq> task_id x"
  shows "unique_ids (ts[t := x])"
  using assms by (auto simp: unique_ids_def nth_list_update)

lemma unique_ids_snoc:
  assumes "unique_ids ts"
  shows "unique_ids (ts @ [TStart u])"
  using assms by (auto simp: unique_ids_def nth_append less_Suc_eq)

lemma user_ids_insert_user [simp]:
  "set (user_ids (insert_user u c cm) v) = (if v = u then insert c (set (user_ids cm u)) else set (user_ids cm v))"
  by (auto simp: user_ids_def insert_user_def update_conv' split: option.split)

lemma user_ids_remove_user [simp]:
  "set (user_ids (remove_user u c cm) v) = (if v = u then set (user_ids cm u) - {c} else set (user_ids cm v))"
  by (auto simp: user_ids_def remove_user_def update_conv' delete_conv' Let_def split: option.split)
     (metis Diff_iff emptyE list.set(1) set_removeAll singletonD)

lemma access_frames [simp]:
  "user_ids (insert_conn c ac cm) = user_ids cm"
  "user_ids (cancel tok cm) = user_ids cm"
  "user_connections (insert_conn c ac cm) = user_connections cm"
  "connections (insert_user u c cm) = connections cm"
  "connections (remove_user u c cm) = connections cm"
  "connections (cancel tok cm) = connections cm"
  "user_connections (cancel tok cm) = user_connections cm"
  "cm_tokens (insert_conn c ac cm) = cm_tokens cm"
  "cm_tokens (insert_user u c cm) = cm_tokens cm"
  "cm_tokens (remove_user u c cm) = cm_tokens cm"
  "next_conn_id (insert_conn c ac cm) = next_conn_id cm"
  "next_conn_id (insert_user u c cm) = next_conn_id cm"
  "next_conn_id (remove_user u c cm) = next_conn_id cm"
  "next_conn_id (cancel tok cm) = next_conn_id cm"
  "length (cm_tokens (cancel tok cm)) = length (cm_tokens cm)"
  by (auto simp: insert_conn_def insert_user_def remove_user_def cancel_def user_ids_def fun_eq_iff Let_def
        split: option.split)

lemma visit_frames:
  assumes "visit c (n, cm) = (n', cm')"
  shows "connections cm' = connections cm" "user_connections cm' = user_connections cm"
    "user_ids cm' = user_ids cm" "next_conn_id cm' = next_conn_id cm"
    "length (cm_tokens cm') = length (cm_tokens cm)"
  using assms by (auto simp: visit_def split: option.splits)

lemma take_id_frames:
  assumes "take_id cm = (c, tok, cm')"
  shows "c = next_conn_id cm" "tok = length (cm_tokens cm)" "connections cm' = connections cm"
    "user_connections cm' = user_connections cm" "user_ids cm' = user_ids cm"
    "cm_tokens cm' = cm_tokens cm @ [False]" "next_conn_id cm' = next_conn_id cm + 1"
  using assms by (auto simp: take_id_def user_ids_def fun_eq_iff)

lemma remove_conn_frames:
  assumes "remove_conn c cm = (r, cm')"
  shows "r = map_of (connections cm) c" "connections cm' = AList.delete c (connections cm)"
    "user_connections cm' = user_connections cm" "user_ids cm' = user_ids cm"
    "cm_tokens cm' = cm_tokens cm" "next_conn_id cm' = next_conn_id cm"
  using assms by (auto simp: remove_conn_def user_ids_def fun_eq_iff)

text \<open>Each step keeps the identifiers distinct, as long as the counter has not wrapped.\<close>

lemma inv_idsD:
  assumes "inv_ids s"
  shows "unat (next_conn_id (sys_cm s)) = Suc (length (cm_tokens (sys_cm s)))" "unique_ids (sys_tasks s)"
    "t \<in> set (sys_tasks s) \<Longrightarrow> task_id t = Some c \<Longrightarrow> unat c \<le> length (cm_tokens (sys_cm s))"
    "t \<in> set (sys_tasks s) \<Longrightarrow> task_id t = Some c \<Longrightarrow> task_token t = Some (u, tok) \<Longrightarrow> unat c = Suc tok"
  using assms unfolding inv_ids_def by blast+

lemma unat_plus_one:
  assumes "unat (w :: u64) = Suc n" "Suc n < 2 ^ 64 - 1"
  shows "unat (w + 1) = Suc (Suc n)"
  using assms unat_add_lem [of w 1] by simp

text \<open>A task that moves on keeps its identifier, its token or loses them.\<close>

lemma inv_ids_move:
  assumes inv: "inv_ids s" and t: "t < length (sys_tasks s)"
    and x: "task_id x = None \<or> (task_id x = task_id (sys_tasks s ! t) \<and>
            (task_token x = None \<or> task_token x = task_token (sys_tasks s ! t)))"
    and cm: "next_conn_id cm = next_conn_id (sys_cm s)" "length (cm_tokens cm) = length (cm_tokens (sys_cm s))"
  shows "inv_ids (s\<lparr>sys_cm := cm, sys_tasks := (sys_tasks s)[t := x]\<rparr>)"
proof -
  have mem: "sys_tasks s ! t \<in> set (sys_tasks s)" using t by simp
  have "unique_ids ((sys_tasks s)[t := x])"
    by (rule unique_ids_same [OF inv_idsD(2) [OF inv] t]) (use x in auto)
  moreover have "\<forall>y \<in> set ((sys_tasks s)[t := x]). \<forall>c. task_id y = Some c \<longrightarrow> unat c \<le> length (cm_tokens (sys_cm s))"
    by (rule ball_update) (use inv_idsD(3) [OF inv] mem x in auto)
  moreover have "\<forall>y \<in> set ((sys_tasks s)[t := x]). \<forall>c u tok. task_id y = Some c \<longrightarrow>
      task_token y = Some (u, tok) \<longrightarrow> unat c = Suc tok"
    by (rule ball_update) (use inv_idsD(4) [OF inv] mem x in fastforce)+
  ultimately show ?thesis using inv_idsD(1) [OF inv] cm by (simp add: inv_ids_def)
qed

lemma inv_ids_take:
  assumes inv: "inv_ids s" and t: "t < length (sys_tasks s)"
    and take: "take_id (sys_cm s) = (c, tok, cm)" and bound: "length (cm_tokens cm) < 2 ^ 64 - 1"
  shows "inv_ids (s\<lparr>sys_cm := cm, sys_tasks := (sys_tasks s)[t := TTaken u c tok]\<rparr>)"
proof -
  note f = take_id_frames [OF take]
  let ?n = "length (cm_tokens (sys_cm s))"
  have c: "unat c = Suc ?n" using inv_idsD(1) [OF inv] by (simp add: f)
  have nxt: "unat (next_conn_id cm) = Suc (length (cm_tokens cm))"
    using unat_plus_one [OF inv_idsD(1) [OF inv]] bound by (simp add: f)
  have fresh: "task_id y \<noteq> Some c" if "y \<in> set (sys_tasks s)" for y
    using inv_idsD(3) [OF inv that, of c] c by auto
  have "unique_ids ((sys_tasks s)[t := TTaken u c tok])"
    by (rule unique_ids_fresh [OF inv_idsD(2) [OF inv] t]) (simp add: fresh)
  moreover have "\<forall>y \<in> set ((sys_tasks s)[t := TTaken u c tok]). \<forall>d. task_id y = Some d \<longrightarrow> unat d \<le> Suc ?n"
    by (rule ball_update) (use inv_idsD(3) [OF inv] c in \<open>auto simp: le_SucI\<close>)
  moreover have "\<forall>y \<in> set ((sys_tasks s)[t := TTaken u c tok]). \<forall>d v k. task_id y = Some d \<longrightarrow>
      task_token y = Some (v, k) \<longrightarrow> unat d = Suc k"
    by (rule ball_update) (use inv_idsD(4) [OF inv] c f(2) in auto)
  ultimately show ?thesis using nxt by (simp add: inv_ids_def f)
qed

lemma inv_ids_step:
  assumes inv: "inv_ids s" and step: "cm_step s s'"
    and bound: "length (cm_tokens (sys_cm s')) < 2 ^ 64 - 1"
  shows "inv_ids s'"
  using step
proof cases
  case (spawn u)
  then show ?thesis using inv by (auto simp: inv_ids_def unique_ids_snoc)
next
  case (take t u c tok cm)
  then show ?thesis using inv_ids_take [OF inv] bound by simp
next
  case (insert t u c tok)
  then show ?thesis using inv_ids_move [OF inv] by simp
next
  case (link t u c tok)
  then show ?thesis using inv_ids_move [OF inv] by simp
next
  case (remove t u c tok conn cm)
  then show ?thesis using inv_ids_move [OF inv] remove_conn_frames [OF remove(4)] by simp
next
  case (remove_none t u c tok cm)
  then show ?thesis using inv_ids_move [OF inv] remove_conn_frames [OF remove_none(4)] by simp
next
  case (unlink t u c)
  then show ?thesis using inv_ids_move [OF inv] by simp
next
  case (kick_visit k u c rem n n' cm)
  then show ?thesis using inv visit_frames [OF kick_visit(4)] by (simp add: inv_ids_def)
qed (use inv in \<open>simp_all add: inv_ids_def\<close>)

text \<open>The map of connections follows the tasks between \<open>insert\<close> and \<open>remove\<close>.\<close>

lemma inv_connsD:
  assumes "inv_conns s"
  shows "distinct (map fst (connections (sys_cm s)))"
    "map_of (connections (sys_cm s)) c = Some ac \<longleftrightarrow> (\<exists>t \<in> set (sys_tasks s). task_conn t = Some (c, ac))"
  using assms unfolding inv_conns_def by blast+

lemma task_conn_id: "task_conn t = Some (c, ac) \<Longrightarrow> task_id t = Some c"
  by (cases t) auto

lemma ex_conn_update:
  assumes "unique_ids ts" "t < length ts" "task_id (ts ! t) = Some c"
  shows "(\<exists>y \<in> set (ts[t := x]). task_conn y = Some (d, ac)) \<longleftrightarrow>
    task_conn x = Some (d, ac) \<or> (d \<noteq> c \<and> (\<exists>y \<in> set ts. task_conn y = Some (d, ac)))"
  unfolding set_update_iff [OF assms] using task_conn_id by fastforce

lemma inv_conns_same:
  assumes inv: "inv_conns s" and t: "t < length (sys_tasks s)"
    and x: "task_conn x = task_conn (sys_tasks s ! t)" and cm: "connections cm = connections (sys_cm s)"
  shows "inv_conns (s\<lparr>sys_cm := cm, sys_tasks := (sys_tasks s)[t := x]\<rparr>)"
proof -
  have "(\<exists>y \<in> set ((sys_tasks s)[t := x]). task_conn y = v) \<longleftrightarrow> (\<exists>y \<in> set (sys_tasks s). task_conn y = v)" for v
  proof (cases "task_conn (sys_tasks s ! t) = v")
    case True
    then show ?thesis using t x set_update_memI [OF t, of x] nth_mem [OF t] by metis
  next
    case False
    then show ?thesis using ex_update_iff [OF t, of "\<lambda>y. task_conn y = v"] x by simp
  qed
  then show ?thesis using inv cm by (simp add: inv_conns_def)
qed

lemma active_in_conns:
  assumes "inv_conns s" "t < length (sys_tasks s)" "sys_tasks s ! t = TActive u c tok"
  shows "map_of (connections (sys_cm s)) c = Some \<lparr>ac_user_id = u, ac_cancel_token = tok\<rparr>"
  using assms nth_mem [OF assms(2)] inv_connsD(2) [OF assms(1)] by fastforce

lemma inv_conns_step:
  assumes ids: "inv_ids s" and inv: "inv_conns s" and step: "cm_step s s'"
  shows "inv_conns s'"
  using step
proof cases
  case (take t u c tok cm)
  then show ?thesis using inv_conns_same [OF inv] take_id_frames [OF take(4)] by simp
next
  case (insert t u c tok)
  let ?ac = "\<lparr>ac_user_id = u, ac_cancel_token = tok\<rparr>"
  note upd = ex_conn_update [OF inv_idsD(2) [OF ids] insert(2), of c "TInserted u c tok"]
  show ?thesis
    unfolding insert(1) inv_conns_def using inv_connsD [OF inv] upd insert(3)
    by (auto simp: insert_conn_def update_conv' distinct_update)
next
  case (link t u c tok)
  then show ?thesis using inv_conns_same [OF inv] by simp
next
  case (remove t u c tok conn cm)
  note f = remove_conn_frames [OF remove(4)]
  note upd = ex_conn_update [OF inv_idsD(2) [OF ids] remove(2), of c "TRemoved (ac_user_id conn) c"]
  show ?thesis
    unfolding remove(1) inv_conns_def using inv_connsD [OF inv] upd remove(3)
    by (auto simp: f delete_conv' distinct_delete)
next
  case (remove_none t u c tok cm)
  then show ?thesis using active_in_conns [OF inv, of t] remove_conn_frames(1) [OF remove_none(4)] by simp
next
  case (unlink t u c)
  then show ?thesis using inv_conns_same [OF inv] by simp
next
  case (kick_visit k u c rem n n' cm)
  then show ?thesis using inv visit_frames [OF kick_visit(4)] by (simp add: inv_conns_def)
qed (use inv in \<open>auto simp: inv_conns_def\<close>)

text \<open>The sets of identifiers follow the tasks between \<open>link\<close> and \<open>unlink\<close>.\<close>

lemma inv_usersD:
  assumes "inv_users s"
  shows "distinct (map fst (user_connections (sys_cm s)))"
    "map_of (user_connections (sys_cm s)) u \<noteq> Some []"
    "c \<in> set (user_ids (sys_cm s) u) \<longleftrightarrow> (\<exists>t \<in> set (sys_tasks s). task_link t = Some (u, c))"
  using assms unfolding inv_users_def by blast+

lemma task_link_id: "task_link t = Some (u, c) \<Longrightarrow> task_id t = Some c"
  by (cases t) auto

lemma insert_user_wf:
  assumes "distinct (map fst (user_connections cm))" "\<forall>u. map_of (user_connections cm) u \<noteq> Some []"
  shows "distinct (map fst (user_connections (insert_user u c cm)))"
    "map_of (user_connections (insert_user u c cm)) v \<noteq> Some []"
  using assms by (auto simp: insert_user_def distinct_update update_conv' List.insert_def split: if_splits)

lemma remove_user_wf:
  assumes "distinct (map fst (user_connections cm))" "\<forall>u. map_of (user_connections cm) u \<noteq> Some []"
  shows "distinct (map fst (user_connections (remove_user u c cm)))"
    "map_of (user_connections (remove_user u c cm)) v \<noteq> Some []"
  using assms
  by (auto simp: remove_user_def Let_def distinct_update distinct_delete update_conv' delete_conv'
        split: option.splits if_splits)

lemma ex_link_update:
  assumes "unique_ids ts" "t < length ts" "task_id (ts ! t) = Some c"
  shows "(\<exists>y \<in> set (ts[t := x]). task_link y = Some (v, d)) \<longleftrightarrow>
    task_link x = Some (v, d) \<or> (d \<noteq> c \<and> (\<exists>y \<in> set ts. task_link y = Some (v, d)))"
  unfolding set_update_iff [OF assms] using task_link_id by fastforce

lemma inv_users_same:
  assumes inv: "inv_users s" and t: "t < length (sys_tasks s)"
    and x: "task_link x = task_link (sys_tasks s ! t)" and cm: "user_connections cm = user_connections (sys_cm s)"
  shows "inv_users (s\<lparr>sys_cm := cm, sys_tasks := (sys_tasks s)[t := x]\<rparr>)"
proof -
  have "(\<exists>y \<in> set ((sys_tasks s)[t := x]). task_link y = v) \<longleftrightarrow> (\<exists>y \<in> set (sys_tasks s). task_link y = v)" for v
  proof (cases "task_link (sys_tasks s ! t) = v")
    case True
    then show ?thesis using t x set_update_memI [OF t, of x] nth_mem [OF t] by metis
  next
    case False
    then show ?thesis using ex_update_iff [OF t, of "\<lambda>y. task_link y = v"] x by simp
  qed
  then show ?thesis using inv cm by (simp add: inv_users_def user_ids_def)
qed

lemma inv_users_step:
  assumes ids: "inv_ids s" and conns: "inv_conns s" and inv: "inv_users s" and step: "cm_step s s'"
  shows "inv_users s'"
  using step
proof cases
  case (take t u c tok cm)
  then show ?thesis using inv_users_same [OF inv] take_id_frames [OF take(4)] by simp
next
  case (insert t u c tok)
  then show ?thesis using inv_users_same [OF inv] by simp
next
  case (link t u c tok)
  note upd = ex_link_update [OF inv_idsD(2) [OF ids] link(2), of c "TActive u c tok"]
  have none: "task_link y \<noteq> Some (v, c)" if "y \<in> set (sys_tasks s)" for y v
    using unique_task [OF inv_idsD(2) [OF ids] link(2) _ that] link(3) task_link_id [of y v c] by auto
  show ?thesis
    unfolding link(1) inv_users_def using inv_usersD(3) [OF inv] upd link(3) none
      insert_user_wf [OF inv_usersD(1) [OF inv]] inv_usersD(2) [OF inv]
    by auto
next
  case (remove t u c tok conn cm)
  note f = remove_conn_frames [OF remove(4)]
  have "ac_user_id conn = u" using active_in_conns [OF conns remove(2,3)] f(1) by simp
  then show ?thesis using inv_users_same [OF inv] remove f by simp
next
  case (remove_none t u c tok cm)
  then show ?thesis using active_in_conns [OF conns, of t] remove_conn_frames(1) [OF remove_none(4)] by simp
next
  case (unlink t u c)
  note upd = ex_link_update [OF inv_idsD(2) [OF ids] unlink(2), of c TDone]
  have only: "v = u" if "y \<in> set (sys_tasks s)" "task_link y = Some (v, c)" for y v
    using unique_task [OF inv_idsD(2) [OF ids] unlink(2) _ that(1)] unlink(3) task_link_id [OF that(2)] that(2)
    by simp
  show ?thesis
    unfolding unlink(1) inv_users_def using inv_usersD(3) [OF inv] upd unlink(3) only
      remove_user_wf [OF inv_usersD(1) [OF inv]] inv_usersD(2) [OF inv]
    by auto
next
  case (kick_visit k u c rem n n' cm)
  then show ?thesis using inv visit_frames [OF kick_visit(4)] by (simp add: inv_users_def)
qed (use inv in \<open>auto simp: inv_users_def\<close>)

text \<open>A kicker that walks over a user's entry has cancelled what it has passed.\<close>

lemma inv_kickersD:
  assumes "inv_kickers s"
  shows "KWalk u rem n \<in> set (sys_kickers s) \<Longrightarrow> set rem \<subseteq> set (user_ids (sys_cm s) u)"
    "KWalk u rem n \<in> set (sys_kickers s) \<Longrightarrow> TActive u c tok \<in> set (sys_tasks s) \<Longrightarrow> c \<notin> set rem \<Longrightarrow>
       cm_tokens (sys_cm s) ! tok"
    "t \<in> set (sys_tasks s) \<Longrightarrow> task_token t = Some (u, tok) \<Longrightarrow> cm_tokens (sys_cm s) ! tok \<Longrightarrow>
       \<exists>k \<in> set (sys_kickers s). kicker_user k = u"
  using assms unfolding inv_kickers_def by blast+

lemma task_token_id: "task_token t = Some (u, tok) \<Longrightarrow> \<exists>c. task_id t = Some c"
  by (cases t) auto

lemma token_bound:
  assumes "inv_ids s" "t \<in> set (sys_tasks s)" "task_token t = Some (u, tok)"
  shows "tok < length (cm_tokens (sys_cm s))"
  using task_token_id [OF assms(3)] inv_idsD(3,4) [OF assms(1,2)] assms(3) by (metis Suc_le_eq)

text \<open>Tasks that move on without touching the tokens or the guarded entries.\<close>

lemma inv_kickers_move:
  assumes inv: "inv_kickers s" and t: "t < length (sys_tasks s)"
    and x: "task_token x = None \<or> task_token x = task_token (sys_tasks s ! t)"
    and act: "\<And>u c tok. x = TActive u c tok \<Longrightarrow> unguarded s u"
    and cm: "cm_tokens cm = cm_tokens (sys_cm s)"
    and ids: "\<And>u. \<not> unguarded s u \<Longrightarrow> set (user_ids cm u) = set (user_ids (sys_cm s) u)"
  shows "inv_kickers (s\<lparr>sys_cm := cm, sys_tasks := (sys_tasks s)[t := x]\<rparr>)"
proof -
  have g: "\<not> unguarded s u" if "KWalk u rem n \<in> set (sys_kickers s)" for u rem n
    using that by (auto simp: unguarded_def)
  have mem: "y = x \<or> y \<in> set (sys_tasks s)" if "y \<in> set ((sys_tasks s)[t := x])" for y
    using that set_update_subset_insert by fastforce
  have "\<exists>k \<in> set (sys_kickers s). kicker_user k = u"
    if "y \<in> set ((sys_tasks s)[t := x])" "task_token y = Some (u, tok)" "cm_tokens (sys_cm s) ! tok" for y u tok
  proof (cases "y = x")
    case True
    then show ?thesis using x that(2,3) inv_kickersD(3) [OF inv nth_mem [OF t], of u tok] by simp
  next
    case False
    then show ?thesis using mem [OF that(1)] inv_kickersD(3) [OF inv _ that(2,3)] by simp
  qed
  moreover have "cm_tokens (sys_cm s) ! tok"
    if "KWalk u rem n \<in> set (sys_kickers s)" "TActive u c tok \<in> set ((sys_tasks s)[t := x])" "c \<notin> set rem"
    for u rem n c tok
    using inv_kickersD(2) [OF inv that(1) _ that(3)] mem [OF that(2)] act g [OF that(1)] by metis
  moreover have "set rem \<subseteq> set (user_ids cm u)" if "KWalk u rem n \<in> set (sys_kickers s)" for u rem n
    using inv_kickersD(1) [OF inv that] ids [OF g [OF that]] by simp
  ultimately show ?thesis using cm by (auto simp: inv_kickers_def)
qed

lemma inv_kickers_take:
  assumes ids: "inv_ids s" and inv: "inv_kickers s" and t: "t < length (sys_tasks s)"
    and take: "take_id (sys_cm s) = (c, tok, cm)"
  shows "inv_kickers (s\<lparr>sys_cm := cm, sys_tasks := (sys_tasks s)[t := TTaken u c tok]\<rparr>)"
proof -
  note f = take_id_frames [OF take]
  have mem: "y = TTaken u c tok \<or> y \<in> set (sys_tasks s)"
    if "y \<in> set ((sys_tasks s)[t := TTaken u c tok])" for y
    using that set_update_subset_insert by fastforce
  have tok: "cm_tokens cm ! k = cm_tokens (sys_cm s) ! k"
    if "y \<in> set (sys_tasks s)" "task_token y = Some (v, k)" for y v k
    using token_bound [OF ids that] by (simp add: f nth_append)
  have "\<not> cm_tokens cm ! tok" by (simp add: f)
  then have "\<exists>k \<in> set (sys_kickers s). kicker_user k = v"
    if "y \<in> set ((sys_tasks s)[t := TTaken u c tok])" "task_token y = Some (v, k)" "cm_tokens cm ! k" for y v k
    using mem [OF that(1)] that(2,3) inv_kickersD(3) [OF inv] tok by fastforce
  moreover have "cm_tokens cm ! k"
    if "KWalk v rem n \<in> set (sys_kickers s)" "TActive v d k \<in> set ((sys_tasks s)[t := TTaken u c tok])" "d \<notin> set rem"
    for v rem n d k
    using inv_kickersD(2) [OF inv that(1) _ that(3)] mem [OF that(2)] tok by fastforce
  ultimately show ?thesis
    using inv_kickersD(1) [OF inv] by (auto simp: inv_kickers_def f)
qed

lemma nth_update_True: "xs ! i \<Longrightarrow> xs[j := True] ! i"
  by (cases "j = i"; cases "i < length xs") (auto simp: list_update_beyond)

text \<open>A token newly cancelled by a visit belongs to the user whose kick visits it.\<close>

lemma visit_own_user:
  assumes ids: "inv_ids s" and conns: "inv_conns s" and users: "inv_users s" and inv: "inv_kickers s"
    and walk: "KWalk u (c # rem) n \<in> set (sys_kickers s)" and v: "visit c (n, sys_cm s) = (n', cm)"
    and y: "y \<in> set (sys_tasks s)" "task_token y = Some (w, tok)" and new: "cm_tokens cm ! tok" "\<not> cm_tokens (sys_cm s) ! tok"
  shows "w = u"
proof -
  obtain ac where ac: "map_of (connections (sys_cm s)) c = Some ac" "ac_cancel_token ac = tok"
    using v new token_bound [OF ids y]
    by (auto simp: visit_def cancel_def split: option.splits) (metis nth_list_update_neq)
  then obtain z where z: "z \<in> set (sys_tasks s)" "task_conn z = Some (c, ac)"
    using inv_connsD(2) [OF conns] by blast
  obtain z' where z': "z' \<in> set (sys_tasks s)" "task_link z' = Some (u, c)"
    using inv_kickersD(1) [OF inv walk] inv_usersD(3) [OF users] by auto
  have same: "p = q" if "p \<in> set (sys_tasks s)" "q \<in> set (sys_tasks s)" "task_id p = Some d" "task_id q = Some d" for p q d
    using that unique_task [OF inv_idsD(2) [OF ids]] by (metis in_set_conv_nth)
  have "z = z'" using same [OF z(1) z'(1)] z z' task_conn_id task_link_id by blast
  then have zc: "z = TActive u c tok" using z z' ac by (cases z) auto
  obtain d where d: "task_id y = Some d" using task_token_id [OF y(2)] by blast
  then have "d = c"
    using inv_idsD(4) [OF ids y(1) d y(2)] inv_idsD(4) [OF ids z(1)] zc by (simp add: word_unat_eq_iff)
  then have "y = z" using same [OF y(1) z(1) d] zc by simp
  then show ?thesis using zc y(2) by simp
qed

lemma inv_kickers_visit:
  assumes ids: "inv_ids s" and conns: "inv_conns s" and users: "inv_users s" and inv: "inv_kickers s"
    and k: "k < length (sys_kickers s)" "sys_kickers s ! k = KWalk u (c # rem) n"
    and v: "visit c (n, sys_cm s) = (n', cm)"
  shows "inv_kickers (s\<lparr>sys_cm := cm, sys_kickers := (sys_kickers s)[k := KWalk u rem n']\<rparr>)"
proof -
  note f = visit_frames [OF v]
  have walk: "KWalk u (c # rem) n \<in> set (sys_kickers s)" using k nth_mem by fastforce
  have mem: "y = KWalk u rem n' \<or> y \<in> set (sys_kickers s)" if "y \<in> set ((sys_kickers s)[k := KWalk u rem n'])" for y
    using that set_update_subset_insert by fastforce
  have mono: "cm_tokens cm ! i" if "cm_tokens (sys_cm s) ! i" for i
    using v that by (auto simp: visit_def cancel_def nth_update_True split: option.splits)
  have hit: "cm_tokens cm ! tok" if a: "TActive u c tok \<in> set (sys_tasks s)" for tok
  proof -
    have "map_of (connections (sys_cm s)) c = Some \<lparr>ac_user_id = u, ac_cancel_token = tok\<rparr>"
      using inv_connsD(2) [OF conns] a by force
    then show ?thesis using v token_bound [OF ids a] by (auto simp: visit_def cancel_def)
  qed
  have own: "w = u" if "y \<in> set (sys_tasks s)" "task_token y = Some (w, tok)" "cm_tokens cm ! tok" "\<not> cm_tokens (sys_cm s) ! tok"
    for y w tok using visit_own_user [OF ids conns users inv walk v that] .
  have users': "\<exists>q \<in> set ((sys_kickers s)[k := KWalk u rem n']). kicker_user q = w"
    if "\<exists>q \<in> set (sys_kickers s). kicker_user q = w" for w
    using that k set_update_memI [OF k(1), of "KWalk u rem n'"]
    by (metis (no_types, lifting) in_set_conv_nth kicker_user.simps(1) length_list_update nth_list_update_neq)
  have "KWalk u rem n' \<in> set ((sys_kickers s)[k := KWalk u rem n'])" using k(1) by (rule set_update_memI)
  then have "\<exists>q \<in> set ((sys_kickers s)[k := KWalk u rem n']). kicker_user q = w"
    if "y \<in> set (sys_tasks s)" "task_token y = Some (w, tok)" "cm_tokens cm ! tok" for y w tok
    using own [OF that] users' inv_kickersD(3) [OF inv that(1,2)] by (metis kicker_user.simps(1))
  moreover have "set r \<subseteq> set (user_ids (sys_cm s) w)"
    if "KWalk w r m \<in> set ((sys_kickers s)[k := KWalk u rem n'])" for w r m
    using mem [OF that] inv_kickersD(1) [OF inv] walk by fastforce
  moreover have "cm_tokens cm ! tok"
    if "KWalk w r m \<in> set ((sys_kickers s)[k := KWalk u rem n'])" "TActive w d tok \<in> set (sys_tasks s)" "d \<notin> set r"
    for w r m d tok
    using mem [OF that(1)] inv_kickersD(2) [OF inv] walk that(2,3) hit mono
    by (metis kicker.inject(1) set_ConsD)
  ultimately show ?thesis by (auto simp: inv_kickers_def f)
qed

lemma inv_kickers_step:
  assumes ids: "inv_ids s" and conns: "inv_conns s" and users: "inv_users s" and inv: "inv_kickers s"
    and step: "cm_step s s'"
  shows "inv_kickers s'"
  using step
proof cases
  case (spawn u)
  then show ?thesis using inv by (auto simp: inv_kickers_def)
next
  case (take t u c tok cm)
  then show ?thesis using inv_kickers_take [OF ids inv] by simp
next
  case (insert t u c tok)
  show ?thesis unfolding insert(1) by (rule inv_kickers_move [OF inv insert(2)]) (simp_all add: insert(3))
next
  case (link t u c tok)
  show ?thesis unfolding link(1) by (rule inv_kickers_move [OF inv link(2)]) (use link(3,4) in auto)
next
  case (remove t u c tok conn cm)
  show ?thesis unfolding remove(1)
    by (rule inv_kickers_move [OF inv remove(2)]) (simp_all add: remove_conn_frames [OF remove(4)])
next
  case (remove_none t u c tok cm)
  show ?thesis unfolding remove_none(1)
    by (rule inv_kickers_move [OF inv remove_none(2)]) (simp_all add: remove_conn_frames [OF remove_none(4)])
next
  case (unlink t u c)
  show ?thesis unfolding unlink(1) by (rule inv_kickers_move [OF inv unlink(2)]) (use unlink(4) in auto)
next
  case (kick u)
  have "c \<in> set (user_ids (sys_cm s) u)" if "TActive u c tok \<in> set (sys_tasks s)" for c tok
    using inv_usersD(3) [OF users] that by force
  then show ?thesis using inv kick
    by (auto simp: inv_kickers_def user_ids_def split: option.splits)
next
  case (kick_visit k u c rem n n' cm)
  then show ?thesis using inv_kickers_visit [OF ids conns users inv] by simp
next
  case (kick_end k u n)
  have mem: "y = KDone u n \<or> y \<in> set (sys_kickers s)" if "y \<in> set ((sys_kickers s)[k := KDone u n])" for y
    using that set_update_subset_insert by fastforce
  have users': "\<exists>q \<in> set ((sys_kickers s)[k := KDone u n]). kicker_user q = w"
    if "\<exists>q \<in> set (sys_kickers s). kicker_user q = w" for w
    using that kick_end set_update_memI [of k "sys_kickers s" "KDone u n"]
    by (metis (no_types, lifting) in_set_conv_nth kicker_user.simps length_list_update nth_list_update_neq)
  show ?thesis
    using inv_kickersD [OF inv] mem users' unfolding kick_end(1) inv_kickers_def by simp (metis kicker.distinct(1))
qed

lemma cm_step_tokens: "cm_step s s' \<Longrightarrow> length (cm_tokens (sys_cm s)) \<le> length (cm_tokens (sys_cm s'))"
  by (induction rule: cm_step.induct)
     (auto dest: take_id_frames remove_conn_frames(5) visit_frames(5))

lemma cm_inv_init: "cm_inv cm_init"
  by (simp add: cm_inv_def inv_ids_def inv_conns_def inv_users_def inv_kickers_def cm_init_def cm_new_def
        unique_ids_def user_ids_def)

lemma cm_reachable_inv:
  "cm_reachable s \<Longrightarrow> length (cm_tokens (sys_cm s)) < 2 ^ 64 - 1 \<Longrightarrow> cm_inv s"
proof (induction rule: cm_reachable.induct)
  case (step s s')
  then have "cm_inv s" using cm_step_tokens [OF step(2)] by linarith
  then show ?case
    using step.hyps(2) step.prems inv_ids_step inv_conns_step inv_users_step inv_kickers_step
    unfolding cm_inv_def by blast
qed (rule cm_inv_init)

section \<open>Sequential behaviour of the operations\<close>

text \<open>The registry as it is between operations: both maps tell the same story.\<close>

definition cm_wf :: "connection_manager \<Rightarrow> bool" where
  "cm_wf cm \<longleftrightarrow>
     distinct (map fst (connections cm)) \<and>
     (\<forall>u. distinct (user_ids cm u)) \<and>
     (\<forall>u c. c \<in> set (user_ids cm u) \<longleftrightarrow> (\<exists>ac. map_of (connections cm) c = Some ac \<and> ac_user_id ac = u)) \<and>
     (\<forall>c ac. map_of (connections cm) c = Some ac \<longrightarrow> ac_cancel_token ac < length (cm_tokens cm))"

text \<open>The tokens that belong to the identifiers \<open>ids\<close>.\<close>

definition tokens_of :: "connection_manager \<Rightarrow> connection_id set \<Rightarrow> nat set" where
  "tokens_of cm ids = {ac_cancel_token ac | c ac. c \<in> ids \<and> map_of (connections cm) c = Some ac}"

lemma cancel_tokens:
  "i < length (cm_tokens cm) \<Longrightarrow> cm_tokens (cancel tok cm) ! i \<longleftrightarrow> cm_tokens cm ! i \<or> i = tok"
  by (cases "tok = i") (auto simp: cancel_def)

lemma fold_visit:
  assumes "\<forall>c \<in> set ids. \<exists>ac. map_of (connections cm) c = Some ac"
  shows "case fold visit ids (n, cm) of (n', cm') \<Rightarrow>
    n' = n + length ids \<and> connections cm' = connections cm \<and> user_connections cm' = user_connections cm \<and>
    next_conn_id cm' = next_conn_id cm \<and> length (cm_tokens cm') = length (cm_tokens cm) \<and>
    (\<forall>i < length (cm_tokens cm). cm_tokens cm' ! i \<longleftrightarrow> cm_tokens cm ! i \<or> i \<in> tokens_of cm (set ids))"
  using assms
proof (induction ids arbitrary: n cm)
  case Nil
  then show ?case by (simp add: tokens_of_def)
next
  case (Cons c ids)
  from Cons.prems obtain ac where ac: "map_of (connections cm) c = Some ac" by auto
  let ?cm = "cancel (ac_cancel_token ac) cm"
  have v: "visit c (n, cm) = (n + 1, ?cm)" by (simp add: visit_def ac)
  have t: "tokens_of cm (insert c (set ids)) = insert (ac_cancel_token ac) (tokens_of ?cm (set ids))"
    using ac by (auto simp: tokens_of_def)
  have "\<forall>c \<in> set ids. \<exists>ac. map_of (connections ?cm) c = Some ac" using Cons.prems by simp
  from Cons.IH [OF this, of "n + 1"] show ?case
    by (auto simp: v t cancel_tokens split: prod.splits)
qed

lemma fold_cancel_all:
  "case fold (\<lambda>(_, conn) (k, cm). (k + 1, cancel (ac_cancel_token conn) cm)) es (n, cm) of (n', cm') \<Rightarrow>
     n' = n + length es \<and> connections cm' = connections cm \<and> user_connections cm' = user_connections cm \<and>
     (\<forall>i < length (cm_tokens cm). cm_tokens cm' ! i \<longleftrightarrow> cm_tokens cm ! i \<or> i \<in> ac_cancel_token ` snd ` set es)"
proof (induction es arbitrary: n cm)
  case (Cons e es)
  then show ?case
    using Cons.IH [of "Suc n" "cancel (ac_cancel_token (snd e)) cm"]
    by (cases e) (auto simp: cancel_tokens split: prod.splits)
qed simp

text \<open>A registry is well-formed when it is new and after every operation.\<close>

lemma cm_wfD:
  assumes "cm_wf cm"
  shows "distinct (map fst (connections cm))" "distinct (user_ids cm u)"
    "c \<in> set (user_ids cm u) \<longleftrightarrow> (\<exists>ac. map_of (connections cm) c = Some ac \<and> ac_user_id ac = u)"
    "map_of (connections cm) c = Some ac \<Longrightarrow> ac_cancel_token ac < length (cm_tokens cm)"
  using assms unfolding cm_wf_def by blast+

lemma register_eqs:
  assumes "register u cm = ((c, tok), cm')"
  shows "c = next_conn_id cm" "tok = length (cm_tokens cm)"
    "map_of (connections cm') = (map_of (connections cm))(c \<mapsto> \<lparr>ac_user_id = u, ac_cancel_token = tok\<rparr>)"
    "user_ids cm' v = (if v = u then List.insert c (user_ids cm u) else user_ids cm v)"
    "cm_tokens cm' = cm_tokens cm @ [False]"
    "distinct (map fst (connections cm)) \<Longrightarrow> distinct (map fst (connections cm'))"
  using assms
  by (auto simp: register_def take_id_def insert_conn_def insert_user_def user_ids_def update_conv'
        distinct_update Let_def)

lemma user_ids_removed:
  "user_ids (remove_user u c cm) v = (if v = u then removeAll c (user_ids cm u) else user_ids cm v)"
  by (auto simp: user_ids_def remove_user_def update_conv' delete_conv' Let_def split: option.split)

lemma register_wf:
  assumes wf: "cm_wf cm" and fresh: "map_of (connections cm) (next_conn_id cm) = None"
    and r: "register u cm = ((c, tok), cm')"
  shows "cm_wf cm'"
  unfolding cm_wf_def
  using cm_wfD [OF wf] fresh
  by (auto simp: register_eqs [OF r] less_SucI distinct_insert)

lemma unregister_eqs:
  assumes "map_of (connections cm) c = Some ac"
  shows "map_of (connections (unregister c cm)) = (map_of (connections cm))(c := None)"
    "user_ids (unregister c cm) v =
       (if v = ac_user_id ac then removeAll c (user_ids cm v) else user_ids cm v)"
    "cm_tokens (unregister c cm) = cm_tokens cm"
    "distinct (map fst (connections cm)) \<Longrightarrow> distinct (map fst (connections (unregister c cm)))"
  using assms
  by (simp_all add: unregister_def remove_conn_def delete_conv' user_ids_removed distinct_delete)
     (simp add: user_ids_def)

lemma unregister_gone: "map_of (connections (unregister c cm)) c = None"
proof (cases "map_of (connections cm) c")
  case None
  then show ?thesis by (simp add: unregister_def remove_conn_def delete_conv')
next
  case (Some conn)
  then show ?thesis by (simp add: unregister_eqs [OF Some])
qed

lemma unregister_register:
  assumes wf: "cm_wf cm" and fresh: "map_of (connections cm) (next_conn_id cm) = None"
    and r: "register u cm = ((c, tok), cm')"
  shows "map_of (connections (unregister c cm')) = map_of (connections cm)" "user_ids (unregister c cm') = user_ids cm"
proof -
  note e = register_eqs [OF r]
  have c': "map_of (connections cm') c = Some \<lparr>ac_user_id = u, ac_cancel_token = tok\<rparr>" by (simp add: e)
  have "c \<notin> set (user_ids cm v)" for v
    using cm_wfD(3) [OF wf] fresh e(1) by simp
  then show "user_ids (unregister c cm') = user_ids cm"
    by (auto simp: unregister_eqs [OF c'] e(4))
  show "map_of (connections (unregister c cm')) = map_of (connections cm)"
    unfolding unregister_eqs(1) [OF c'] e(3) using fresh e(1) by auto
qed

lemma unregister_wf:
  assumes wf: "cm_wf cm"
  shows "cm_wf (unregister c cm)"
proof (cases "map_of (connections cm) c")
  case None
  then have "c \<notin> fst ` set (connections cm)" by (simp add: map_of_eq_None_iff)
  then have "unregister c cm = cm" by (simp add: unregister_def remove_conn_def None)
  then show ?thesis using wf by simp
next
  case (Some ac)
  show ?thesis
    unfolding cm_wf_def using cm_wfD [OF wf] Some
    by (auto simp: unregister_eqs [OF Some] distinct_removeAll)
qed

lemma kick_user_spec:
  assumes wf: "cm_wf cm"
  shows "fst (kick_user u cm) = length (user_ids cm u)"
    "connections (snd (kick_user u cm)) = connections cm"
    "user_connections (snd (kick_user u cm)) = user_connections cm"
  and kick_user_tokens: "i < length (cm_tokens cm) \<Longrightarrow> cm_tokens (snd (kick_user u cm)) ! i \<longleftrightarrow>
      cm_tokens cm ! i \<or>
      (\<exists>c ac. map_of (connections cm) c = Some ac \<and> ac_user_id ac = u \<and> ac_cancel_token ac = i)"
proof -
  have k: "kick_user u cm = fold visit (user_ids cm u) (0, cm)"
    by (simp add: kick_user_def user_ids_def split: option.split)
  have "\<forall>c \<in> set (user_ids cm u). \<exists>ac. map_of (connections cm) c = Some ac"
    using cm_wfD(3) [OF wf] by blast
  note f = fold_visit [OF this, of 0]
  show "fst (kick_user u cm) = length (user_ids cm u)"
    "connections (snd (kick_user u cm)) = connections cm"
    "user_connections (snd (kick_user u cm)) = user_connections cm"
    using f by (simp_all add: k split: prod.splits)
  have "i \<in> tokens_of cm (set (user_ids cm u)) \<longleftrightarrow>
      (\<exists>c ac. map_of (connections cm) c = Some ac \<and> ac_user_id ac = u \<and> ac_cancel_token ac = i)"
    using cm_wfD(3) [OF wf] by (auto simp: tokens_of_def) blast
  then show "i < length (cm_tokens cm) \<Longrightarrow> cm_tokens (snd (kick_user u cm)) ! i \<longleftrightarrow>
      cm_tokens cm ! i \<or>
      (\<exists>c ac. map_of (connections cm) c = Some ac \<and> ac_user_id ac = u \<and> ac_cancel_token ac = i)"
    using f by (simp add: k split: prod.splits)
qed

lemma cancel_all_spec:
  assumes wf: "cm_wf cm"
  shows "fst (cancel_all cm) = connection_count cm" "connections (snd (cancel_all cm)) = connections cm"
    "i < length (cm_tokens cm) \<Longrightarrow> cm_tokens (snd (cancel_all cm)) ! i \<longleftrightarrow>
       cm_tokens cm ! i \<or> (\<exists>c ac. map_of (connections cm) c = Some ac \<and> ac_cancel_token ac = i)"
proof -
  have "i \<in> ac_cancel_token ` snd ` set (connections cm) \<longleftrightarrow>
      (\<exists>c ac. map_of (connections cm) c = Some ac \<and> ac_cancel_token ac = i)"
    by (force simp: map_of_eq_Some_iff [OF cm_wfD(1) [OF wf]])
  then show "fst (cancel_all cm) = connection_count cm" "connections (snd (cancel_all cm)) = connections cm"
    "i < length (cm_tokens cm) \<Longrightarrow> cm_tokens (snd (cancel_all cm)) ! i \<longleftrightarrow>
       cm_tokens cm ! i \<or> (\<exists>c ac. map_of (connections cm) c = Some ac \<and> ac_cancel_token ac = i)"
    using fold_cancel_all [where es = "connections cm" and n = 0 and cm = cm]
    by (simp_all add: cancel_all_def connection_count_def split: prod.splits)
qed

section \<open>A concrete run\<close>

text \<open>One connection of user 7 registers; then the user is kicked.\<close>

definition demo_active :: cm_sys where
  "demo_active =
     \<lparr>sys_cm = \<lparr>next_conn_id = 2, connections = [(1, \<lparr>ac_user_id = 7, ac_cancel_token = 0\<rparr>)],
                user_connections = [(7, [1])], cm_tokens = [False]\<rparr>,
      sys_tasks = [TActive 7 1 0], sys_kickers = []\<rparr>"

definition demo_kicked :: cm_sys where
  "demo_kicked =
     demo_active\<lparr>sys_cm := (sys_cm demo_active)\<lparr>cm_tokens := [True]\<rparr>, sys_kickers := [KWalk 7 [] 1]\<rparr>"

lemma demo_active_reachable: "cm_reachable demo_active"
proof -
  have "cm_reachable \<lparr>sys_cm = cm_new, sys_tasks = [TStart 7], sys_kickers = []\<rparr>"
    using cm_reachable.step [OF cm_reachable.init cm_step.spawn [of _ 7]] by (simp add: cm_init_def)
  from cm_reachable.step [OF this cm_step.take [of 0 _ 7 1 0]]
  have "cm_reachable \<lparr>sys_cm = \<lparr>next_conn_id = 2, connections = [], user_connections = [], cm_tokens = [False]\<rparr>,
      sys_tasks = [TTaken 7 1 0], sys_kickers = []\<rparr>"
    by (simp add: take_id_def cm_new_def)
  from cm_reachable.step [OF this cm_step.insert [of 0 _ 7 1 0]]
  have "cm_reachable \<lparr>sys_cm = \<lparr>next_conn_id = 2, connections = [(1, \<lparr>ac_user_id = 7, ac_cancel_token = 0\<rparr>)],
      user_connections = [], cm_tokens = [False]\<rparr>, sys_tasks = [TInserted 7 1 0], sys_kickers = []\<rparr>"
    by (simp add: insert_conn_def)
  from cm_reachable.step [OF this cm_step.link [of 0 _ 7 1 0]]
  show ?thesis by (simp add: insert_user_def user_ids_def unguarded_def demo_active_def)
qed

lemma demo_kicked_reachable: "cm_reachable demo_kicked"
proof -
  have "cm_reachable (demo_active\<lparr>sys_kickers := [KWalk 7 [1] 0]\<rparr>)"
    using cm_reachable.step [OF demo_active_reachable cm_step.kick [of _ 7]] by (simp add: demo_active_def)
  from cm_reachable.step [OF this cm_step.kick_visit [of 0 _ 7 1 "[]" 0 1 "(sys_cm demo_active)\<lparr>cm_tokens := [True]\<rparr>"]]
  show ?thesis by (simp add: demo_kicked_def demo_active_def visit_def cancel_def)
qed

section \<open>Properties\<close>

text \<open>
  C22: Under every interleaving of registrations, removals and kicks (and fewer than
  \<open>2^64 - 1\<close> registrations), the registry is consistent: live identifiers are distinct, the map of
  connections holds exactly the connections whose task is between insertion and removal, with
  their own user and token, and a user's set holds exactly the tasks between linking and
  unlinking.  When every task has finished, both maps are empty: nothing leaks.
\<close>

theorem registry_consistent:
  assumes "cm_reachable s" and "length (cm_tokens (sys_cm s)) < 2 ^ 64 - 1"
  shows "unique_ids (sys_tasks s) \<and>
    (\<forall>c ac. map_of (connections (sys_cm s)) c = Some ac \<longleftrightarrow>
       TInserted (ac_user_id ac) c (ac_cancel_token ac) \<in> set (sys_tasks s) \<or>
       TActive (ac_user_id ac) c (ac_cancel_token ac) \<in> set (sys_tasks s)) \<and>
    (\<forall>u c. c \<in> set (user_ids (sys_cm s) u) \<longleftrightarrow>
       (\<exists>tok. TActive u c tok \<in> set (sys_tasks s)) \<or> TRemoved u c \<in> set (sys_tasks s)) \<and>
    (set (sys_tasks s) \<subseteq> {TDone} \<longrightarrow> connection_count (sys_cm s) = 0 \<and> user_count (sys_cm s) = 0)"
proof -
  have inv: "inv_ids s" "inv_conns s" "inv_users s"
    using cm_reachable_inv [OF assms] by (simp_all add: cm_inv_def)
  have c: "(\<exists>t \<in> set (sys_tasks s). task_conn t = Some (c, ac)) \<longleftrightarrow>
      TInserted (ac_user_id ac) c (ac_cancel_token ac) \<in> set (sys_tasks s) \<or>
      TActive (ac_user_id ac) c (ac_cancel_token ac) \<in> set (sys_tasks s)" for c ac
    by (auto elim!: task_conn.elims) force+
  have u: "(\<exists>t \<in> set (sys_tasks s). task_link t = Some (u, c)) \<longleftrightarrow>
      (\<exists>tok. TActive u c tok \<in> set (sys_tasks s)) \<or> TRemoved u c \<in> set (sys_tasks s)" for u c
    by (auto elim!: task_link.elims) force+
  have "connections (sys_cm s) = [] \<and> user_connections (sys_cm s) = []" if d: "set (sys_tasks s) \<subseteq> {TDone}"
  proof -
    have "map_of (connections (sys_cm s)) c \<noteq> Some ac" for c ac
      using inv_connsD(2) [OF inv(2), of c ac] d by auto
    then have "map_of (connections (sys_cm s)) c = None" for c by (metis not_Some_eq)
    moreover have "map_of (user_connections (sys_cm s)) u = None" for u
    proof -
      have "c \<notin> set (user_ids (sys_cm s) u)" for c using inv_usersD(3) [OF inv(3), of c u] d by auto
      then have "user_ids (sys_cm s) u = []" by (metis list.set_intros(1) neq_Nil_conv)
      then show ?thesis using inv_usersD(2) [OF inv(3), of u] by (simp add: user_ids_def split: option.splits)
    qed
    ultimately show ?thesis by (metis map_of_eq_empty_iff)
  qed
  then show ?thesis
    using inv_idsD(2) [OF inv(1)] inv_connsD(2) [OF inv(2)] inv_usersD(3) [OF inv(3)] c u
    by (simp add: connection_count_def user_count_def)
qed

theorem registry_consistent_witness:
  "map_of (connections (sys_cm demo_active)) 1 = Some \<lparr>ac_user_id = 7, ac_cancel_token = 0\<rparr> \<longleftrightarrow>
     TActive 7 1 0 \<in> set (sys_tasks demo_active) \<or> TInserted 7 1 0 \<in> set (sys_tasks demo_active)"
proof -
  have "length (cm_tokens (sys_cm demo_active)) < 2 ^ 64 - 1" by (simp add: demo_active_def)
  from registry_consistent [OF demo_active_reachable this] show ?thesis by auto
qed



text \<open>
  What a kick cannot reach: a connection that has been authenticated but links itself to its user
  only after the kick has looked the user up.  It is active with a token nobody has cancelled.
\<close>

lemma late_registration_escapes:
  "\<exists>s. cm_reachable s \<and> KDone 7 0 \<in> set (sys_kickers s) \<and> TActive 7 1 0 \<in> set (sys_tasks s) \<and> \<not> cm_tokens (sys_cm s) ! 0"
proof -
  have "cm_reachable \<lparr>sys_cm = cm_new, sys_tasks = [TStart 7], sys_kickers = []\<rparr>"
    using cm_reachable.step [OF cm_reachable.init cm_step.spawn [of _ 7]] by (simp add: cm_init_def)
  from cm_reachable.step [OF this cm_step.kick [of _ 7]]
  have "cm_reachable \<lparr>sys_cm = cm_new, sys_tasks = [TStart 7], sys_kickers = [KDone 7 0]\<rparr>" by (simp add: cm_new_def)
  from cm_reachable.step [OF this cm_step.take [of 0 _ 7 1 0]]
  have "cm_reachable \<lparr>sys_cm = \<lparr>next_conn_id = 2, connections = [], user_connections = [], cm_tokens = [False]\<rparr>,
      sys_tasks = [TTaken 7 1 0], sys_kickers = [KDone 7 0]\<rparr>"
    by (simp add: take_id_def cm_new_def)
  from cm_reachable.step [OF this cm_step.insert [of 0 _ 7 1 0]]
  have "cm_reachable \<lparr>sys_cm = \<lparr>next_conn_id = 2, connections = [(1, \<lparr>ac_user_id = 7, ac_cancel_token = 0\<rparr>)],
      user_connections = [], cm_tokens = [False]\<rparr>, sys_tasks = [TInserted 7 1 0], sys_kickers = [KDone 7 0]\<rparr>"
    by (simp add: insert_conn_def)
  from cm_reachable.step [OF this cm_step.link [of 0 _ 7 1 0]]
  have "cm_reachable (demo_active\<lparr>sys_kickers := [KDone 7 0]\<rparr>)"
    by (simp add: insert_user_def user_ids_def unguarded_def demo_active_def)
  then show ?thesis by (intro exI [of _ "demo_active\<lparr>sys_kickers := [KDone 7 0]\<rparr>"]) (simp add: demo_active_def)
qed

text \<open>
  On a well-formed registry \<open>kick_user\<close> returns the number of the user's connections and
  cancels exactly their tokens, \<open>cancel_all\<close> returns the number of connections and cancels the token
  of each, and neither removes anything from the maps.
\<close>

lemma kick_and_cancel_spec:
  assumes wf: "cm_wf cm" and i: "i < length (cm_tokens cm)"
  shows "fst (kick_user u cm) = length (user_ids cm u) \<and>
    connections (snd (kick_user u cm)) = connections cm \<and>
    user_connections (snd (kick_user u cm)) = user_connections cm \<and>
    (cm_tokens (snd (kick_user u cm)) ! i \<longleftrightarrow>
       cm_tokens cm ! i \<or>
       (\<exists>c ac. map_of (connections cm) c = Some ac \<and> ac_user_id ac = u \<and> ac_cancel_token ac = i)) \<and>
    fst (cancel_all cm) = connection_count cm \<and>
    connections (snd (cancel_all cm)) = connections cm \<and>
    (cm_tokens (snd (cancel_all cm)) ! i \<longleftrightarrow>
       cm_tokens cm ! i \<or> (\<exists>c ac. map_of (connections cm) c = Some ac \<and> ac_cancel_token ac = i))"
  using kick_user_spec [OF wf] kick_user_tokens [OF wf i] cancel_all_spec [OF wf] i by simp

text \<open>
  Registering a connection under a fresh identifier keeps the registry well-formed, hands
  out a token that is not cancelled and makes the connection visible to a kick of its user;
  unregistering it keeps the registry well-formed and restores the contents of both maps.
\<close>

lemma register_unregister:
  assumes wf: "cm_wf cm" and fresh: "map_of (connections cm) (next_conn_id cm) = None"
    and r: "register u cm = ((c, tok), cm')"
  shows "cm_wf cm' \<and> \<not> cm_tokens cm' ! tok \<and> cm_tokens (snd (kick_user u cm')) ! tok \<and>
    cm_wf (unregister c cm') \<and>
    map_of (connections (unregister c cm')) = map_of (connections cm) \<and>
    user_ids (unregister c cm') = user_ids cm"
proof -
  note e = register_eqs [OF r]
  have wf': "cm_wf cm'" using register_wf [OF assms] .
  have c': "map_of (connections cm') c = Some \<lparr>ac_user_id = u, ac_cancel_token = tok\<rparr>" by (simp add: e)
  have "cm_tokens (snd (kick_user u cm')) ! tok"
    using kick_user_tokens [OF wf', of tok u] c' by (force simp: e(2,5))
  then show ?thesis using wf' unregister_wf [OF wf'] unregister_register [OF assms] by (auto simp: e(2,5))
qed

end
