(* ===== verification/Config.thy ===== *)
theory Config
  imports Config_Auto
begin

text \<open>
  \<open>src/src/config.rs\<close> and \<open>src/src/logger.rs\<close>: the command line, its validation, and the two
  configurations built from it and from the panel's answer.

  A \<open>Duration\<close> is a number of nanoseconds.  Parameters stand for what lies outside the sources:
  \<open>exists\<close> is the file system, \<open>lower\<close> is \<open>str::to_lowercase\<close> (the Unicode tables), \<open>humantime\<close> the
  duration parser and \<open>fmt_max\<close> the printed form of the largest duration.  The clap derive macro and
  serde are not modelled: a command line is its record of values.
\<close>

section \<open>Durations and strings\<close>

type_synonym duration = nat

definition from_secs :: "nat \<Rightarrow> duration" where "from_secs n = n * 1000000000"

definition as_secs :: "duration \<Rightarrow> nat" where "as_secs d = d div 1000000000"

text \<open>On ASCII text \<open>to_lowercase\<close> lowers the letters; that is all the code relies on.\<close>

definition lowers_ascii :: "(string \<Rightarrow> string) \<Rightarrow> bool" where
  "lowers_ascii lower \<longleftrightarrow>
     (\<forall>s. (\<forall>c \<in> set s. of_char c < (128 :: nat)) \<longrightarrow> lower s = map to_ascii_lowercase s)"

text \<open>
  \<open>str::trim\<close> removes the Unicode white space at both ends; these are the UTF-8 forms of the
  characters with that property.
\<close>

definition white_space :: "string list" where
  "white_space =
     map (map char_of)
       ([[9], [10], [11], [12], [13], [32], [0xC2, 0x85], [0xC2, 0xA0], [0xE1, 0x9A, 0x80 :: nat]]
        @ map (\<lambda>k. [0xE2, 0x80, 0x80 + k]) [0..<11]
        @ [[0xE2, 0x80, 0xA8], [0xE2, 0x80, 0xA9], [0xE2, 0x80, 0xAF], [0xE2, 0x81, 0x9F], [0xE3, 0x80, 0x80]])"

fun strip_any :: "string list \<Rightarrow> string \<Rightarrow> string option" where
  "strip_any [] s = None"
| "strip_any (w # ws) s =
     (if w \<noteq> [] \<and> take (length w) s = w then Some (drop (length w) s) else strip_any ws s)"

lemma strip_any_length: "strip_any ws s = Some r \<Longrightarrow> length r < length s"
proof (induction ws)
  case (Cons w ws)
  then show ?case by (cases s) (auto split: if_splits)
qed simp

function strip_all :: "string list \<Rightarrow> string \<Rightarrow> string" where
  "strip_all ws s = (case strip_any ws s of None \<Rightarrow> s | Some r \<Rightarrow> strip_all ws r)"
  by auto
termination strip_all
  by (relation "measure (\<lambda>(_, s). length s)") (auto dest: strip_any_length)

declare strip_all.simps [simp del]

definition trim_start :: "string \<Rightarrow> string" where
  "trim_start s = strip_all white_space s"

definition trim_end :: "string \<Rightarrow> string" where
  "trim_end s = rev (strip_all (map rev white_space) (rev s))"

definition trim :: "string \<Rightarrow> string" where
  "trim s = trim_end (trim_start s)"

text \<open>\<open>Path::file_name\<close> and \<open>Path::extension\<close> on Unix.\<close>

fun split_on :: "char \<Rightarrow> string \<Rightarrow> string list" where
  "split_on c [] = [[]]"
| "split_on c (x # xs) =
     (if x = c then [] # split_on c xs
      else (case split_on c xs of w # ws \<Rightarrow> (x # w) # ws | [] \<Rightarrow> [[x]]))"

definition file_name :: "string \<Rightarrow> string option" where
  "file_name p =
     (case rev (filter (\<lambda>w. w \<noteq> [] \<and> w \<noteq> ''.'') (split_on (CHR ''/'') p)) of
        [] \<Rightarrow> None
      | w # _ \<Rightarrow> if w = ''..'' then None else Some w)"

definition extension :: "string \<Rightarrow> string option" where
  "extension p =
     (case file_name p of
        None \<Rightarrow> None
      | Some f \<Rightarrow>
          (case rev (split_on (CHR ''.'') f) of
             ext # stem # rest \<Rightarrow> if concat (stem # rest) = [] \<and> length (stem # rest) = 1 then None else Some ext
           | _ \<Rightarrow> None))"

section \<open>The command line\<close>

datatype ip_version = IpV4 | IpV6 | IpAuto

definition parse_ip_version :: "(string \<Rightarrow> string) \<Rightarrow> string \<Rightarrow> string + ip_version" where
  "parse_ip_version lower s =
     (let l = lower s in
      if l = ''v4'' \<or> l = ''ipv4'' \<or> l = ''4'' then Inr IpV4
      else if l = ''v6'' \<or> l = ''ipv6'' \<or> l = ''6'' then Inr IpV6
      else if l = ''auto'' \<or> l = ''dual'' then Inr IpAuto
      else Inl (''Invalid IP version '' @ quoted l @ ''. Use '' @ quoted ''v4'' @ '', '' @ quoted ''v6''
                @ '', or '' @ quoted ''auto''))"

definition parse_duration :: "(string \<Rightarrow> duration option) \<Rightarrow> string \<Rightarrow> string + duration" where
  "parse_duration humantime s =
     (case humantime s of
        Some d \<Rightarrow> Inr d
      | None \<Rightarrow>
          (case parse_usize s of
             Some n \<Rightarrow> Inr (from_secs (unat n))
           | None \<Rightarrow> Inl (''Invalid duration '' @ quoted s @ ''. Use formats like '' @ quoted ''60s'' @ '', ''
                          @ quoted ''2m'' @ '', '' @ quoted ''1h'' @ '' or plain seconds'')))"

datatype log_level = Trace | Debug | Info | Warn | LError

definition log_level_from_str :: "(string \<Rightarrow> string) \<Rightarrow> string \<Rightarrow> unit + log_level" where
  "log_level_from_str lower s =
     (let l = lower s in
      if l = ''trace'' then Inr Trace
      else if l = ''debug'' then Inr Debug
      else if l = ''info'' then Inr Info
      else if l = ''warn'' then Inr Warn
      else if l = ''error'' then Inr LError
      else Inl ())"

record cli_args =
  cli_api :: string
  cli_token :: string
  cli_node :: int
  cli_cert_file :: string
  cli_key_file :: string
  cli_fetch_users_interval :: duration
  cli_report_traffics_interval :: duration
  cli_heartbeat_interval :: duration
  cli_api_timeout :: duration
  cli_log_mode :: string
  cli_data_dir :: string
  cli_acl_conf_file :: "string option"
  cli_block_private_ip :: bool
  cli_conn_idle_timeout :: duration
  cli_tcp_connect_timeout :: duration
  cli_request_timeout :: duration
  cli_tls_handshake_timeout :: duration
  cli_buffer_size :: nat
  cli_tcp_backlog :: int
  cli_tcp_nodelay :: bool
  cli_uplink_only_timeout :: duration
  cli_downlink_only_timeout :: duration
  cli_max_connections :: max_connections
  cli_refresh_geodata :: bool
  cli_panel_ip_version :: ip_version

definition MAX_BUFFER_SIZE :: nat where "MAX_BUFFER_SIZE = 4 * 1024 * 1024"
definition MAX_DURATION :: duration where "MAX_DURATION = from_secs (30 * 24 * 3600)"

text \<open>\<open>tokio::sync::Semaphore::MAX_PERMITS\<close> is \<open>usize::MAX >> 3\<close>.\<close>

definition MAX_PERMITS :: nat where "MAX_PERMITS = (2 ^ 64 - 1) div 8"

text \<open>The loops of \<open>validate\<close> over named durations: the first that fails the test is reported.\<close>

fun first_bad :: "(duration \<Rightarrow> bool) \<Rightarrow> (string \<times> duration) list \<Rightarrow> string option" where
  "first_bad bad [] = None"
| "first_bad bad ((name, d) # ds) = (if bad d then Some name else first_bad bad ds)"

definition validate_acl :: "(string \<Rightarrow> bool) \<Rightarrow> cli_args \<Rightarrow> string + unit" where
  "validate_acl exists cli =
     (case cli_acl_conf_file cli of
        None \<Rightarrow> Inr ()
      | Some path \<Rightarrow>
          if \<not> exists path then Inl (''ACL config file not found: '' @ path)
          else
            let ext = (case extension path of Some e \<Rightarrow> e | None \<Rightarrow> []) in
            if \<not> eq_ignore_ascii_case ext ''yaml'' \<and> \<not> eq_ignore_ascii_case ext ''yml'' then
              Inl ''Invalid ACL config file format: expected .yaml or .yml extension''
            else Inr ())"

definition validate_durations :: "(string \<Rightarrow> bool) \<Rightarrow> string \<Rightarrow> cli_args \<Rightarrow> string + unit" where
  "validate_durations exists fmt_max cli =
     (case first_bad (\<lambda>d. d < from_secs 1)
             [(''conn_idle_timeout'', cli_conn_idle_timeout cli), (''uplink_only_timeout'', cli_uplink_only_timeout cli),
              (''downlink_only_timeout'', cli_downlink_only_timeout cli), (''api_timeout'', cli_api_timeout cli)] of
        Some name \<Rightarrow> Inl (name @ '' must be at least 1s'')
      | None \<Rightarrow>
          (case first_bad (\<lambda>d. d > MAX_DURATION)
                  [(''conn_idle_timeout'', cli_conn_idle_timeout cli), (''uplink_only_timeout'', cli_uplink_only_timeout cli),
                   (''downlink_only_timeout'', cli_downlink_only_timeout cli), (''api_timeout'', cli_api_timeout cli),
                   (''tcp_connect_timeout'', cli_tcp_connect_timeout cli), (''request_timeout'', cli_request_timeout cli),
                   (''tls_handshake_timeout'', cli_tls_handshake_timeout cli),
                   (''fetch_users_interval'', cli_fetch_users_interval cli),
                   (''report_traffics_interval'', cli_report_traffics_interval cli),
                   (''heartbeat_interval'', cli_heartbeat_interval cli)] of
             Some name \<Rightarrow> Inl (name @ '' must be at most '' @ fmt_max)
           | None \<Rightarrow> validate_acl exists cli))"

definition validate_sizes :: "(string \<Rightarrow> string) \<Rightarrow> (string \<Rightarrow> bool) \<Rightarrow> string \<Rightarrow> cli_args \<Rightarrow> string + unit" where
  "validate_sizes lower exists fmt_max cli =
     (if cli_buffer_size cli = 0 then Inl ''buffer_size must be greater than 0''
      else if cli_buffer_size cli > MAX_BUFFER_SIZE then
        Inl (''buffer_size must be at most '' @ show_nat MAX_BUFFER_SIZE)
      else if (case log_level_from_str lower (cli_log_mode cli) of Inl _ \<Rightarrow> True | Inr _ \<Rightarrow> False) then
        Inl (''Invalid log_mode '' @ quoted (cli_log_mode cli) @ ''. Use trace, debug, info, warn or error'')
      else
        (case first_bad (\<lambda>d. d = 0)
                [(''tcp_connect_timeout'', cli_tcp_connect_timeout cli), (''request_timeout'', cli_request_timeout cli),
                 (''tls_handshake_timeout'', cli_tls_handshake_timeout cli)] of
           Some name \<Rightarrow> Inl (name @ '' must be greater than 0'')
         | None \<Rightarrow>
             if cli_tcp_backlog cli \<le> 0 then Inl ''tcp_backlog must be greater than 0''
             else
               (case cli_max_connections cli of
                  Fixed n \<Rightarrow>
                    if unat n > MAX_PERMITS then
                      Inl (''max_connections must be at most '' @ show_nat MAX_PERMITS)
                    else validate_durations exists fmt_max cli
                | Auto \<Rightarrow> validate_durations exists fmt_max cli)))"

definition validate :: "(string \<Rightarrow> string) \<Rightarrow> (string \<Rightarrow> bool) \<Rightarrow> string \<Rightarrow> cli_args \<Rightarrow> string + unit" where
  "validate lower exists fmt_max cli =
     (if cli_api cli = [] then Inl ''API endpoint URL is required''
      else if cli_token cli = [] then Inl ''API token is required''
      else if cli_node cli \<le> 0 then Inl ''Node ID must be a positive integer''
      else if cli_cert_file cli = [] then Inl ''TLS certificate file path is required (--cert-file)''
      else if cli_key_file cli = [] then Inl ''TLS private key file path is required (--key-file)''
      else if \<not> exists (cli_cert_file cli) then Inl (''TLS certificate file not found: '' @ cli_cert_file cli)
      else if \<not> exists (cli_key_file cli) then Inl (''TLS private key file not found: '' @ cli_key_file cli)
      else if cli_fetch_users_interval cli = 0 then Inl ''fetch_users_interval must be greater than 0''
      else if cli_report_traffics_interval cli = 0 then Inl ''report_traffics_interval must be greater than 0''
      else if cli_heartbeat_interval cli = 0 then Inl ''heartbeat_interval must be greater than 0''
      else validate_sizes lower exists fmt_max cli)"

section \<open>Connection configuration\<close>

record conn_config =
  cc_idle_timeout :: duration
  cc_uplink_only_timeout :: duration
  cc_downlink_only_timeout :: duration
  cc_connect_timeout :: duration
  cc_request_timeout :: duration
  cc_tls_handshake_timeout :: duration
  cc_buffer_size :: nat
  cc_tcp_backlog :: int
  cc_tcp_nodelay :: bool
  cc_max_connections :: u64

definition conn_config_from_cli :: "cli_args \<Rightarrow> u64 \<Rightarrow> conn_config" where
  "conn_config_from_cli cli max_conns =
     \<lparr>cc_idle_timeout = cli_conn_idle_timeout cli,
      cc_uplink_only_timeout = cli_uplink_only_timeout cli,
      cc_downlink_only_timeout = cli_downlink_only_timeout cli,
      cc_connect_timeout = cli_tcp_connect_timeout cli,
      cc_request_timeout = cli_request_timeout cli,
      cc_tls_handshake_timeout = cli_tls_handshake_timeout cli,
      cc_buffer_size = cli_buffer_size cli,
      cc_tcp_backlog = cli_tcp_backlog cli,
      cc_tcp_nodelay = cli_tcp_nodelay cli,
      cc_max_connections = max_conns\<rparr>"

definition idle_timeout_secs :: "conn_config \<Rightarrow> nat" where
  "idle_timeout_secs cc = as_secs (cc_idle_timeout cc)"

definition uplink_only_timeout_secs :: "conn_config \<Rightarrow> nat" where
  "uplink_only_timeout_secs cc = as_secs (cc_uplink_only_timeout cc)"

definition downlink_only_timeout_secs :: "conn_config \<Rightarrow> nat" where
  "downlink_only_timeout_secs cc = as_secs (cc_downlink_only_timeout cc)"

section \<open>Server configuration\<close>

record websocket_config =
  wc_path :: "string option"

record grpc_config =
  gc_service_name :: "string option"

record trojan_config =
  tc_server_port :: u16
  tc_network :: "string option"
  tc_websocket_config :: "websocket_config option"
  tc_grpc_config :: "grpc_config option"

text \<open>The panel's answer carries one of several protocols; serde is the parameter \<open>from_json\<close>.\<close>

datatype node_config = NTrojan string | NOther string

definition parse_trojan_config :: "(string \<Rightarrow> string + trojan_config) \<Rightarrow> node_config \<Rightarrow> string + trojan_config" where
  "parse_trojan_config from_json node_config =
     (case node_config of
        NTrojan json \<Rightarrow>
          (case from_json json of
             Inl e \<Rightarrow> Inl (''Failed to parse TrojanConfig: '' @ e)
           | Inr c \<Rightarrow> Inr c)
      | NOther d \<Rightarrow> Inl (''Expected Trojan config, got '' @ d))"

definition normalize_ws_path :: "string \<Rightarrow> string" where
  "normalize_ws_path raw =
     (let path = trim (hd (split_on (CHR ''?'') (trim raw))) in
      if path = [] then []
      else if hd path = CHR ''/'' then path
      else CHR ''/'' # path)"

definition DEFAULT_GRPC_SERVICE_NAME :: string where "DEFAULT_GRPC_SERVICE_NAME = ''GunService''"
definition DEFAULT_WS_PATH :: string where "DEFAULT_WS_PATH = ''/''"

record server_config =
  sc_port :: u16
  sc_enable_ws :: bool
  sc_enable_grpc :: bool
  sc_ws_path :: string
  sc_grpc_service_name :: string
  sc_cert :: "string option"
  sc_key :: "string option"
  sc_acl_conf_file :: "string option"
  sc_data_dir :: string
  sc_block_private_ip :: bool

definition from_remote :: "(string \<Rightarrow> string) \<Rightarrow> trojan_config \<Rightarrow> cli_args \<Rightarrow> server_config" where
  "from_remote lower remote cli =
     (let network = (case tc_network remote of Some n \<Rightarrow> n | None \<Rightarrow> ''tcp'');
          l = lower network;
          (enable_ws, enable_grpc) =
            (if l = ''ws'' \<or> l = ''websocket'' then (True, False)
             else if l = ''grpc'' then (False, True)
             else (False, False));
          ws_path =
            (case Option.bind (tc_websocket_config remote) wc_path of
               None \<Rightarrow> DEFAULT_WS_PATH
             | Some raw \<Rightarrow> (let p = normalize_ws_path raw in if p \<noteq> [] then p else DEFAULT_WS_PATH));
          grpc_service_name =
            (case Option.bind (tc_grpc_config remote) gc_service_name of
               None \<Rightarrow> DEFAULT_GRPC_SERVICE_NAME
             | Some n \<Rightarrow> n)
      in \<lparr>sc_port = tc_server_port remote, sc_enable_ws = enable_ws, sc_enable_grpc = enable_grpc,
          sc_ws_path = ws_path, sc_grpc_service_name = grpc_service_name,
          sc_cert = Some (cli_cert_file cli), sc_key = Some (cli_key_file cli),
          sc_acl_conf_file = cli_acl_conf_file cli, sc_data_dir = cli_data_dir cli,
          sc_block_private_ip = cli_block_private_ip cli\<rparr>)"

section \<open>Lemmas\<close>

lemma split_on_nonempty [simp]: "split_on c s \<noteq> []"
  by (cases s) (auto split: list.split)

lemma hd_split_on: "hd (split_on c s) = takeWhile (\<lambda>x. x \<noteq> c) s"
  by (induction s) (auto split: list.split dest: arg_cong [of _ "[]" "\<lambda>x. x = []"])

lemma first_bad_None: "first_bad bad ds = None \<longleftrightarrow> (\<forall>(name, d) \<in> set ds. \<not> bad d)"
  by (induction bad ds rule: first_bad.induct) auto

text \<open>Stripping removes a prefix, and nothing is left to strip.\<close>

lemma strip_any_suffix: "strip_any ws s = Some r \<Longrightarrow> \<exists>w. s = w @ r"
  by (induction ws) (auto split: if_splits intro: append_take_drop_id [symmetric])

lemma strip_all_suffix: "\<exists>w. s = w @ strip_all ws s"
proof (induction ws s rule: strip_all.induct)
  case (1 ws s)
  show ?case
  proof (cases "strip_any ws s")
    case None
    then show ?thesis by (subst strip_all.simps) simp
  next
    case (Some r)
    with 1 obtain w where "r = w @ strip_all ws r" by blast
    moreover obtain v where "s = v @ r" using strip_any_suffix [OF Some] by blast
    moreover have "strip_all ws s = strip_all ws r" using Some by (subst strip_all.simps) simp
    ultimately have "s = (v @ w) @ strip_all ws s" by simp
    then show ?thesis by blast
  qed
qed

lemma strip_any_strip_all: "strip_any ws (strip_all ws s) = None"
proof (induction ws s rule: strip_all.induct)
  case (1 ws s)
  then show ?case by (cases "strip_any ws s") (subst strip_all.simps, simp)+
qed

lemma strip_all_id: "strip_any ws s = None \<Longrightarrow> strip_all ws s = s"
  by (subst strip_all.simps) simp

lemma strip_any_None: "strip_any ws s = None \<longleftrightarrow> (\<forall>w \<in> set ws. w \<noteq> [] \<longrightarrow> take (length w) s \<noteq> w)"
  by (induction ws) auto

lemma trim_infix: "\<exists>u v. s = u @ trim s @ v"
proof -
  obtain u where u: "s = u @ trim_start s" using strip_all_suffix [of s white_space] by (auto simp: trim_start_def)
  obtain v where "rev (trim_start s) = v @ strip_all (map rev white_space) (rev (trim_start s))"
    using strip_all_suffix by blast
  then have "trim_start s = trim s @ rev v" unfolding trim_def trim_end_def by (metis rev_append rev_rev_ident)
  then show ?thesis using u by metis
qed

text \<open>A string with neither a white-space prefix nor suffix is trimmed.\<close>

definition trimmed :: "string \<Rightarrow> bool" where
  "trimmed s \<longleftrightarrow> strip_any white_space s = None \<and> strip_any (map rev white_space) (rev s) = None"

lemma trim_trimmed: "trimmed s \<Longrightarrow> trim s = s"
  by (simp add: trimmed_def trim_def trim_start_def trim_end_def strip_all_id)

lemma take_append_short: "take (length w) s = w \<Longrightarrow> take (length w) (s @ t) = w"
proof -
  assume h: "take (length w) s = w"
  then have "min (length s) (length w) = length w" by (metis length_take)
  then have "length w \<le> length s" by linarith
  then show ?thesis using h by simp
qed

lemma trimmed_trim: "trimmed (trim s)"
proof -
  let ?t = "trim_start s"
  have "strip_any white_space ?t = None" by (simp add: trim_start_def strip_any_strip_all)
  moreover obtain v where v: "?t = trim s @ v"
    using strip_all_suffix [of "rev ?t" "map rev white_space"]
    unfolding trim_def trim_end_def by (metis rev_append rev_rev_ident)
  ultimately have "strip_any white_space (trim s) = None"
    unfolding strip_any_None using take_append_short by metis
  moreover have "strip_any (map rev white_space) (rev (trim s)) = None"
    by (simp add: trim_def trim_end_def strip_any_strip_all)
  ultimately show ?thesis by (simp add: trimmed_def)
qed

lemma no_slash: "w \<in> set white_space \<Longrightarrow> CHR ''/'' \<notin> set w"
proof -
  have "list_all (\<lambda>w. CHR ''/'' \<notin> set w) white_space" by code_simp
  then show "w \<in> set white_space \<Longrightarrow> CHR ''/'' \<notin> set w" by (simp add: list_all_iff)
qed

text \<open>A slash in front keeps a non-empty string trimmed.\<close>

lemma trimmed_Cons:
  assumes "trimmed p"
  shows "trimmed (CHR ''/'' # p)"
proof -
  have "strip_any white_space (CHR ''/'' # p) = None"
    unfolding strip_any_None
  proof (intro ballI impI notI)
    fix w assume w: "w \<in> set white_space" "w \<noteq> []" "take (length w) (CHR ''/'' # p) = w"
    have "hd (take (length w) (CHR ''/'' # p)) = CHR ''/''" using w(2) by (cases "length w") auto
    then have "hd w = CHR ''/''" using w(3) by simp
    then show False using no_slash [OF w(1)] w(2) hd_in_set by metis
  qed
  moreover have "strip_any (map rev white_space) (rev (CHR ''/'' # p)) = None"
    unfolding strip_any_None
  proof (intro ballI impI notI)
    fix w assume w: "w \<in> set (map rev white_space)" "w \<noteq> []" "take (length w) (rev (CHR ''/'' # p)) = w"
    have n: "CHR ''/'' \<notin> set w" using w(1) no_slash by auto
    show False
    proof (cases "length w \<le> length p")
      case True
      then have "take (length w) (rev p) = w" using w(3) by simp
      then show False using assms w(1,2) unfolding trimmed_def strip_any_None by blast
    next
      case False
      then have "w = rev p @ [CHR ''/'']" using w(3) by simp
      then show False using n by simp
    qed
  qed
  ultimately show ?thesis by (simp add: trimmed_def)
qed

lemma normalize_trimmed: "trimmed (normalize_ws_path raw)"
proof -
  have "trimmed []" by (auto simp: trimmed_def strip_any_None)
  then show ?thesis
    using trimmed_trim [of "hd (split_on (CHR ''?'') (trim raw))"] trimmed_Cons
    by (auto simp: normalize_ws_path_def Let_def)
qed

lemma normalize_start: "normalize_ws_path raw = [] \<or> hd (normalize_ws_path raw) = CHR ''/''"
proof -
  obtain q where "trim (hd (split_on (CHR ''?'') (trim raw))) = q" by blast
  then show ?thesis by (simp add: normalize_ws_path_def)
qed

lemma normalize_no_query: "CHR ''?'' \<notin> set (normalize_ws_path raw)"
proof -
  let ?q = "takeWhile (\<lambda>x. x \<noteq> CHR ''?'') (trim raw)"
  obtain u v where "?q = u @ trim ?q @ v" using trim_infix by blast
  then have "set (trim ?q) \<subseteq> set ?q" by (metis Un_upper1 Un_upper2 set_append subset_trans)
  then have "CHR ''?'' \<notin> set (trim ?q)" by (auto dest: set_takeWhileD)
  then show ?thesis by (auto simp: normalize_ws_path_def Let_def hd_split_on)
qed

lemma to_ascii_lowercase_ascii:
  "(of_char (to_ascii_lowercase c) :: nat) < 128 \<Longrightarrow> (of_char c :: nat) < 128"
  by (auto simp: to_ascii_lowercase_def Let_def split: if_splits)

text \<open>What the checks of \<open>validate\<close> leave true.\<close>

lemma validate_facts:
  assumes v: "validate lower exists fmt_max cli = Inr ()"
  shows "1 \<le> cli_buffer_size cli" "cli_buffer_size cli \<le> 4194304" "0 < cli_tcp_backlog cli"
    "0 < cli_tcp_connect_timeout cli" "0 < cli_request_timeout cli" "0 < cli_tls_handshake_timeout cli"
    "cli_max_connections cli = Fixed n \<Longrightarrow> unat n \<le> MAX_PERMITS"
    "validate_durations exists fmt_max cli = Inr ()"
proof -
  have sizes: "validate_sizes lower exists fmt_max cli = Inr ()"
    using v by (simp add: validate_def split: if_split_asm)
  then show "1 \<le> cli_buffer_size cli" "cli_buffer_size cli \<le> 4194304" "0 < cli_tcp_backlog cli"
    "cli_max_connections cli = Fixed n \<Longrightarrow> unat n \<le> MAX_PERMITS"
    "validate_durations exists fmt_max cli = Inr ()"
    by (auto simp: validate_sizes_def MAX_BUFFER_SIZE_def
        split: if_split_asm option.split_asm max_connections.split_asm)
  have "first_bad (\<lambda>d. d = 0) [(''tcp_connect_timeout'', cli_tcp_connect_timeout cli),
        (''request_timeout'', cli_request_timeout cli), (''tls_handshake_timeout'', cli_tls_handshake_timeout cli)] = None"
    using sizes by (auto simp: validate_sizes_def split: if_split_asm option.split_asm)
  then show "0 < cli_tcp_connect_timeout cli" "0 < cli_request_timeout cli" "0 < cli_tls_handshake_timeout cli"
    unfolding first_bad_None by simp_all
qed

lemma validate_durations_facts:
  assumes "validate_durations exists fmt_max cli = Inr ()"
    and "d \<in> {cli_conn_idle_timeout cli, cli_uplink_only_timeout cli, cli_downlink_only_timeout cli}"
  shows "1 \<le> as_secs d \<and> as_secs d \<le> 2592000"
proof -
  have "from_secs 1 \<le> d \<and> d \<le> MAX_DURATION"
    using assms unfolding validate_durations_def
    by (auto simp: first_bad_None not_less simp del: first_bad.simps split: option.split_asm)
  then have b: "1000000000 \<le> d" "d \<le> 2592000000000000" by (simp_all add: from_secs_def MAX_DURATION_def)
  show ?thesis
    using div_le_mono [OF b(1), of 1000000000] div_le_mono [OF b(2), of 1000000000] by (simp add: as_secs_def)
qed

lemma auto_limit_bounds:
  "1 \<le> unat (ab_value (compute_auto a b c)) \<and> unat (ab_value (compute_auto a b c)) \<le> MAX_PERMITS"
proof -
  have "unat (saturating_mul x y div PER_USER_KBPS) \<le> MAX_PERMITS" for x y
    by (simp add: unat_limits U64_MAX_def MAX_PERMITS_def)
  moreover have "1 \<le> MAX_PERMITS" by (simp add: MAX_PERMITS_def)
  ultimately show ?thesis
    by (simp add: compute_auto_def Let_def unat_max_u64 unat_min_u64 min_le_iff_disj)
qed

section \<open>Properties\<close>

text \<open>
  A WebSocket path is normalised to the empty string or to a trimmed path that starts with a
  slash and has no query part, and normalising is idempotent, so the path served by the server and
  the path requested by a client that normalises too are the same.
\<close>

lemma normalize_ws_path_canonical:
  "(normalize_ws_path raw = [] \<or> hd (normalize_ws_path raw) = CHR ''/'') \<and>
   CHR ''?'' \<notin> set (normalize_ws_path raw) \<and>
   normalize_ws_path (normalize_ws_path raw) = normalize_ws_path raw"
proof -
  obtain p where p: "normalize_ws_path raw = p" by blast
  have s: "p = [] \<or> hd p = CHR ''/''" using normalize_start [of raw] p by simp
  have t: "trim p = p" using normalize_trimmed [of raw] p by (simp add: trim_trimmed)
  have q: "CHR ''?'' \<notin> set p" using normalize_no_query [of raw] p by simp
  then have w: "takeWhile (\<lambda>x. x \<noteq> CHR ''?'') p = p" by (subst takeWhile_eq_all_conv) auto
  have "normalize_ws_path p = (if p = [] then [] else if hd p = CHR ''/'' then p else CHR ''/'' # p)"
    unfolding normalize_ws_path_def hd_split_on t w Let_def by (rule refl)
  then have "normalize_ws_path p = p" using s by (simp split: if_splits)
  then show ?thesis using s q p by simp
qed

text \<open>
  C36: A command line whose limit was parsed and that passes \<open>validate\<close> gives a usable connection
  configuration, whatever limit the host resources lead to: the relay buffers are between 1 byte and 4 MiB, the timeouts
  used in whole seconds are at least one second and every deadline is at most thirty days away,
  no timeout is zero, and the connection limit is a legal semaphore size.
\<close>

theorem validated_config_usable:
  assumes v: "validate lower exists fmt_max cli = Inr ()"
    and m: "max_connections_from_str s = Inr (cli_max_connections cli)"
  shows "let cc = conn_config_from_cli cli (rm_value (resolve_limit host (cli_max_connections cli))) in
    1 \<le> cc_buffer_size cc \<and> cc_buffer_size cc \<le> 4194304 \<and>
    1 \<le> idle_timeout_secs cc \<and> 1 \<le> uplink_only_timeout_secs cc \<and> 1 \<le> downlink_only_timeout_secs cc \<and>
    idle_timeout_secs cc \<le> 2592000 \<and> uplink_only_timeout_secs cc \<le> 2592000 \<and>
    downlink_only_timeout_secs cc \<le> 2592000 \<and>
    0 < cc_connect_timeout cc \<and> 0 < cc_request_timeout cc \<and> 0 < cc_tls_handshake_timeout cc \<and>
    0 < cc_tcp_backlog cc \<and>
    1 \<le> unat (cc_max_connections cc) \<and> unat (cc_max_connections cc) \<le> MAX_PERMITS"
proof -
  note f = validate_facts [OF v] and d = validate_durations_facts [OF validate_facts(8) [OF v]]
  have "1 \<le> unat (rm_value (resolve_limit host (cli_max_connections cli))) \<and>
      unat (rm_value (resolve_limit host (cli_max_connections cli))) \<le> MAX_PERMITS"
  proof (cases "cli_max_connections cli")
    case Auto
    then show ?thesis using auto_limit_bounds by (simp add: resolve_limit_def Let_def)
  next
    case (Fixed k)
    then have "k \<noteq> 0" using m by (auto simp: max_connections_from_str_def split: if_splits option.splits)
    then show ?thesis using Fixed f(7) by (simp add: resolve_limit_def Let_def Suc_le_eq word_unat_eq_iff)
  qed
  then show ?thesis using f(1-6) d
    by (simp add: conn_config_from_cli_def idle_timeout_secs_def uplink_only_timeout_secs_def
          downlink_only_timeout_secs_def)
qed

definition demo_cli :: cli_args where
  "demo_cli =
     \<lparr>cli_api = ''https://panel'', cli_token = ''t'', cli_node = 1, cli_cert_file = ''/c.crt'', cli_key_file = ''/c.key'',
      cli_fetch_users_interval = from_secs 60, cli_report_traffics_interval = from_secs 80,
      cli_heartbeat_interval = from_secs 180, cli_api_timeout = from_secs 30, cli_log_mode = ''info'',
      cli_data_dir = ''/var/lib/trojan-node'', cli_acl_conf_file = None, cli_block_private_ip = True,
      cli_conn_idle_timeout = from_secs 300, cli_tcp_connect_timeout = from_secs 5,
      cli_request_timeout = from_secs 5, cli_tls_handshake_timeout = from_secs 10, cli_buffer_size = 32768,
      cli_tcp_backlog = 1024, cli_tcp_nodelay = True, cli_uplink_only_timeout = from_secs 2,
      cli_downlink_only_timeout = from_secs 5, cli_max_connections = Auto, cli_refresh_geodata = False,
      cli_panel_ip_version = IpV4\<rparr>"

theorem validated_config_usable_witness:
  "let cc = conn_config_from_cli demo_cli (rm_value (resolve_limit
       \<lparr>hi_parallelism = Some 4, hi_pages = 0, hi_page_size = 0, hi_rlimit = (0, 1024)\<rparr> (cli_max_connections demo_cli)))
   in 1 \<le> idle_timeout_secs cc \<and> unat (cc_max_connections cc) \<le> MAX_PERMITS"
proof -
  have "validate (map to_ascii_lowercase) (\<lambda>_. True) ''30days'' demo_cli = Inr ()"
    by (simp add: validate_def validate_sizes_def validate_durations_def validate_acl_def demo_cli_def
          from_secs_def MAX_DURATION_def MAX_BUFFER_SIZE_def log_level_from_str_def to_ascii_lowercase_def Let_def)
  moreover have "max_connections_from_str ''auto'' = Inr (cli_max_connections demo_cli)"
    by (simp add: demo_cli_def max_connections_from_str_def eq_ignore_ascii_case_def)
  ultimately show ?thesis using validated_config_usable unfolding Let_def by blast
qed

text \<open>
  The server configuration built from the panel's answer enables at most one of WebSocket and
  gRPC, always has a WebSocket path that starts with a slash, and takes the certificate, the
  routing file and the private-address switch from the command line.  On ASCII names the network
  is recognised in any letter case.
\<close>

lemma from_remote_transport:
  assumes "lowers_ascii lower"
  shows "let sc = from_remote lower remote cli in
    \<not> (sc_enable_ws sc \<and> sc_enable_grpc sc) \<and> hd (sc_ws_path sc) = CHR ''/'' \<and>
    sc_cert sc = Some (cli_cert_file cli) \<and> sc_key sc = Some (cli_key_file cli) \<and>
    sc_block_private_ip sc = cli_block_private_ip cli \<and>
    (tc_network remote = Some n \<longrightarrow> eq_ignore_ascii_case n ''grpc'' \<longrightarrow> sc_enable_grpc sc) \<and>
    (tc_network remote = Some n \<longrightarrow> eq_ignore_ascii_case n ''ws'' \<longrightarrow> sc_enable_ws sc) \<and>
    (tc_network remote = None \<longrightarrow> \<not> sc_enable_ws sc \<and> \<not> sc_enable_grpc sc)"
proof -
  have ascii: "lower s = t" if "map to_ascii_lowercase s = t" "\<forall>c \<in> set t. of_char c < (128::nat)" for s t
    using that assms to_ascii_lowercase_ascii by (auto simp: lowers_ascii_def)
  have l: "lower ''tcp'' = ''tcp''" "eq_ignore_ascii_case n ''grpc'' \<Longrightarrow> lower n = ''grpc''"
    "eq_ignore_ascii_case n ''ws'' \<Longrightarrow> lower n = ''ws''"
    by (rule ascii; simp add: eq_ignore_ascii_case_def to_ascii_lowercase_def)+
  have "hd (sc_ws_path (from_remote lower remote cli)) = CHR ''/''"
    using normalize_start by (auto simp: from_remote_def Let_def DEFAULT_WS_PATH_def split: option.split)
  then show ?thesis using l by (auto simp: from_remote_def Let_def)
qed

end
