(* ===== verification/Transport.thy ===== *)
theory Transport
  imports Net_Addr
begin

text \<open>
  \<open>src/src/transport/mod.rs\<close>: the transport abstraction.

  An asynchronous stream is a state with the four poll functions of \<open>AsyncRead\<close> and
  \<open>AsyncWrite\<close> (\<open>stream_ops\<close>).  A poll takes the state and returns the outcome and the next
  state; what the peer and the network do between polls is a change of the state from outside.
  \<open>poll_read\<close> gets the free capacity of the read buffer and returns the bytes it put there.

  The locale \<open>async_stream\<close> is the contract the relay relies on.  It is stated with two history
  functions, the bytes the stream has handed out (\<open>rx\<close>) and the bytes it has accepted (\<open>tx\<close>).
  \<open>NoHalfClose\<close> turns a stream that keeps the contract into another one that does.
\<close>

section \<open>Streams\<close>

record 's stream_ops =
  poll_read :: "'s \<Rightarrow> nat \<Rightarrow> bytes io_result poll \<times> 's"
  poll_write :: "'s \<Rightarrow> bytes \<Rightarrow> nat io_result poll \<times> 's"
  poll_flush :: "'s \<Rightarrow> unit io_result poll \<times> 's"
  poll_shutdown :: "'s \<Rightarrow> unit io_result poll \<times> 's"

locale async_stream =
  fixes ops :: "'s stream_ops"
    and rx :: "'s \<Rightarrow> bytes"
    and tx :: "'s \<Rightarrow> bytes"
  assumes read_law:
      "poll_read ops s n = (rr, s') \<Longrightarrow>
         tx s' = tx s \<and>
         (case rr of Ready (Inr d) \<Rightarrow> length d \<le> n \<and> rx s' = rx s @ d | _ \<Rightarrow> rx s' = rx s)"
    and write_law:
      "poll_write ops s bs = (rw, s') \<Longrightarrow>
         rx s' = rx s \<and>
         (case rw of Ready (Inr k) \<Rightarrow> k \<le> length bs \<and> tx s' = tx s @ take k bs | _ \<Rightarrow> tx s' = tx s)"
    and flush_law: "poll_flush ops s = (rf, s') \<Longrightarrow> rx s' = rx s \<and> tx s' = tx s"
    and shutdown_law: "poll_shutdown ops s = (rf, s') \<Longrightarrow> rx s' = rx s \<and> tx s' = tx s"
begin

lemma read_Ok:
  "poll_read ops s n = (Ready (Inr bs), s') \<Longrightarrow> length bs \<le> n \<and> rx s' = rx s @ bs \<and> tx s' = tx s"
  using read_law [of s n "Ready (Inr bs)" s'] by simp

lemma write_Ok:
  "poll_write ops s bs = (Ready (Inr k), s') \<Longrightarrow> k \<le> length bs \<and> tx s' = tx s @ take k bs \<and> rx s' = rx s"
  using write_law [of s bs "Ready (Inr k)" s'] by simp

lemma read_rest:
  "poll_read ops s n = (Pending, s') \<Longrightarrow> rx s' = rx s \<and> tx s' = tx s"
  "poll_read ops s n = (Ready (Inl e), s') \<Longrightarrow> rx s' = rx s \<and> tx s' = tx s"
  using read_law [of s n Pending s'] read_law [of s n "Ready (Inl e)" s'] by simp_all

lemma write_rest:
  "poll_write ops s bs = (Pending, s') \<Longrightarrow> rx s' = rx s \<and> tx s' = tx s"
  "poll_write ops s bs = (Ready (Inl e), s') \<Longrightarrow> rx s' = rx s \<and> tx s' = tx s"
  using write_law [of s bs Pending s'] write_law [of s bs "Ready (Inl e)" s'] by simp_all

end

section \<open>\<open>NoHalfClose\<close>\<close>

record 's no_half_close =
  nh_inner :: 's
  nh_half_close :: bool

definition no_half_close_ops :: "'s stream_ops \<Rightarrow> 's no_half_close stream_ops" where
  "no_half_close_ops inner =
     \<lparr>poll_read = (\<lambda>self n. let (r, i) = poll_read inner (nh_inner self) n in (r, self\<lparr>nh_inner := i\<rparr>)),
      poll_write = (\<lambda>self bs. let (r, i) = poll_write inner (nh_inner self) bs in (r, self\<lparr>nh_inner := i\<rparr>)),
      poll_flush = (\<lambda>self. let (r, i) = poll_flush inner (nh_inner self) in (r, self\<lparr>nh_inner := i\<rparr>)),
      poll_shutdown =
        (\<lambda>self.
           if nh_half_close self
           then let (r, i) = poll_shutdown inner (nh_inner self) in (r, self\<lparr>nh_inner := i\<rparr>)
           else let (r, i) = poll_flush inner (nh_inner self) in (r, self\<lparr>nh_inner := i\<rparr>))\<rparr>"

context async_stream
begin

lemma no_half_close_stream:
  "async_stream (no_half_close_ops ops) (\<lambda>s. rx (nh_inner s)) (\<lambda>s. tx (nh_inner s))"
proof
  fix s :: "'s no_half_close" and n r s'
  assume "poll_read (no_half_close_ops ops) s n = (r, s')"
  then show "tx (nh_inner s') = tx (nh_inner s) \<and>
      (case r of Ready (Inr bs) \<Rightarrow> length bs \<le> n \<and> rx (nh_inner s') = rx (nh_inner s) @ bs
       | _ \<Rightarrow> rx (nh_inner s') = rx (nh_inner s))"
    using read_law [of "nh_inner s" n r "nh_inner s'"]
    by (auto simp: no_half_close_ops_def split: prod.splits poll.splits sum.splits)
next
  fix s :: "'s no_half_close" and bs r s'
  assume "poll_write (no_half_close_ops ops) s bs = (r, s')"
  then show "rx (nh_inner s') = rx (nh_inner s) \<and>
      (case r of Ready (Inr k) \<Rightarrow> k \<le> length bs \<and> tx (nh_inner s') = tx (nh_inner s) @ take k bs
       | _ \<Rightarrow> tx (nh_inner s') = tx (nh_inner s))"
    using write_law [of "nh_inner s" bs r "nh_inner s'"]
    by (auto simp: no_half_close_ops_def split: prod.splits poll.splits sum.splits)
next
  fix s :: "'s no_half_close" and r s'
  assume "poll_flush (no_half_close_ops ops) s = (r, s')"
  then show "rx (nh_inner s') = rx (nh_inner s) \<and> tx (nh_inner s') = tx (nh_inner s)"
    using flush_law [of "nh_inner s" r "nh_inner s'"] by (auto simp: no_half_close_ops_def split: prod.splits)
next
  fix s :: "'s no_half_close" and r s'
  assume "poll_shutdown (no_half_close_ops ops) s = (r, s')"
  then show "rx (nh_inner s') = rx (nh_inner s) \<and> tx (nh_inner s') = tx (nh_inner s)"
    using flush_law [of "nh_inner s" r "nh_inner s'"] shutdown_law [of "nh_inner s" r "nh_inner s'"]
    by (auto simp: no_half_close_ops_def split: prod.splits if_splits)
qed

end

section \<open>Transport types\<close>

datatype transport_type = Tcp | WebSocket | Grpc

fun half_close :: "transport_type \<Rightarrow> bool" where
  "half_close Tcp = True"
| "half_close WebSocket = False"
| "half_close Grpc = False"

fun transport_display :: "transport_type \<Rightarrow> string" where
  "transport_display Tcp = ''tcp''"
| "transport_display WebSocket = ''ws''"
| "transport_display Grpc = ''grpc''"

record connection_meta =
  peer_addr :: socket_addr
  transport_type :: transport_type

section \<open>Recorded streams\<close>

text \<open>
  Any stream can be observed from outside: \<open>recorded_ops\<close> runs the poll functions of a stream and
  writes down what it hands out and accepts.  A stream that respects the sizes it is given (the
  documented behaviour of \<open>AsyncRead\<close> and \<open>AsyncWrite\<close>) keeps the contract under observation; one
  that claims more is cut back to the size.
\<close>

record 's recorded =
  rc_inner :: 's
  rc_rx :: bytes
  rc_tx :: bytes

definition recorded_ops :: "'s stream_ops \<Rightarrow> 's recorded stream_ops" where
  "recorded_ops inner =
     \<lparr>poll_read = (\<lambda>s n. case poll_read inner (rc_inner s) n of
          (Ready (Inr bs), i) \<Rightarrow>
            (Ready (Inr (take n bs)), s\<lparr>rc_inner := i, rc_rx := rc_rx s @ take n bs\<rparr>)
        | (r, i) \<Rightarrow> (r, s\<lparr>rc_inner := i\<rparr>)),
      poll_write = (\<lambda>s bs. case poll_write inner (rc_inner s) bs of
          (Ready (Inr k), i) \<Rightarrow>
            (Ready (Inr (min k (length bs))), s\<lparr>rc_inner := i, rc_tx := rc_tx s @ take k bs\<rparr>)
        | (r, i) \<Rightarrow> (r, s\<lparr>rc_inner := i\<rparr>)),
      poll_flush = (\<lambda>s. let (r, i) = poll_flush inner (rc_inner s) in (r, s\<lparr>rc_inner := i\<rparr>)),
      poll_shutdown = (\<lambda>s. let (r, i) = poll_shutdown inner (rc_inner s) in (r, s\<lparr>rc_inner := i\<rparr>))\<rparr>"

interpretation rec_stream: async_stream "recorded_ops inner" rc_rx rc_tx for inner :: "'s stream_ops"
  by unfold_locales
     (auto simp: recorded_ops_def Let_def min_def split: prod.splits poll.splits sum.splits)

interpretation nhc_stream: async_stream "no_half_close_ops (recorded_ops inner)"
  "\<lambda>s. rc_rx (nh_inner s)" "\<lambda>s. rc_tx (nh_inner s)" for inner :: "'s stream_ops"
  by (rule rec_stream.no_half_close_stream)

section \<open>Properties\<close>

text \<open>
  \<open>NoHalfClose\<close> forwards reads, writes and flushes unchanged.  Its shutdown reaches the inner
  transport only on a transport that can half-close (plain TCP or TLS); on WebSocket and gRPC it is
  a flush, so the client's remaining upload is not cut off.
\<close>

lemma no_half_close_forwards:
  "(let (r, i) = poll_read inner (nh_inner s) n in poll_read (no_half_close_ops inner) s n = (r, s\<lparr>nh_inner := i\<rparr>)) \<and>
   (let (r, i) = poll_write inner (nh_inner s) bs in poll_write (no_half_close_ops inner) s bs = (r, s\<lparr>nh_inner := i\<rparr>)) \<and>
   (let (r, i) = poll_flush inner (nh_inner s) in poll_flush (no_half_close_ops inner) s = (r, s\<lparr>nh_inner := i\<rparr>)) \<and>
   poll_shutdown (no_half_close_ops inner) \<lparr>nh_inner = x, nh_half_close = half_close t\<rparr> =
     (case t of
        Tcp \<Rightarrow> (let (r, i) = poll_shutdown inner x in (r, \<lparr>nh_inner = i, nh_half_close = True\<rparr>))
      | _ \<Rightarrow> (let (r, i) = poll_flush inner x in (r, \<lparr>nh_inner = i, nh_half_close = False\<rparr>)))"
  by (cases t) (auto simp: no_half_close_ops_def split: prod.split)

end
