(* ===== verification/Relay.thy ===== *)
theory Relay
  imports Transport
begin

text \<open>
  \<open>src/src/core/relay.rs\<close>: the bidirectional copy between client and remote, with its idle and
  half-close timers and its accounting.

  \<open>poll_copy\<close> is the state machine of one direction, polymorphic in the two streams.  Its inner
  loop writes out the buffer and ends because every write moves \<open>pos\<close> forward; its outer loop
  goes on as long as the reader has data, so it carries fuel; one property says how much is enough.  \<open>relay_poll\<close> is one call of the \<open>poll_fn\<close> closure at a given instant and
  \<open>relay_finish\<close> what follows it.  Instants and durations are numbers of one unit; a \<open>Sleep\<close> is
  its deadline.  The calls of the statistics collector are a log of events.

  The lemmas show that the bytes delivered are the bytes received, in order and without loss, that
  the events bill exactly the bytes transferred, and when the timers end the session.
\<close>

section \<open>One direction\<close>

datatype relay_termination = Completed | HalfCloseTimeout | IdleTimeout | RelayError

fun termination_display :: "relay_termination \<Rightarrow> string" where
  "termination_display Completed = ''completed''"
| "termination_display HalfCloseTimeout = ''half_close_timeout''"
| "termination_display IdleTimeout = ''idle_timeout''"
| "termination_display RelayError = ''error''"

record copy_result =
  cr_a_to_b :: nat
  cr_b_to_a :: nat
  cr_termination :: relay_termination
  cr_client_eof :: bool
  cr_remote_eof :: bool

record directional_buffer =
  db_buf :: bytes
  db_pos :: nat
  db_cap :: nat
  db_amt :: nat
  db_read_done :: bool
  db_shutdown_done :: bool
  db_flush_ok :: bool

definition db_new :: "nat \<Rightarrow> directional_buffer" where
  "db_new buf_size =
     \<lparr>db_buf = replicate buf_size 0, db_pos = 0, db_cap = 0, db_amt = 0,
      db_read_done = False, db_shutdown_done = False, db_flush_ok = False\<rparr>"

definition is_done :: "directional_buffer \<Rightarrow> bool" where
  "is_done db = db_shutdown_done db"

definition has_read_eof :: "directional_buffer \<Rightarrow> bool" where
  "has_read_eof db = db_read_done db"

definition is_drained :: "directional_buffer \<Rightarrow> bool" where
  "is_drained db \<longleftrightarrow> db_read_done db \<and> db_pos db \<ge> db_cap db"

definition bytes_transferred :: "directional_buffer \<Rightarrow> nat" where
  "bytes_transferred db = db_amt db"

definition has_flushed :: "directional_buffer \<Rightarrow> bool" where
  "has_flushed db = db_flush_ok db"

text \<open>The unwritten part \<open>buf[pos..cap]\<close>, and a read into the buffer from an offset.\<close>

definition unwritten :: "directional_buffer \<Rightarrow> bytes" where
  "unwritten db = take (db_cap db - db_pos db) (drop (db_pos db) (db_buf db))"

definition fill :: "nat \<Rightarrow> bytes \<Rightarrow> bytes \<Rightarrow> bytes" where
  "fill off bs buf = take off buf @ bs @ drop (off + length bs) buf"

text \<open>A block of the loop either goes on or returns from \<open>poll_copy\<close>.\<close>

datatype flow = Next | Return "unit io_result poll"

text \<open>The probe read while the writer is blocked.\<close>

definition probe_read ::
    "'r stream_ops \<Rightarrow> directional_buffer \<Rightarrow> 'r \<Rightarrow> flow \<times> directional_buffer \<times> 'r" where
  "probe_read R self sr =
     (if \<not> db_read_done self \<and> db_cap self < length (db_buf self) then
        (case poll_read R sr (length (db_buf self) - db_cap self) of
           (Ready (Inr bs), sr') \<Rightarrow>
             (let n = length bs; self = self\<lparr>db_buf := fill (db_cap self) bs (db_buf self)\<rparr> in
              if n = 0 then (Return Pending, self\<lparr>db_read_done := True\<rparr>, sr')
              else (Return Pending, self\<lparr>db_cap := db_cap self + n\<rparr>, sr'))
         | (Ready (Inl e), sr') \<Rightarrow> (Return (Ready (Inl e)), self, sr')
         | (Pending, sr') \<Rightarrow> (Return Pending, self, sr'))
      else (Return Pending, self, sr))"

text \<open>Step 1: write the buffered data.\<close>

function write_buffered ::
    "'r stream_ops \<Rightarrow> 'w stream_ops \<Rightarrow> directional_buffer \<Rightarrow> 'r \<Rightarrow> 'w \<Rightarrow> flow \<times> directional_buffer \<times> 'r \<times> 'w" where
  "write_buffered R W self sr sw =
     (if \<not> db_pos self < db_cap self then (Next, self, sr, sw)
      else
        (case poll_write W sw (unwritten self) of
           (Ready (Inr i), sw') \<Rightarrow>
             if i = 0 then (Return (Ready (Inl (Io_Error WriteZero ''write zero bytes''))), self, sr, sw')
             else write_buffered R W (self\<lparr>db_pos := db_pos self + i, db_amt := db_amt self + i\<rparr>) sr sw'
         | (Ready (Inl e), sw') \<Rightarrow> (Return (Ready (Inl e)), self, sr, sw')
         | (Pending, sw') \<Rightarrow> (let (f, self', sr') = probe_read R self sr in (f, self', sr', sw'))))"
  by auto
termination write_buffered
  by (relation "measure (\<lambda>(R, W, self, sr, sw). db_cap self - db_pos self)") auto

declare write_buffered.simps [simp del]

text \<open>Step 2: best-effort flush.\<close>

definition flush_step :: "'w stream_ops \<Rightarrow> directional_buffer \<Rightarrow> 'w \<Rightarrow> flow \<times> directional_buffer \<times> 'w" where
  "flush_step W self sw =
     (case poll_flush W sw of
        (Ready (Inr _), sw') \<Rightarrow> (Next, self\<lparr>db_flush_ok := True\<rparr>, sw')
      | (Ready (Inl e), sw') \<Rightarrow> (Return (Ready (Inl e)), self, sw')
      | (Pending, sw') \<Rightarrow> (Next, self, sw'))"

text \<open>Step 3: after end of file, shut the writer down, whatever it answers.\<close>

definition shutdown_step :: "'w stream_ops \<Rightarrow> directional_buffer \<Rightarrow> 'w \<Rightarrow> flow \<times> directional_buffer \<times> 'w" where
  "shutdown_step W self sw =
     (case poll_shutdown W sw of
        (Ready _, sw') \<Rightarrow> (Return (Ready (Inr ())), self\<lparr>db_shutdown_done := True\<rparr>, sw')
      | (Pending, sw') \<Rightarrow> (Return Pending, self, sw'))"

text \<open>Step 4: read more.\<close>

definition read_step :: "'r stream_ops \<Rightarrow> directional_buffer \<Rightarrow> 'r \<Rightarrow> flow \<times> directional_buffer \<times> 'r" where
  "read_step R self sr =
     (case poll_read R sr (length (db_buf self)) of
        (Pending, sr') \<Rightarrow> (Return Pending, self, sr')
      | (Ready (Inl e), sr') \<Rightarrow> (Return (Ready (Inl e)), self, sr')
      | (Ready (Inr bs), sr') \<Rightarrow>
          (let n = length bs; self = self\<lparr>db_buf := fill 0 bs (db_buf self)\<rparr> in
           if n = 0 then (Next, self\<lparr>db_read_done := True\<rparr>, sr')
           else (Next, self\<lparr>db_pos := 0, db_cap := n\<rparr>, sr')))"

definition copy_round ::
    "'r stream_ops \<Rightarrow> 'w stream_ops \<Rightarrow> directional_buffer \<Rightarrow> 'r \<Rightarrow> 'w \<Rightarrow> flow \<times> directional_buffer \<times> 'r \<times> 'w" where
  "copy_round R W self sr sw =
     (case write_buffered R W self sr sw of
        (Return r, self, sr, sw) \<Rightarrow> (Return r, self, sr, sw)
      | (Next, self, sr, sw) \<Rightarrow>
          (case flush_step W self sw of
             (Return r, self, sw) \<Rightarrow> (Return r, self, sr, sw)
           | (Next, self, sw) \<Rightarrow>
               if db_read_done self then
                 (let (f, self, sw) = shutdown_step W self sw in (f, self, sr, sw))
               else
                 (let (f, self, sr) = read_step R self sr in (f, self, sr, sw))))"

fun copy_loop ::
    "nat \<Rightarrow> 'r stream_ops \<Rightarrow> 'w stream_ops \<Rightarrow> directional_buffer \<Rightarrow> 'r \<Rightarrow> 'w \<Rightarrow>
     (unit io_result poll \<times> directional_buffer \<times> 'r \<times> 'w) option" where
  "copy_loop 0 R W self sr sw = None"
| "copy_loop (Suc fuel) R W self sr sw =
     (case copy_round R W self sr sw of
        (Return r, self', sr', sw') \<Rightarrow> Some (r, self', sr', sw')
      | (Next, self', sr', sw') \<Rightarrow> copy_loop fuel R W self' sr' sw')"

definition poll_copy ::
    "nat \<Rightarrow> 'r stream_ops \<Rightarrow> 'w stream_ops \<Rightarrow> directional_buffer \<Rightarrow> 'r \<Rightarrow> 'w \<Rightarrow>
     (unit io_result poll \<times> directional_buffer \<times> 'r \<times> 'w) option" where
  "poll_copy fuel R W self sr sw =
     (if db_shutdown_done self then Some (Ready (Inr ()), self, sr, sw)
      else copy_loop fuel R W (self\<lparr>db_flush_ok := False\<rparr>) sr sw)"

section \<open>Both directions\<close>

datatype stat_event = Record_Request user_id | Record_Upload user_id nat | Record_Download user_id nat

record relay_config =
  rl_idle_timeout :: nat
  rl_uplink_only :: nat
  rl_downlink_only :: nat
  rl_user :: "user_id option"

record relay_state =
  rl_a_to_b :: directional_buffer
  rl_b_to_a :: directional_buffer
  rl_half_close_active :: bool
  rl_half_close_timeout :: nat
  rl_half_close_deadline :: nat
  rl_idle_deadline :: nat
  rl_termination :: relay_termination
  rl_reported_up :: nat
  rl_reported_down :: nat
  rl_events :: "stat_event list"

definition relay_init :: "relay_config \<Rightarrow> nat \<Rightarrow> nat \<Rightarrow> stat_event list \<Rightarrow> relay_state" where
  "relay_init cfg now buffer_size events =
     \<lparr>rl_a_to_b = db_new buffer_size, rl_b_to_a = db_new buffer_size,
      rl_half_close_active = False, rl_half_close_timeout = 0, rl_half_close_deadline = now,
      rl_idle_deadline = now + rl_idle_timeout cfg, rl_termination = Completed,
      rl_reported_up = 0, rl_reported_down = 0, rl_events = events\<rparr>"

text \<open>Starting the half-close window when one direction is drained.\<close>

definition start_half_close :: "relay_config \<Rightarrow> nat \<Rightarrow> relay_state \<Rightarrow> relay_state" where
  "start_half_close cfg now st =
     (let st =
        (if is_drained (rl_a_to_b st) \<and> \<not> is_done (rl_b_to_a st) \<and> \<not> rl_half_close_active st then
           st\<lparr>rl_half_close_active := True, rl_half_close_timeout := rl_downlink_only cfg,
              rl_half_close_deadline := now + rl_downlink_only cfg\<rparr>
         else st)
      in
        (if is_drained (rl_b_to_a st) \<and> \<not> is_done (rl_a_to_b st) \<and> \<not> rl_half_close_active st then
           st\<lparr>rl_half_close_active := True, rl_half_close_timeout := rl_uplink_only cfg,
              rl_half_close_deadline := now + rl_uplink_only cfg\<rparr>
         else st))"

text \<open>Incremental accounting.\<close>

definition report_traffic :: "relay_config \<Rightarrow> relay_state \<Rightarrow> relay_state" where
  "report_traffic cfg st =
     (case rl_user cfg of
        None \<Rightarrow> st
      | Some user \<Rightarrow>
          let up = bytes_transferred (rl_a_to_b st);
              st = (if up > rl_reported_up st
                    then st\<lparr>rl_events := rl_events st @ [Record_Upload user (up - rl_reported_up st)],
                            rl_reported_up := up\<rparr> else st);
              down = bytes_transferred (rl_b_to_a st)
          in (if down > rl_reported_down st
              then st\<lparr>rl_events := rl_events st @ [Record_Download user (down - rl_reported_down st)],
                      rl_reported_down := down\<rparr> else st))"

text \<open>Resetting the timers on confirmed progress.\<close>

definition reset_timers :: "relay_config \<Rightarrow> nat \<Rightarrow> bool \<Rightarrow> relay_state \<Rightarrow> relay_state" where
  "reset_timers cfg now progress st =
     (if progress then
        let st = st\<lparr>rl_idle_deadline := now + rl_idle_timeout cfg\<rparr> in
        (if rl_half_close_active st
         then st\<lparr>rl_half_close_deadline := now + rl_half_close_timeout st\<rparr> else st)
      else st)"

text \<open>The end conditions, in the order of the source.\<close>

definition check_end :: "nat \<Rightarrow> relay_state \<Rightarrow> unit io_result poll \<times> relay_state" where
  "check_end now st =
     (if is_done (rl_a_to_b st) \<and> is_done (rl_b_to_a st) then
        (Ready (Inr ()), st\<lparr>rl_termination := Completed\<rparr>)
      else if rl_half_close_active st \<and> rl_half_close_deadline st \<le> now then
        (Ready (Inr ()), st\<lparr>rl_termination := HalfCloseTimeout\<rparr>)
      else if rl_idle_deadline st \<le> now then
        (Ready (Inr ()), st\<lparr>rl_termination := IdleTimeout\<rparr>)
      else (Pending, st))"

text \<open>Polling one direction from the closure: a finished direction is skipped.\<close>

definition poll_direction ::
    "nat \<Rightarrow> 'r stream_ops \<Rightarrow> 'w stream_ops \<Rightarrow> directional_buffer \<Rightarrow> 'r \<Rightarrow> 'w \<Rightarrow>
     (unit io_result poll \<times> directional_buffer \<times> 'r \<times> 'w) option" where
  "poll_direction fuel R W db sr sw =
     (if \<not> is_done db then poll_copy fuel R W db sr sw else Some (Pending, db, sr, sw))"

text \<open>What the closure does after both directions were polled without an error.\<close>

definition after_polls ::
    "relay_config \<Rightarrow> nat \<Rightarrow> nat \<Rightarrow> nat \<Rightarrow> relay_state \<Rightarrow> unit io_result poll \<times> relay_state" where
  "after_polls cfg now a_before b_before st =
     (let st = start_half_close cfg now st;
          st = report_traffic cfg st;
          a_progress = (bytes_transferred (rl_a_to_b st) > a_before \<and> has_flushed (rl_a_to_b st));
          b_progress = (bytes_transferred (rl_b_to_a st) > b_before \<and> has_flushed (rl_b_to_a st));
          st = reset_timers cfg now (a_progress \<or> b_progress) st
      in check_end now st)"

definition relay_poll ::
    "nat \<Rightarrow> 'a stream_ops \<Rightarrow> 'b stream_ops \<Rightarrow> relay_config \<Rightarrow> nat \<Rightarrow> relay_state \<Rightarrow> 'a \<Rightarrow> 'b \<Rightarrow>
     (unit io_result poll \<times> relay_state \<times> 'a \<times> 'b) option" where
  "relay_poll fuel A B cfg now st a b =
     (let a_before = bytes_transferred (rl_a_to_b st);
          b_before = bytes_transferred (rl_b_to_a st) in
      case poll_direction fuel A B (rl_a_to_b st) a b of
        None \<Rightarrow> None
      | Some (ra, ab, a, b) \<Rightarrow>
          let st = st\<lparr>rl_a_to_b := ab\<rparr> in
          (case ra of
             Ready (Inl e) \<Rightarrow> Some (Ready (Inl e), st\<lparr>rl_termination := RelayError\<rparr>, a, b)
           | _ \<Rightarrow>
               (case poll_direction fuel B A (rl_b_to_a st) b a of
                  None \<Rightarrow> None
                | Some (rb, ba, b, a) \<Rightarrow>
                    let st = st\<lparr>rl_b_to_a := ba\<rparr> in
                    (case rb of
                       Ready (Inl e) \<Rightarrow> Some (Ready (Inl e), st\<lparr>rl_termination := RelayError\<rparr>, a, b)
                     | _ \<Rightarrow>
                         let (r, st) = after_polls cfg now a_before b_before st in Some (r, st, a, b)))))"

text \<open>After the closure has returned: the rest of the accounting and the result.\<close>

definition relay_finish ::
    "relay_config \<Rightarrow> unit io_result \<Rightarrow> relay_state \<Rightarrow> copy_result io_result \<times> relay_state" where
  "relay_finish cfg result st =
     (let st = report_traffic cfg st in
      ((case result of
          Inr _ \<Rightarrow>
            Inr \<lparr>cr_a_to_b = bytes_transferred (rl_a_to_b st), cr_b_to_a = bytes_transferred (rl_b_to_a st),
                 cr_termination = rl_termination st,
                 cr_client_eof = has_read_eof (rl_a_to_b st), cr_remote_eof = has_read_eof (rl_b_to_a st)\<rparr>
        | Inl e \<Rightarrow> Inl e), st))"

section \<open>One direction: no byte is lost\<close>

text \<open>
  The invariant of a direction, in terms of the histories of its two streams since the start
  (\<open>rx0\<close>, \<open>tx0\<close>): what was sent is a prefix of what was received, the rest is in the buffer, and
  \<open>amt\<close> counts what was sent.
\<close>

definition copy_inv :: "bytes \<Rightarrow> bytes \<Rightarrow> directional_buffer \<Rightarrow> bytes \<Rightarrow> bytes \<Rightarrow> bool" where
  "copy_inv rx0 tx0 db rx tx \<longleftrightarrow>
     db_pos db \<le> db_cap db \<and> db_cap db \<le> length (db_buf db) \<and>
     (\<exists>sent. tx = tx0 @ sent \<and> rx = rx0 @ sent @ unwritten db \<and> db_amt db = length sent) \<and>
     (db_shutdown_done db \<longrightarrow> db_read_done db \<and> db_pos db = db_cap db)"

lemma copy_inv_new: "copy_inv rx tx (db_new n) rx tx"
  by (simp add: copy_inv_def db_new_def unwritten_def)

lemma length_fill: "off + length bs \<le> length buf \<Longrightarrow> length (fill off bs buf) = length buf"
  by (simp add: fill_def)

lemma unwritten_fill_cap:
  assumes "db_pos db \<le> db_cap db" "db_cap db + length bs \<le> length (db_buf db)"
  shows "unwritten (db\<lparr>db_buf := fill (db_cap db) bs (db_buf db), db_cap := db_cap db + length bs\<rparr>) = unwritten db @ bs"
  using assms by (simp add: unwritten_def fill_def drop_take)

lemma unwritten_fill_0:
  "length bs \<le> length (db_buf db) \<Longrightarrow>
   unwritten (db\<lparr>db_buf := fill 0 bs (db_buf db), db_pos := 0, db_cap := length bs\<rparr>) = bs"
  by (simp add: unwritten_def fill_def)

lemma fill_nil [simp]: "off \<le> length buf \<Longrightarrow> fill off [] buf = buf"
  by (simp add: fill_def)

lemma unwritten_cong [simp]:
  "unwritten (db\<lparr>db_read_done := x\<rparr>) = unwritten db" "unwritten (db\<lparr>db_flush_ok := x\<rparr>) = unwritten db"
  "unwritten (db\<lparr>db_shutdown_done := x\<rparr>) = unwritten db" "unwritten (db\<lparr>db_amt := k\<rparr>) = unwritten db"
  by (simp_all add: unwritten_def)

lemma unwritten_advance:
  assumes "i \<le> length (unwritten db)"
  shows "unwritten db = take i (unwritten db) @ unwritten (db\<lparr>db_pos := db_pos db + i, db_amt := k\<rparr>)"
proof -
  have "unwritten (db\<lparr>db_pos := db_pos db + i, db_amt := k\<rparr>) = drop i (unwritten db)"
    by (simp add: unwritten_def drop_take add.commute)
  then show ?thesis by simp
qed

lemma copy_inv_flags [simp]:
  "copy_inv rx0 tx0 (db\<lparr>db_flush_ok := x\<rparr>) rx tx = copy_inv rx0 tx0 db rx tx"
  by (simp add: copy_inv_def)

lemma copy_inv_eof:
  "copy_inv rx0 tx0 db rx tx \<Longrightarrow> \<not> db_shutdown_done db \<Longrightarrow> copy_inv rx0 tx0 (db\<lparr>db_read_done := True\<rparr>) rx tx"
  by (simp add: copy_inv_def)

lemma copy_inv_shutdown:
  "copy_inv rx0 tx0 db rx tx \<Longrightarrow> db_read_done db \<Longrightarrow> db_pos db = db_cap db \<Longrightarrow>
   copy_inv rx0 tx0 (db\<lparr>db_shutdown_done := True\<rparr>) rx tx"
  by (simp add: copy_inv_def)

lemma copy_inv_advance:
  assumes inv: "copy_inv rx0 tx0 db rx tx" and i: "i \<le> length (unwritten db)" and sd: "\<not> db_shutdown_done db"
  shows "copy_inv rx0 tx0 (db\<lparr>db_pos := db_pos db + i, db_amt := db_amt db + i\<rparr>) rx (tx @ take i (unwritten db))"
proof -
  let ?db = "db\<lparr>db_pos := db_pos db + i, db_amt := db_amt db + i\<rparr>"
  obtain sent where s: "tx = tx0 @ sent" "rx = rx0 @ sent @ unwritten db" "db_amt db = length sent"
    using inv by (auto simp: copy_inv_def)
  have b: "db_pos db \<le> db_cap db" "db_cap db \<le> length (db_buf db)" using inv by (auto simp: copy_inv_def)
  have "tx @ take i (unwritten db) = tx0 @ (sent @ take i (unwritten db))" by (simp add: s)
  moreover have "rx = rx0 @ (sent @ take i (unwritten db)) @ unwritten ?db"
    unfolding s(2) using unwritten_advance [OF i, of "db_amt db + i"] by simp
  moreover have "db_amt ?db = length (sent @ take i (unwritten db))" using i s(3) by simp
  moreover have "db_pos ?db \<le> db_cap ?db" using i b by (simp add: unwritten_def)
  ultimately show ?thesis using b sd unfolding copy_inv_def by auto
qed

locale copy_pair = reader: async_stream R rxr txr + writer: async_stream W rxw txw
  for R :: "'r stream_ops" and rxr txr and W :: "'w stream_ops" and rxw txw
begin

lemma probe_read_inv:
  assumes inv: "copy_inv rx0 tx0 db (rxr sr) tx" and p: "probe_read R db sr = (f, db', sr')" and sd: "\<not> db_shutdown_done db"
  shows "copy_inv rx0 tx0 db' (rxr sr') tx \<and> txr sr' = txr sr \<and> db_amt db' = db_amt db \<and> \<not> db_shutdown_done db' \<and>
    f \<noteq> Next \<and> f \<noteq> Return (Ready (Inr ()))"
proof (cases "\<not> db_read_done db \<and> db_cap db < length (db_buf db)")
  case False
  then show ?thesis using p inv sd by (auto simp: probe_read_def)
next
  case True
  obtain r s2 where r: "poll_read R sr (length (db_buf db) - db_cap db) = (r, s2)" by fastforce
  have b: "db_pos db \<le> db_cap db" using inv by (simp add: copy_inv_def)
  show ?thesis
  proof (cases "\<exists>bs. r = Ready (Inr bs) \<and> bs \<noteq> []")
    case False
    then show ?thesis
      using p True r reader.read_rest [of sr "length (db_buf db) - db_cap db"]
        reader.read_Ok [of sr "length (db_buf db) - db_cap db"] copy_inv_eof [OF inv sd] inv sd
      by (cases r) (auto simp: probe_read_def Let_def split: sum.splits)
  next
    case bs: True
    then obtain bs where bs: "r = Ready (Inr bs)" "bs \<noteq> []" by blast
    have rd: "length bs \<le> length (db_buf db) - db_cap db" "rxr s2 = rxr sr @ bs" "txr s2 = txr sr"
      using reader.read_Ok r bs by auto
    have db': "db' = db\<lparr>db_buf := fill (db_cap db) bs (db_buf db), db_cap := db_cap db + length bs\<rparr>"
      and fs: "f = Return Pending" "sr' = s2"
      using p True r bs by (auto simp: probe_read_def Let_def)
    have le: "db_cap db + length bs \<le> length (db_buf db)" using rd(1) True by linarith
    have "unwritten db' = unwritten db @ bs" unfolding db' by (rule unwritten_fill_cap [OF b le])
    moreover have "db_cap db' \<le> length (db_buf db')" unfolding db' using le by (simp add: length_fill)
    ultimately show ?thesis using inv rd fs sd unfolding copy_inv_def by (auto simp: db')
  qed
qed

lemma write_buffered_inv:
  assumes "copy_inv rx0 tx0 db (rxr sr) (txw sw)" and "write_buffered R W db sr sw = (f, db', sr', sw')"
    and "\<not> db_shutdown_done db"
  shows "copy_inv rx0 tx0 db' (rxr sr') (txw sw') \<and> txr sr' = txr sr \<and> rxw sw' = rxw sw \<and>
    db_amt db \<le> db_amt db' \<and> \<not> db_shutdown_done db' \<and> f \<noteq> Return (Ready (Inr ())) \<and>
    (f = Next \<longrightarrow> db_pos db' = db_cap db' \<and> sr' = sr)"
  using assms
proof (induction "db_cap db - db_pos db" arbitrary: db sr sw rule: less_induct)
  case less
  note w = less.prems(2) [unfolded write_buffered.simps [of R W db sr sw]]
  have b: "db_pos db \<le> db_cap db" "db_cap db \<le> length (db_buf db)" using less.prems(1) by (auto simp: copy_inv_def)
  show ?case
  proof (cases "db_pos db < db_cap db")
    case False
    then show ?thesis using w less.prems b by auto
  next
    case True
    obtain r s2 where r: "poll_write W sw (unwritten db) = (r, s2)" by fastforce
    consider (ok) i where "r = Ready (Inr i)" "i \<noteq> 0" | (zero) "r = Ready (Inr 0)" | (err) e where "r = Ready (Inl e)" | (pend) "r = Pending"
      by (cases r) (metis sum.exhaust)+
    then show ?thesis
    proof cases
      case ok
      let ?db = "db\<lparr>db_pos := db_pos db + i, db_amt := db_amt db + i\<rparr>"
      have k: "i \<le> length (unwritten db)" "txw s2 = txw sw @ take i (unwritten db)" "rxw s2 = rxw sw"
        using writer.write_Ok r ok by auto
      have "write_buffered R W ?db sr s2 = (f, db', sr', sw')" using w True r ok by simp
      moreover have "copy_inv rx0 tx0 ?db (rxr sr) (txw s2)"
        using copy_inv_advance [OF less.prems(1) k(1) less.prems(3)] k(2) by simp
      moreover have "db_cap ?db - db_pos ?db < db_cap db - db_pos db" using True ok by simp
      ultimately show ?thesis using less.hyps [of ?db sr s2] less.prems(3) k(3) by (auto dest: add_leD1)
    next
      case zero
      then show ?thesis using w True r less.prems writer.write_Ok [of sw "unwritten db" 0 s2] by auto
    next
      case err
      then show ?thesis using w True r less.prems writer.write_rest(2) [of sw "unwritten db" e s2] by auto
    next
      case pend
      then obtain f2 db2 sr2 where p: "probe_read R db sr = (f2, db2, sr2)" by (metis prod_cases3)
      then have eq: "f = f2" "db' = db2" "sr' = sr2" "sw' = s2" using w True r pend by auto
      show ?thesis
        using probe_read_inv [OF less.prems(1) p less.prems(3)] writer.write_rest(1) [of sw "unwritten db" s2] r pend eq
        by simp
    qed
  qed
qed

lemma flush_step_inv:
  assumes "copy_inv rx0 tx0 db rx (txw sw)" and "flush_step W db sw = (f, db', sw')"
  shows "copy_inv rx0 tx0 db' rx (txw sw') \<and> rxw sw' = rxw sw \<and> db_amt db' = db_amt db \<and>
    db_shutdown_done db' = db_shutdown_done db \<and> db_pos db' = db_pos db \<and> db_cap db' = db_cap db \<and>
    db_read_done db' = db_read_done db \<and> f \<noteq> Return (Ready (Inr ())) \<and> f \<noteq> Return Pending"
  using assms writer.flush_law [of sw _ sw']
  by (auto simp: flush_step_def split: prod.splits poll.splits sum.splits)

lemma shutdown_step_inv:
  assumes "copy_inv rx0 tx0 db rx (txw sw)" and "shutdown_step W db sw = (f, db', sw')"
    and "db_read_done db" and "db_pos db = db_cap db"
  shows "copy_inv rx0 tx0 db' rx (txw sw') \<and> rxw sw' = rxw sw \<and> db_amt db' = db_amt db \<and> f \<noteq> Next \<and>
    (f = Return (Ready (Inr ())) \<longrightarrow> db_shutdown_done db')"
proof -
  obtain q s2 where q: "poll_shutdown W sw = (q, s2)" by fastforce
  have eq: "sw' = s2" "db' = (if q = Pending then db else db\<lparr>db_shutdown_done := True\<rparr>)"
    "f = (if q = Pending then Return Pending else Return (Ready (Inr ())))"
    using assms(2) q by (cases q; simp add: shutdown_step_def)+
  have "copy_inv rx0 tx0 db' rx (txw sw)"
    using assms(1) copy_inv_shutdown [OF assms(1,3,4)] by (simp add: eq(2))
  then show ?thesis using writer.shutdown_law [OF q] eq by simp
qed

lemma read_step_inv:
  assumes inv: "copy_inv rx0 tx0 db (rxr sr) tx" and r: "read_step R db sr = (f, db', sr')"
    and e: "db_pos db = db_cap db" and sd: "\<not> db_shutdown_done db"
  shows "copy_inv rx0 tx0 db' (rxr sr') tx \<and> txr sr' = txr sr \<and> db_amt db' = db_amt db \<and> \<not> db_shutdown_done db' \<and>
    f \<noteq> Return (Ready (Inr ()))"
proof -
  obtain q s2 where q: "poll_read R sr (length (db_buf db)) = (q, s2)" by fastforce
  have u: "unwritten db = []" using e by (simp add: unwritten_def)
  show ?thesis
  proof (cases "\<exists>bs. q = Ready (Inr bs) \<and> bs \<noteq> []")
    case False
    then consider (eof) "q = Ready (Inr [])" | (err) err where "q = Ready (Inl err)" | (pend) "q = Pending"
      by (cases q) (metis sum.exhaust)+
    then show ?thesis
    proof cases
      case eof
      then have eq: "db' = db\<lparr>db_read_done := True\<rparr>" "f = Next" "sr' = s2"
        using r q by (auto simp: read_step_def Let_def)
      show ?thesis using reader.read_Ok [of sr _ "[]" s2] q eof copy_inv_eof [OF inv sd] sd by (simp add: eq)
    next
      case err
      then have eq: "db' = db" "f = Return (Ready (Inl err))" "sr' = s2"
        using r q by (auto simp: read_step_def)
      show ?thesis using reader.read_rest(2) [of sr _ err s2] q err inv sd by (simp add: eq)
    next
      case pend
      then have eq: "db' = db" "f = Return Pending" "sr' = s2" using r q by (auto simp: read_step_def)
      show ?thesis using reader.read_rest(1) [of sr _ s2] q pend inv sd by (simp add: eq)
    qed
  next
    case True
    then obtain bs where bs: "q = Ready (Inr bs)" "bs \<noteq> []" by blast
    have rd: "length bs \<le> length (db_buf db)" "rxr s2 = rxr sr @ bs" "txr s2 = txr sr"
      using reader.read_Ok q bs by auto
    have db': "db' = db\<lparr>db_buf := fill 0 bs (db_buf db), db_pos := 0, db_cap := length bs\<rparr>"
      and fs: "f = Next" "sr' = s2"
      using r q bs by (auto simp: read_step_def Let_def)
    have "unwritten db' = bs" unfolding db' by (rule unwritten_fill_0 [OF rd(1)])
    moreover have "db_cap db' \<le> length (db_buf db')" unfolding db' using rd(1) by (simp add: length_fill)
    ultimately show ?thesis using inv rd fs sd u unfolding copy_inv_def by (auto simp: db')
  qed
qed

lemma copy_round_inv:
  assumes inv: "copy_inv rx0 tx0 db (rxr sr) (txw sw)" and r: "copy_round R W db sr sw = (f, db', sr', sw')"
    and sd: "\<not> db_shutdown_done db"
  shows "copy_inv rx0 tx0 db' (rxr sr') (txw sw') \<and> txr sr' = txr sr \<and> rxw sw' = rxw sw \<and> db_amt db \<le> db_amt db' \<and>
    (f = Next \<longrightarrow> \<not> db_shutdown_done db') \<and> (f = Return (Ready (Inr ())) \<longrightarrow> db_shutdown_done db')"
proof -
  obtain f1 db1 sr1 sw1 where w: "write_buffered R W db sr sw = (f1, db1, sr1, sw1)" by (metis prod_cases4)
  note w' = write_buffered_inv [OF inv w sd]
  show ?thesis
  proof (cases f1)
    case (Return q)
    then show ?thesis using r w w' by (auto simp: copy_round_def)
  next
    case Next
    obtain f2 db2 sw2 where fl: "flush_step W db1 sw1 = (f2, db2, sw2)" by (metis prod_cases3)
    note fl' = flush_step_inv [OF conjunct1 [OF w'] fl]
    show ?thesis
    proof (cases f2)
      case (Return q)
      then show ?thesis using r w w' Next fl fl' by (auto simp: copy_round_def)
    next
      case n2: Next
      show ?thesis
      proof (cases "db_read_done db2")
        case True
        obtain f3 db3 sw3 where s3: "shutdown_step W db2 sw2 = (f3, db3, sw3)" by (metis prod_cases3)
        have e: "db_pos db2 = db_cap db2" using fl' w' Next by simp
        have eq: "f = f3" "db' = db3" "sr' = sr1" "sw' = sw3"
          using r w Next fl n2 True s3 by (auto simp: copy_round_def)
        show ?thesis using shutdown_step_inv [OF conjunct1 [OF fl'] s3 True e] w' fl' eq by auto
      next
        case False
        obtain f3 db3 sr3 where s3: "read_step R db2 sr1 = (f3, db3, sr3)" by (metis prod_cases3)
        have e: "db_pos db2 = db_cap db2" "\<not> db_shutdown_done db2" using fl' w' Next by simp_all
        have eq: "f = f3" "db' = db3" "sr' = sr3" "sw' = sw2"
          using r w Next fl n2 False s3 by (auto simp: copy_round_def)
        show ?thesis using read_step_inv [OF conjunct1 [OF fl'] s3 e] w' fl' eq by auto
      qed
    qed
  qed
qed

lemma copy_loop_inv:
  assumes "copy_inv rx0 tx0 db (rxr sr) (txw sw)" and "copy_loop fuel R W db sr sw = Some (r, db', sr', sw')"
    and "\<not> db_shutdown_done db"
  shows "copy_inv rx0 tx0 db' (rxr sr') (txw sw') \<and> txr sr' = txr sr \<and> rxw sw' = rxw sw \<and> db_amt db \<le> db_amt db' \<and>
    (r = Ready (Inr ()) \<longrightarrow> db_shutdown_done db')"
  using assms
proof (induction fuel arbitrary: db sr sw)
  case (Suc fuel)
  obtain f1 db1 sr1 sw1 where c: "copy_round R W db sr sw = (f1, db1, sr1, sw1)" by (metis prod_cases4)
  note c' = copy_round_inv [OF Suc.prems(1) c Suc.prems(3)]
  show ?case
  proof (cases f1)
    case Next
    then show ?thesis using Suc.IH [of db1 sr1 sw1] Suc.prems(2) c c' by auto
  next
    case (Return q)
    then show ?thesis using Suc.prems(2) c c' by auto
  qed
qed simp

lemma poll_copy_inv:
  assumes "copy_inv rx0 tx0 db (rxr sr) (txw sw)" and "poll_copy fuel R W db sr sw = Some (r, db', sr', sw')"
  shows "copy_inv rx0 tx0 db' (rxr sr') (txw sw') \<and> txr sr' = txr sr \<and> rxw sw' = rxw sw \<and> db_amt db \<le> db_amt db' \<and>
    (r = Ready (Inr ()) \<longrightarrow> db_shutdown_done db')"
proof (cases "db_shutdown_done db")
  case True
  then show ?thesis using assms by (simp add: poll_copy_def)
next
  case False
  then show ?thesis
    using assms copy_loop_inv [of rx0 tx0 "db\<lparr>db_flush_ok := False\<rparr>" sr sw fuel r db' sr' sw']
    by (simp add: poll_copy_def)
qed

lemma poll_direction_inv:
  assumes "copy_inv rx0 tx0 db (rxr sr) (txw sw)" and "poll_direction fuel R W db sr sw = Some (r, db', sr', sw')"
  shows "copy_inv rx0 tx0 db' (rxr sr') (txw sw') \<and> txr sr' = txr sr \<and> rxw sw' = rxw sw \<and> db_amt db \<le> db_amt db'"
  using assms poll_copy_inv [OF assms(1), of fuel r db' sr' sw'] by (auto simp: poll_direction_def split: if_splits)

end

section \<open>One direction: the loop ends\<close>

text \<open>\<open>avail\<close> bounds the reads that can still succeed with data before the reader must be waited for.\<close>

definition bounded_reads :: "'r stream_ops \<Rightarrow> ('r \<Rightarrow> nat) \<Rightarrow> bool" where
  "bounded_reads R avail \<longleftrightarrow>
     (\<forall>s n bs s'. poll_read R s n = (Ready (Inr bs), s') \<longrightarrow> bs \<noteq> [] \<longrightarrow> avail s' < avail s)"

lemma write_buffered_Next:
  "write_buffered R W db sr sw = (Next, db', sr', sw') \<Longrightarrow> sr' = sr \<and> db_read_done db' = db_read_done db"
proof (induction "db_cap db - db_pos db" arbitrary: db sw rule: less_induct)
  case less
  note w = less.prems [unfolded write_buffered.simps [of R W db sr sw]]
  show ?case
  proof (cases "db_pos db < db_cap db")
    case True
    then obtain i s2 where "0 < i"
      "write_buffered R W (db\<lparr>db_pos := db_pos db + i, db_amt := db_amt db + i\<rparr>) sr s2 = (Next, db', sr', sw')"
      using w by (auto simp: probe_read_def Let_def split: prod.splits poll.splits sum.splits if_splits)
    then show ?thesis
      using less.hyps [of "db\<lparr>db_pos := db_pos db + i, db_amt := db_amt db + i\<rparr>" s2] True by simp
  qed (use w in simp)
qed

lemma copy_round_Next:
  assumes "bounded_reads R avail" and "copy_round R W db sr sw = (Next, db', sr', sw')"
  shows "\<not> db_read_done db \<and> (db_read_done db' \<or> avail sr' < avail sr)"
proof -
  obtain f1 db1 sr1 sw1 where w: "write_buffered R W db sr sw = (f1, db1, sr1, sw1)" by (metis prod_cases4)
  have f1: "f1 = Next" using assms(2) w by (cases f1) (auto simp: copy_round_def)
  note w' = write_buffered_Next [OF w [unfolded f1]]
  obtain f2 db2 sw2 where fl: "flush_step W db1 sw1 = (f2, db2, sw2)" by (metis prod_cases3)
  have f2: "f2 = Next" using assms(2) w f1 fl by (cases f2) (auto simp: copy_round_def)
  have r2: "db_read_done db2 = db_read_done db1"
    using fl by (auto simp: flush_step_def split: prod.splits poll.splits sum.splits)
  have nr: "\<not> db_read_done db2"
    using assms(2) w f1 fl f2 by (auto simp: copy_round_def shutdown_step_def split: prod.splits poll.splits if_splits)
  obtain f3 db3 sr3 where s3: "read_step R db2 sr1 = (f3, db3, sr3)" by (metis prod_cases3)
  have "f3 = Next" "db' = db3" "sr' = sr3" using assms(2) w f1 fl f2 nr s3 by (auto simp: copy_round_def)
  then have "db_read_done db' \<or> avail sr' < avail sr1"
    using s3 assms(1) unfolding bounded_reads_def read_step_def
    by (fastforce simp: Let_def split: prod.splits poll.splits sum.splits if_splits)
  then show ?thesis using nr r2 w' by simp
qed

lemma copy_loop_enough:
  assumes "bounded_reads R avail" and "(if db_read_done db then 1 else avail sr + 2) \<le> fuel"
  shows "\<exists>res. copy_loop fuel R W db sr sw = Some res"
  using assms(2)
proof (induction fuel arbitrary: db sr sw)
  case (Suc fuel)
  obtain f1 db1 sr1 sw1 where c: "copy_round R W db sr sw = (f1, db1, sr1, sw1)" by (metis prod_cases4)
  show ?case
  proof (cases f1)
    case Next
    have "(if db_read_done db1 then 1 else avail sr1 + 2) \<le> fuel"
      using copy_round_Next [OF assms(1) c [unfolded Next]] Suc.prems by (auto split: if_splits)
    then show ?thesis using Suc.IH c Next by simp
  qed (use c in simp)
qed (simp split: if_splits)

text \<open>
  A stream that can hand out data at most \<open>N\<close> times in a row before it has to be waited for, such as
  one with a finite receive buffer; then \<open>N + 2\<close> rounds are enough for a poll of the session.
\<close>

definition reads_within :: "nat \<Rightarrow> 's stream_ops \<Rightarrow> bool" where
  "reads_within N S \<longleftrightarrow> (\<exists>avail. bounded_reads S avail \<and> (\<forall>s. avail s \<le> N))"

lemma poll_direction_returns:
  assumes "reads_within N R" and "N + 2 \<le> fuel"
  shows "poll_direction fuel R W db sr sw \<noteq> None"
proof -
  obtain avail where a: "bounded_reads R avail" "avail sr \<le> N" using assms(1) by (auto simp: reads_within_def)
  then have "(if db_read_done (db\<lparr>db_flush_ok := False\<rparr>) then 1 else avail sr + 2) \<le> fuel" using assms(2) by auto
  from copy_loop_enough [OF a(1) this, of W sw] show ?thesis by (auto simp: poll_direction_def poll_copy_def)
qed

lemma relay_poll_returns:
  assumes "reads_within N A" "reads_within N B" and "N + 2 \<le> fuel"
  shows "relay_poll fuel A B cfg now st a b \<noteq> None"
proof -
  obtain ra ab a1 b1 where 1: "poll_direction fuel A B (rl_a_to_b st) a b = Some (ra, ab, a1, b1)"
    using poll_direction_returns [OF assms(1,3), of B "rl_a_to_b st" a b] by (auto simp del: not_None_eq elim: option.exhaust)
  obtain rb ba b2 a2 where 2: "poll_direction fuel B A (rl_b_to_a st) b1 a1 = Some (rb, ba, b2, a2)"
    using poll_direction_returns [OF assms(2,3), of A "rl_b_to_a st" b1 a1] by (auto simp del: not_None_eq elim: option.exhaust)
  show ?thesis by (simp add: relay_poll_def Let_def 1 2 split: poll.splits sum.splits prod.splits)
qed

lemma reads_within_no_half_close: "reads_within N A \<Longrightarrow> reads_within N (no_half_close_ops A)"
proof -
  assume "reads_within N A"
  then obtain avail where a: "bounded_reads A avail" "\<forall>s. avail s \<le> N" by (auto simp: reads_within_def)
  then have "bounded_reads (no_half_close_ops A) (\<lambda>s. avail (nh_inner s))"
    unfolding bounded_reads_def by (auto simp: no_half_close_ops_def split: prod.splits)
  then show ?thesis using a(2) unfolding reads_within_def by blast
qed

section \<open>The session: bytes, billing, timers\<close>

text \<open>
  A run of the session: polls that return \<open>Pending\<close>, at any instants, with any changes of the
  streams from outside in between that keep their histories \<open>ha\<close> and \<open>hb\<close> (pairs of bytes handed
  out and bytes accepted).
\<close>

inductive relay_run ::
    "'a stream_ops \<Rightarrow> 'b stream_ops \<Rightarrow> relay_config \<Rightarrow> ('a \<Rightarrow> bytes \<times> bytes) \<Rightarrow> ('b \<Rightarrow> bytes \<times> bytes) \<Rightarrow>
     relay_state \<times> 'a \<times> 'b \<Rightarrow> relay_state \<times> 'a \<times> 'b \<Rightarrow> bool"
  for A B cfg ha hb where
  start: "relay_run A B cfg ha hb s s"
| poll: "relay_run A B cfg ha hb s (st, a, b) \<Longrightarrow> relay_poll fuel A B cfg now st a b = Some (Pending, st', a', b') \<Longrightarrow>
     relay_run A B cfg ha hb s (st', a', b')"
| env: "relay_run A B cfg ha hb s (st, a, b) \<Longrightarrow> ha a' = ha a \<Longrightarrow> hb b' = hb b \<Longrightarrow>
     relay_run A B cfg ha hb s (st, a', b')"

text \<open>The bookkeeping after the polls leaves the buffers alone.\<close>

lemma start_half_close_frames [simp]:
  "rl_a_to_b (start_half_close cfg now st) = rl_a_to_b st" "rl_b_to_a (start_half_close cfg now st) = rl_b_to_a st"
  "rl_events (start_half_close cfg now st) = rl_events st"
  "rl_reported_up (start_half_close cfg now st) = rl_reported_up st"
  "rl_reported_down (start_half_close cfg now st) = rl_reported_down st"
  "rl_idle_deadline (start_half_close cfg now st) = rl_idle_deadline st"
  by (simp_all add: start_half_close_def Let_def)

lemma report_traffic_frames [simp]:
  "rl_a_to_b (report_traffic cfg st) = rl_a_to_b st" "rl_b_to_a (report_traffic cfg st) = rl_b_to_a st"
  "rl_half_close_active (report_traffic cfg st) = rl_half_close_active st"
  "rl_half_close_timeout (report_traffic cfg st) = rl_half_close_timeout st"
  "rl_half_close_deadline (report_traffic cfg st) = rl_half_close_deadline st"
  "rl_idle_deadline (report_traffic cfg st) = rl_idle_deadline st"
  "rl_termination (report_traffic cfg st) = rl_termination st"
  by (simp_all add: report_traffic_def Let_def split: option.split)

lemma reset_timers_frames [simp]:
  "rl_a_to_b (reset_timers cfg now p st) = rl_a_to_b st" "rl_b_to_a (reset_timers cfg now p st) = rl_b_to_a st"
  "rl_events (reset_timers cfg now p st) = rl_events st"
  "rl_reported_up (reset_timers cfg now p st) = rl_reported_up st"
  "rl_reported_down (reset_timers cfg now p st) = rl_reported_down st"
  "rl_half_close_active (reset_timers cfg now p st) = rl_half_close_active st"
  "rl_half_close_timeout (reset_timers cfg now p st) = rl_half_close_timeout st"
  by (simp_all add: reset_timers_def Let_def)

lemma check_end_frames:
  assumes "check_end now st = (r, st')"
  shows "rl_a_to_b st' = rl_a_to_b st" "rl_b_to_a st' = rl_b_to_a st" "rl_events st' = rl_events st"
    "rl_reported_up st' = rl_reported_up st" "rl_reported_down st' = rl_reported_down st"
    "r = Pending \<Longrightarrow> st' = st \<and> \<not> (is_done (rl_a_to_b st) \<and> is_done (rl_b_to_a st)) \<and>
       (rl_half_close_active st \<longrightarrow> now < rl_half_close_deadline st) \<and> now < rl_idle_deadline st"
    "r = Pending \<or> r = Ready (Inr ())"
    "r \<noteq> Pending \<Longrightarrow> rl_termination st' = Completed \<Longrightarrow> is_done (rl_a_to_b st) \<and> is_done (rl_b_to_a st)"
  using assms by (auto simp: check_end_def split: if_splits)

lemma after_polls_frames:
  assumes "after_polls cfg now x y st = (r, st')"
  shows "rl_a_to_b st' = rl_a_to_b st" "rl_b_to_a st' = rl_b_to_a st"
    "rl_events st' = rl_events (report_traffic cfg (start_half_close cfg now st))"
    "rl_reported_up st' = rl_reported_up (report_traffic cfg (start_half_close cfg now st))"
    "rl_reported_down st' = rl_reported_down (report_traffic cfg (start_half_close cfg now st))"
    "r = Pending \<or> r = Ready (Inr ())"
    "r \<noteq> Pending \<Longrightarrow> rl_termination st' = Completed \<Longrightarrow> is_done (rl_a_to_b st) \<and> is_done (rl_b_to_a st)"
  using check_end_frames [OF assms [unfolded after_polls_def Let_def]] by simp_all

text \<open>The three ways one poll can go.\<close>

lemma relay_poll_cases:
  assumes "relay_poll fuel A B cfg now st a b = Some (r, st', a', b')"
  obtains
    (up_error) e ab where "poll_direction fuel A B (rl_a_to_b st) a b = Some (Ready (Inl e), ab, a', b')"
      "r = Ready (Inl e)" "st' = st\<lparr>rl_a_to_b := ab, rl_termination := RelayError\<rparr>"
  | (down_error) ra ab a1 b1 e ba where "poll_direction fuel A B (rl_a_to_b st) a b = Some (ra, ab, a1, b1)"
      "poll_direction fuel B A (rl_b_to_a st) b1 a1 = Some (Ready (Inl e), ba, b', a')"
      "r = Ready (Inl e)" "st' = st\<lparr>rl_a_to_b := ab, rl_b_to_a := ba, rl_termination := RelayError\<rparr>"
  | (both) ra ab a1 b1 rb ba where "poll_direction fuel A B (rl_a_to_b st) a b = Some (ra, ab, a1, b1)"
      "poll_direction fuel B A (rl_b_to_a st) b1 a1 = Some (rb, ba, b', a')"
      "after_polls cfg now (bytes_transferred (rl_a_to_b st)) (bytes_transferred (rl_b_to_a st))
         (st\<lparr>rl_a_to_b := ab, rl_b_to_a := ba\<rparr>) = (r, st')"
  using assms
  by (fastforce simp: relay_poll_def Let_def split: option.splits prod.splits poll.splits sum.splits)

locale relay_pair = a: async_stream A rxa txa + b: async_stream B rxb txb
  for A :: "'a stream_ops" and rxa txa and B :: "'b stream_ops" and rxb txb

sublocale relay_pair \<subseteq> up: copy_pair A rxa txa B rxb txb
  by unfold_locales

sublocale relay_pair \<subseteq> down: copy_pair B rxb txb A rxa txa
  by unfold_locales

text \<open>Both directions of the invariant, from the histories at the start.\<close>

definition relay_inv ::
    "bytes \<times> bytes \<Rightarrow> bytes \<times> bytes \<Rightarrow> relay_state \<Rightarrow> bytes \<times> bytes \<Rightarrow> bytes \<times> bytes \<Rightarrow> bool" where
  "relay_inv ha0 hb0 st ha hb \<longleftrightarrow>
     copy_inv (fst ha0) (snd hb0) (rl_a_to_b st) (fst ha) (snd hb) \<and>
     copy_inv (fst hb0) (snd ha0) (rl_b_to_a st) (fst hb) (snd ha)"

context relay_pair
begin

abbreviation "ha x \<equiv> (rxa x, txa x)"
abbreviation "hb x \<equiv> (rxb x, txb x)"

lemma poll_both_inv:
  assumes "relay_inv ha0 hb0 st (ha a) (hb b)"
    and "poll_direction fuel A B (rl_a_to_b st) a b = Some (ra, ab, a1, b1)"
    and "poll_direction fuel B A (rl_b_to_a st) b1 a1 = Some (rb, ba, b2, a2)"
  shows "relay_inv ha0 hb0 (st\<lparr>rl_a_to_b := ab, rl_b_to_a := ba\<rparr>) (ha a2) (hb b2) \<and>
    bytes_transferred (rl_a_to_b st) \<le> bytes_transferred ab \<and> bytes_transferred (rl_b_to_a st) \<le> bytes_transferred ba"
proof -
  have inv: "copy_inv (fst ha0) (snd hb0) (rl_a_to_b st) (rxa a) (txb b)"
    "copy_inv (fst hb0) (snd ha0) (rl_b_to_a st) (rxb b) (txa a)"
    using assms(1) by (simp_all add: relay_inv_def)
  note u = up.poll_direction_inv [OF inv(1) assms(2)]
  have "copy_inv (fst hb0) (snd ha0) (rl_b_to_a st) (rxb b1) (txa a1)" using inv(2) u by simp
  note d = down.poll_direction_inv [OF this assms(3)]
  show ?thesis using u d by (simp add: relay_inv_def bytes_transferred_def)
qed

lemma relay_poll_inv:
  assumes inv: "relay_inv ha0 hb0 st (ha a) (hb b)"
    and p: "relay_poll fuel A B cfg now st a b = Some (r, st', a', b')"
  shows "relay_inv ha0 hb0 st' (ha a') (hb b') \<and>
    bytes_transferred (rl_a_to_b st) \<le> bytes_transferred (rl_a_to_b st') \<and>
    bytes_transferred (rl_b_to_a st) \<le> bytes_transferred (rl_b_to_a st')"
  using p
proof (cases rule: relay_poll_cases)
  case (up_error e ab)
  have i: "copy_inv (fst ha0) (snd hb0) (rl_a_to_b st) (rxa a) (txb b)"
    "copy_inv (fst hb0) (snd ha0) (rl_b_to_a st) (rxb b) (txa a)"
    using inv by (simp_all add: relay_inv_def)
  show ?thesis
    using up.poll_direction_inv [OF i(1) up_error(1)] i(2) up_error(3)
    by (simp add: relay_inv_def bytes_transferred_def)
next
  case (down_error ra ab a1 b1 e ba)
  then show ?thesis using poll_both_inv [OF inv down_error(1,2)] by (simp add: relay_inv_def)
next
  case (both ra ab a1 b1 rb ba)
  then show ?thesis
    using poll_both_inv [OF inv both(1,2)] after_polls_frames(1,2) [OF both(3)] by (simp add: relay_inv_def)
qed

lemma relay_run_inv:
  assumes "relay_run A B cfg ha hb (relay_init cfg now n ev, a0, b0) (st, a, b)"
  shows "relay_inv (ha a0) (hb b0) st (ha a) (hb b)"
  using assms
proof (induction "(relay_init cfg now n ev, a0, b0)" "(st, a, b)" arbitrary: st a b rule: relay_run.induct)
  case start
  then show ?case by (simp add: relay_inv_def relay_init_def copy_inv_new)
next
  case (poll st a b fuel now' st' a' b')
  then show ?case using relay_poll_inv by blast
next
  case (env st a b a' b')
  then show ?case by simp
qed

end

text \<open>The billed totals of a user.\<close>

definition uploaded :: "user_id \<Rightarrow> stat_event list \<Rightarrow> nat" where
  "uploaded u evs = sum_list (map (\<lambda>e. case e of Record_Upload v n \<Rightarrow> if v = u then n else 0 | _ \<Rightarrow> 0) evs)"

definition downloaded :: "user_id \<Rightarrow> stat_event list \<Rightarrow> nat" where
  "downloaded u evs = sum_list (map (\<lambda>e. case e of Record_Download v n \<Rightarrow> if v = u then n else 0 | _ \<Rightarrow> 0) evs)"

definition billing_inv :: "user_id \<Rightarrow> stat_event list \<Rightarrow> relay_state \<Rightarrow> bool" where
  "billing_inv u ev st \<longleftrightarrow>
     rl_reported_up st \<le> bytes_transferred (rl_a_to_b st) \<and> rl_reported_down st \<le> bytes_transferred (rl_b_to_a st) \<and>
     uploaded u (rl_events st) = uploaded u ev + rl_reported_up st \<and>
     downloaded u (rl_events st) = downloaded u ev + rl_reported_down st"

lemma report_traffic_billing:
  assumes "billing_inv u ev st" and "rl_user cfg = Some u"
  shows "billing_inv u ev (report_traffic cfg st) \<and>
    rl_reported_up (report_traffic cfg st) = bytes_transferred (rl_a_to_b st) \<and>
    rl_reported_down (report_traffic cfg st) = bytes_transferred (rl_b_to_a st)"
  using assms by (auto simp: report_traffic_def billing_inv_def Let_def uploaded_def downloaded_def)

text \<open>The count of a direction only grows.\<close>

lemma write_buffered_amt: "write_buffered R W db sr sw = (f, db', sr', sw') \<Longrightarrow> db_amt db \<le> db_amt db'"
proof (induction "db_cap db - db_pos db" arbitrary: db sw rule: less_induct)
  case less
  note w = less.prems [unfolded write_buffered.simps [of R W db sr sw]]
  show ?case
  proof (cases "\<exists>i s2. 0 < i \<and> db_pos db < db_cap db \<and> poll_write W sw (unwritten db) = (Ready (Inr i), s2)")
    case True
    then obtain i s2 where i: "0 < i" "db_pos db < db_cap db" "poll_write W sw (unwritten db) = (Ready (Inr i), s2)" by blast
    let ?db = "db\<lparr>db_pos := db_pos db + i, db_amt := db_amt db + i\<rparr>"
    have "write_buffered R W ?db sr s2 = (f, db', sr', sw')" using w i by simp
    moreover have "db_cap ?db - db_pos ?db < db_cap db - db_pos db" using i by simp
    ultimately show ?thesis using less.hyps [of ?db s2] by (auto dest: add_leD1)
  next
    case False
    obtain q s2 where q: "poll_write W sw (unwritten db) = (q, s2)" by fastforce
    consider "\<not> db_pos db < db_cap db" | "q = Pending" | e where "q = Ready (Inl e)" | "q = Ready (Inr 0)"
      using False q by (metis bot_nat_0.not_eq_extremum poll.exhaust sum.exhaust)
    then show ?thesis
      using w q
      by cases (auto simp: probe_read_def Let_def split: prod.splits poll.splits sum.splits if_splits)
  qed
qed

lemma copy_round_amt: "copy_round R W db sr sw = (f, db', sr', sw') \<Longrightarrow> db_amt db \<le> db_amt db'"
  by (auto simp: copy_round_def flush_step_def shutdown_step_def read_step_def Let_def dest!: write_buffered_amt
      split: prod.splits flow.splits poll.splits sum.splits if_splits)

lemma copy_loop_amt: "copy_loop fuel R W db sr sw = Some (r, db', sr', sw') \<Longrightarrow> db_amt db \<le> db_amt db'"
proof (induction fuel arbitrary: db sr sw)
  case (Suc fuel)
  then show ?case
    by (auto split: prod.splits flow.splits dest!: copy_round_amt) (meson order_trans)+
qed simp

lemma poll_direction_amt:
  "poll_direction fuel R W db sr sw = Some (r, db', sr', sw') \<Longrightarrow> bytes_transferred db \<le> bytes_transferred db'"
  using copy_loop_amt [of fuel R W "db\<lparr>db_flush_ok := False\<rparr>" sr sw r db' sr' sw']
  by (auto simp: poll_direction_def poll_copy_def bytes_transferred_def split: if_splits)

lemma relay_poll_billing:
  assumes inv: "billing_inv u ev st" and user: "rl_user cfg = Some u"
    and p: "relay_poll fuel A B cfg now st a b = Some (r, st', a', b')"
  shows "billing_inv u ev st' \<and>
    (r = Pending \<longrightarrow> rl_reported_up st' = bytes_transferred (rl_a_to_b st') \<and>
       rl_reported_down st' = bytes_transferred (rl_b_to_a st'))"
  using p
proof (cases rule: relay_poll_cases)
  case (up_error e ab)
  then show ?thesis using inv poll_direction_amt [OF up_error(1)] by (simp add: billing_inv_def)
next
  case (down_error ra ab a1 b1 e ba)
  then show ?thesis
    using inv poll_direction_amt [OF down_error(1)] poll_direction_amt [OF down_error(2)] by (simp add: billing_inv_def)
next
  case (both ra ab a1 b1 rb ba)
  let ?st = "start_half_close cfg now (st\<lparr>rl_a_to_b := ab, rl_b_to_a := ba\<rparr>)"
  have "billing_inv u ev ?st"
    using inv poll_direction_amt [OF both(1)] poll_direction_amt [OF both(2)] by (simp add: billing_inv_def)
  then show ?thesis
    using report_traffic_billing [OF _ user, of ev ?st] after_polls_frames(1-5) [OF both(3)] by (simp add: billing_inv_def)
qed

lemma relay_run_billing:
  assumes "relay_run A B cfg ha hb (relay_init cfg now n ev, a0, b0) (st, a, b)" and user: "rl_user cfg = Some u"
  shows "billing_inv u ev st \<and> rl_reported_up st = bytes_transferred (rl_a_to_b st) \<and>
    rl_reported_down st = bytes_transferred (rl_b_to_a st)"
  using assms(1)
proof (induction "(relay_init cfg now n ev, a0, b0)" "(st, a, b)" arbitrary: st a b rule: relay_run.induct)
  case start
  then show ?case by (simp add: billing_inv_def relay_init_def db_new_def bytes_transferred_def)
next
  case (poll st a b fuel now' st' a' b')
  then show ?case using relay_poll_billing [OF _ user, of ev st fuel A B now' a b Pending st' a' b'] by blast
qed simp

text \<open>Timers.\<close>


lemma check_end_deadlines:
  assumes "check_end now st = (r, st')"
  shows "rl_idle_deadline st' = rl_idle_deadline st" "rl_half_close_active st' = rl_half_close_active st"
    "rl_half_close_timeout st' = rl_half_close_timeout st" "rl_half_close_deadline st' = rl_half_close_deadline st"
    "r = Ready (Inr ()) \<Longrightarrow>
       rl_termination st' = Completed \<and> is_done (rl_a_to_b st') \<and> is_done (rl_b_to_a st') \<or>
       rl_termination st' = HalfCloseTimeout \<and> rl_half_close_active st' \<and> rl_half_close_deadline st' \<le> now \<or>
       rl_termination st' = IdleTimeout \<and> rl_idle_deadline st' \<le> now"
  using assms by (auto simp: check_end_def split: if_splits)

lemma reset_timers_deadlines:
  "rl_idle_deadline (reset_timers cfg now p st) = (if p then now + rl_idle_timeout cfg else rl_idle_deadline st)"
  "rl_half_close_deadline (reset_timers cfg now p st) =
     (if p \<and> rl_half_close_active st then now + rl_half_close_timeout st else rl_half_close_deadline st)"
  by (simp_all add: reset_timers_def Let_def)

lemma start_half_close_window:
  "rl_half_close_active st \<Longrightarrow> start_half_close cfg now st = st"
  "\<not> rl_half_close_active st \<Longrightarrow>
     start_half_close cfg now st =
       (if is_drained (rl_a_to_b st) \<and> \<not> is_done (rl_b_to_a st)
        then st\<lparr>rl_half_close_active := True, rl_half_close_timeout := rl_downlink_only cfg,
                rl_half_close_deadline := now + rl_downlink_only cfg\<rparr>
        else if is_drained (rl_b_to_a st) \<and> \<not> is_done (rl_a_to_b st)
        then st\<lparr>rl_half_close_active := True, rl_half_close_timeout := rl_uplink_only cfg,
                rl_half_close_deadline := now + rl_uplink_only cfg\<rparr>
        else st)"
  by (auto simp: start_half_close_def Let_def)

text \<open>The deadlines after a poll without error, in terms of the flushed progress it made.\<close>

lemma after_polls_deadlines:
  assumes "after_polls cfg now x y st = (r, st')"
  defines "p \<equiv> x < bytes_transferred (rl_a_to_b st) \<and> has_flushed (rl_a_to_b st) \<or>
     y < bytes_transferred (rl_b_to_a st) \<and> has_flushed (rl_b_to_a st)"
    and "st1 \<equiv> start_half_close cfg now st"
  shows "rl_idle_deadline st' = (if p then now + rl_idle_timeout cfg else rl_idle_deadline st)"
    "rl_half_close_active st' = rl_half_close_active st1" "rl_half_close_timeout st' = rl_half_close_timeout st1"
    "rl_half_close_deadline st' =
       (if p \<and> rl_half_close_active st1 then now + rl_half_close_timeout st1 else rl_half_close_deadline st1)"
    "r = Pending \<Longrightarrow> now < rl_idle_deadline st' \<and> (rl_half_close_active st' \<longrightarrow> now < rl_half_close_deadline st')"
    "r = Ready (Inr ()) \<Longrightarrow>
       rl_termination st' = Completed \<and> is_done (rl_a_to_b st') \<and> is_done (rl_b_to_a st') \<or>
       rl_termination st' = HalfCloseTimeout \<and> rl_half_close_active st' \<and> rl_half_close_deadline st' \<le> now \<or>
       rl_termination st' = IdleTimeout \<and> rl_idle_deadline st' \<le> now"
proof -
  have c: "check_end now (reset_timers cfg now p (report_traffic cfg st1)) = (r, st')"
    using assms(1) by (simp add: after_polls_def Let_def p_def st1_def)
  have idle: "rl_idle_deadline st1 = rl_idle_deadline st" by (simp add: st1_def)
  show "rl_idle_deadline st' = (if p then now + rl_idle_timeout cfg else rl_idle_deadline st)"
    "rl_half_close_active st' = rl_half_close_active st1" "rl_half_close_timeout st' = rl_half_close_timeout st1"
    "rl_half_close_deadline st' =
       (if p \<and> rl_half_close_active st1 then now + rl_half_close_timeout st1 else rl_half_close_deadline st1)"
    using check_end_deadlines(1-4) [OF c] by (simp_all add: reset_timers_deadlines idle)
  show "r = Pending \<Longrightarrow> now < rl_idle_deadline st' \<and> (rl_half_close_active st' \<longrightarrow> now < rl_half_close_deadline st')"
    using check_end_frames(6) [OF c] by auto
  show "r = Ready (Inr ()) \<Longrightarrow>
       rl_termination st' = Completed \<and> is_done (rl_a_to_b st') \<and> is_done (rl_b_to_a st') \<or>
       rl_termination st' = HalfCloseTimeout \<and> rl_half_close_active st' \<and> rl_half_close_deadline st' \<le> now \<or>
       rl_termination st' = IdleTimeout \<and> rl_idle_deadline st' \<le> now"
    using check_end_deadlines(5) [OF c] .
qed

lemma copy_loop_fuel_mono:
  "copy_loop fuel R W db sr sw = Some res \<Longrightarrow> fuel \<le> fuel' \<Longrightarrow> copy_loop fuel' R W db sr sw = Some res"
proof (induction fuel arbitrary: fuel' db sr sw)
  case (Suc fuel)
  then obtain k where k: "fuel' = Suc k" "fuel \<le> k" by (cases fuel') auto
  then show ?case using Suc by (auto split: prod.splits flow.splits)
qed simp

section \<open>The session of a connection\<close>

text \<open>
  The client side of a session is the transport stream behind \<open>NoHalfClose\<close>; both sides are
  observed, and the two history functions read the observations.
\<close>

interpretation session: relay_pair "no_half_close_ops (recorded_ops A)" "\<lambda>s. rc_rx (nh_inner s)" "\<lambda>s. rc_tx (nh_inner s)"
  "recorded_ops B" rc_rx rc_tx for A :: "'a stream_ops" and B :: "'b stream_ops"
  by unfold_locales

abbreviation client_ops :: "'a stream_ops \<Rightarrow> 'a recorded no_half_close stream_ops" where
  "client_ops A \<equiv> no_half_close_ops (recorded_ops A)"

abbreviation remote_ops :: "'b stream_ops \<Rightarrow> 'b recorded stream_ops" where
  "remote_ops B \<equiv> recorded_ops B"

abbreviation client_history :: "'a recorded no_half_close \<Rightarrow> bytes \<times> bytes" where
  "client_history \<equiv> \<lambda>s. (rc_rx (nh_inner s), rc_tx (nh_inner s))"

abbreviation remote_history :: "'b recorded \<Rightarrow> bytes \<times> bytes" where
  "remote_history \<equiv> \<lambda>s. (rc_rx s, rc_tx s)"

abbreviation session_run where
  "session_run A B cfg \<equiv> relay_run (client_ops A) (remote_ops B) cfg client_history remote_history"

text \<open>Scripted streams, for concrete runs: reads answer from a list, writes take everything.\<close>

definition scripted_ops :: "bytes io_result poll list stream_ops" where
  "scripted_ops =
     \<lparr>poll_read = (\<lambda>s n. case s of [] \<Rightarrow> (Pending, []) | r # s' \<Rightarrow> (r, s')),
      poll_write = (\<lambda>s bs. (Ready (Inr (length bs)), s)),
      poll_flush = (\<lambda>s. (Ready (Inr ()), s)),
      poll_shutdown = (\<lambda>s. (Ready (Inr ()), s))\<rparr>"

definition scripted_client :: "bytes io_result poll list \<Rightarrow> bytes io_result poll list recorded no_half_close" where
  "scripted_client rs = \<lparr>nh_inner = \<lparr>rc_inner = rs, rc_rx = [], rc_tx = []\<rparr>, nh_half_close = True\<rparr>"

definition scripted_remote :: "bytes io_result poll list \<Rightarrow> bytes io_result poll list recorded" where
  "scripted_remote rs = \<lparr>rc_inner = rs, rc_rx = [], rc_tx = []\<rparr>"

definition demo_cfg :: relay_config where
  "demo_cfg = \<lparr>rl_idle_timeout = 9, rl_uplink_only = 2, rl_downlink_only = 5, rl_user = Some 7\<rparr>"

text \<open>
  Two sessions: the client sends three bytes and closes; the remote answers one byte and goes on, or
  closes as well.
\<close>

definition demo_client :: "bytes io_result poll list recorded no_half_close" where
  "demo_client = scripted_client [Ready (Inr [1, 2, 3]), Ready (Inr [])]"

definition demo_half :: relay_state where
  "demo_half =
     \<lparr>rl_a_to_b = \<lparr>db_buf = [1, 2, 3, 0], db_pos = 3, db_cap = 3, db_amt = 3, db_read_done = True,
                   db_shutdown_done = True, db_flush_ok = True\<rparr>,
      rl_b_to_a = \<lparr>db_buf = [9, 0, 0, 0], db_pos = 1, db_cap = 1, db_amt = 1, db_read_done = False,
                   db_shutdown_done = False, db_flush_ok = True\<rparr>,
      rl_half_close_active = True, rl_half_close_timeout = 5, rl_half_close_deadline = 6,
      rl_idle_deadline = 10, rl_termination = Completed, rl_reported_up = 3, rl_reported_down = 1,
      rl_events = [Record_Upload 7 3, Record_Download 7 1]\<rparr>"

definition demo_full :: relay_state where
  "demo_full = demo_half
     \<lparr>rl_b_to_a := (rl_b_to_a demo_half)\<lparr>db_read_done := True, db_shutdown_done := True\<rparr>,
      rl_half_close_active := False, rl_half_close_timeout := 0, rl_half_close_deadline := 0\<rparr>"

definition demo_client_end :: "bytes io_result poll list recorded no_half_close" where
  "demo_client_end = \<lparr>nh_inner = \<lparr>rc_inner = [], rc_rx = [1, 2, 3], rc_tx = [9]\<rparr>, nh_half_close = True\<rparr>"

definition demo_remote_end :: "bytes io_result poll list recorded" where
  "demo_remote_end = \<lparr>rc_inner = [], rc_rx = [9], rc_tx = [1, 2, 3]\<rparr>"

lemma scripted_sel:
  "poll_read scripted_ops s n = (case s of [] \<Rightarrow> (Pending, []) | r # s' \<Rightarrow> (r, s'))"
  "poll_write scripted_ops s bs = (Ready (Inr (length bs)), s)"
  "poll_flush scripted_ops s = (Ready (Inr ()), s)" "poll_shutdown scripted_ops s = (Ready (Inr ()), s)"
  by (simp_all add: scripted_ops_def)

lemma recorded_sel:
  "poll_read (recorded_ops scripted_ops) s n =
     (case rc_inner s of
        [] \<Rightarrow> (Pending, s\<lparr>rc_inner := []\<rparr>)
      | Ready (Inr bs) # i \<Rightarrow> (Ready (Inr (take n bs)), s\<lparr>rc_inner := i, rc_rx := rc_rx s @ take n bs\<rparr>)
      | r # i \<Rightarrow> (r, s\<lparr>rc_inner := i\<rparr>))"
  "poll_write (recorded_ops scripted_ops) s bs = (Ready (Inr (length bs)), s\<lparr>rc_tx := rc_tx s @ bs\<rparr>)"
  "poll_flush (recorded_ops scripted_ops) s = (Ready (Inr ()), s)"
  "poll_shutdown (recorded_ops scripted_ops) s = (Ready (Inr ()), s)"
  by (auto simp: recorded_ops_def scripted_sel split: list.split poll.split sum.split)

lemma client_sel:
  "poll_read (no_half_close_ops inner) s n = (let (r, i) = poll_read inner (nh_inner s) n in (r, s\<lparr>nh_inner := i\<rparr>))"
  "poll_write (no_half_close_ops inner) s bs = (let (r, i) = poll_write inner (nh_inner s) bs in (r, s\<lparr>nh_inner := i\<rparr>))"
  "poll_flush (no_half_close_ops inner) s = (let (r, i) = poll_flush inner (nh_inner s) in (r, s\<lparr>nh_inner := i\<rparr>))"
  "poll_shutdown (no_half_close_ops inner) s =
     (let (r, i) = (if nh_half_close s then poll_shutdown inner (nh_inner s) else poll_flush inner (nh_inner s))
      in (r, s\<lparr>nh_inner := i\<rparr>))"
  by (simp_all add: no_half_close_ops_def)

lemmas demo_eval =
  relay_poll_def poll_direction_def poll_copy_def copy_round_def write_buffered.simps flush_step_def
  shutdown_step_def read_step_def fill_def unwritten_def is_done_def is_drained_def has_flushed_def bytes_transferred_def
  after_polls_def start_half_close_def report_traffic_def reset_timers_def check_end_def relay_init_def db_new_def
  recorded_sel client_sel demo_client_def demo_half_def demo_full_def demo_client_end_def
  demo_remote_end_def scripted_client_def scripted_remote_def demo_cfg_def eval_nat_numeral

lemma demo_half_run:
  "relay_poll 4 (client_ops scripted_ops) (remote_ops scripted_ops) demo_cfg 1 (relay_init demo_cfg 0 4 [])
     demo_client (scripted_remote [Ready (Inr [9])]) = Some (Pending, demo_half, demo_client_end, demo_remote_end)"
  by (simp add: demo_eval)

lemma demo_full_run:
  "relay_poll 4 (client_ops scripted_ops) (remote_ops scripted_ops) demo_cfg 1 (relay_init demo_cfg 0 4 [])
     demo_client (scripted_remote [Ready (Inr [9]), Ready (Inr [])]) =
     Some (Ready (Inr ()), demo_full, demo_client_end, demo_remote_end)"
  by (simp add: demo_eval)

section \<open>Properties\<close>

text \<open>
  C2: No byte is lost, duplicated or reordered.  After any sequence of polls of a session, with any
  behaviour of the two transports and the network in between, and whatever the last poll returned
  (an error included): the bytes written to the remote are the bytes read from the client in order,
  less those still in the upload buffer, and \<open>bytes_transferred\<close> is their number; the same holds
  from the remote to the client.
\<close>

theorem relay_bytes_preserved:
  assumes "session_run A B cfg (relay_init cfg t n ev, a0, b0) (st, a, b)"
    and "relay_poll fuel (client_ops A) (remote_ops B) cfg now st a b = Some (r, st', a', b')"
  shows "(\<exists>up. rc_tx b' = rc_tx b0 @ up \<and>
      rc_rx (nh_inner a') = rc_rx (nh_inner a0) @ up @ unwritten (rl_a_to_b st') \<and>
      bytes_transferred (rl_a_to_b st') = length up) \<and>
    (\<exists>down. rc_tx (nh_inner a') = rc_tx (nh_inner a0) @ down \<and>
      rc_rx b' = rc_rx b0 @ down @ unwritten (rl_b_to_a st') \<and>
      bytes_transferred (rl_b_to_a st') = length down)"
  using session.relay_poll_inv [OF session.relay_run_inv [OF assms(1)] assms(2)]
  by (auto simp: relay_inv_def copy_inv_def bytes_transferred_def)

theorem relay_bytes_preserved_witness:
  "session_run scripted_ops scripted_ops demo_cfg (relay_init demo_cfg 0 4 [], demo_client, scripted_remote [Ready (Inr [9])])
     (relay_init demo_cfg 0 4 [], demo_client, scripted_remote [Ready (Inr [9])]) \<and>
   (\<exists>up. rc_tx demo_remote_end = [] @ up \<and>
      rc_rx (nh_inner demo_client_end) = [] @ up @ unwritten (rl_a_to_b demo_half) \<and>
      bytes_transferred (rl_a_to_b demo_half) = length up)"
  using relay_bytes_preserved [OF relay_run.start demo_half_run]
  by (simp add: relay_run.start demo_client_def scripted_client_def scripted_remote_def)

text \<open>
  C27: A session that ends with \<open>Completed\<close> has delivered everything: each side has been sent exactly
  the bytes the other side sent, both ends of file were seen, and the result reports the counts.
\<close>

theorem relay_completed_delivers_all:
  assumes "session_run A B cfg (relay_init cfg t n ev, a0, b0) (st, a, b)"
    and "relay_poll fuel (client_ops A) (remote_ops B) cfg now st a b = Some (Ready (Inr ()), st', a', b')"
    and "rl_termination st' = Completed"
  shows "\<exists>up down. rc_rx (nh_inner a') = rc_rx (nh_inner a0) @ up \<and> rc_tx b' = rc_tx b0 @ up \<and>
    rc_rx b' = rc_rx b0 @ down \<and> rc_tx (nh_inner a') = rc_tx (nh_inner a0) @ down \<and>
    fst (relay_finish cfg (Inr ()) st') =
      Inr \<lparr>cr_a_to_b = length up, cr_b_to_a = length down, cr_termination = Completed,
           cr_client_eof = True, cr_remote_eof = True\<rparr>"
proof -
  have "is_done (rl_a_to_b st') \<and> is_done (rl_b_to_a st')"
    using assms(2)
  proof (cases rule: relay_poll_cases)
    case (both ra ab a1 b1 rb ba)
    then show ?thesis using after_polls_frames(1,2,7) [OF both(3)] assms(3) by simp
  qed simp_all
  then show ?thesis
    using session.relay_poll_inv [OF session.relay_run_inv [OF assms(1)] assms(2)] assms(3)
    by (auto simp: relay_inv_def copy_inv_def is_done_def relay_finish_def bytes_transferred_def has_read_eof_def unwritten_def)
qed

theorem relay_completed_delivers_all_witness:
  "\<exists>up down. rc_rx (nh_inner demo_client_end) = [] @ up \<and> rc_tx demo_remote_end = [] @ up \<and>
    rc_rx demo_remote_end = [] @ down \<and> rc_tx (nh_inner demo_client_end) = [] @ down \<and>
    fst (relay_finish demo_cfg (Inr ()) demo_full) =
      Inr \<lparr>cr_a_to_b = length up, cr_b_to_a = length down, cr_termination = Completed,
           cr_client_eof = True, cr_remote_eof = True\<rparr>"
  using relay_completed_delivers_all [OF relay_run.start demo_full_run]
  by (simp add: demo_client_def scripted_client_def scripted_remote_def demo_full_def demo_half_def)

text \<open>
  C3: Billing is exact at every point where the session can stop.  When the last poll is pending,
  so that the future may be dropped there (kick, shutdown, cancellation), and when it has returned
  and the rest of the function has run, even after an error, the collector has been told exactly the
  bytes written in each direction for the user.
\<close>

theorem relay_billing_exact:
  assumes "session_run A B cfg (relay_init cfg t n ev, a0, b0) (st, a, b)" and "rl_user cfg = Some u"
    and "relay_poll fuel (client_ops A) (remote_ops B) cfg now st a b = Some (r, st1, a', b')"
    and "st' = (case r of Pending \<Rightarrow> st1 | Ready res \<Rightarrow> snd (relay_finish cfg res st1))"
  shows "uploaded u (rl_events st') + length (rc_tx b0) = uploaded u ev + length (rc_tx b') \<and>
    downloaded u (rl_events st') + length (rc_tx (nh_inner a0)) = downloaded u ev + length (rc_tx (nh_inner a'))"
proof -
  have inv: "relay_inv (client_history a0) (remote_history b0) st1 (client_history a') (remote_history b')"
    using session.relay_poll_inv [OF session.relay_run_inv [OF assms(1)] assms(3)] by simp
  have bill: "billing_inv u ev st1 \<and> (r = Pending \<longrightarrow> rl_reported_up st1 = bytes_transferred (rl_a_to_b st1) \<and>
      rl_reported_down st1 = bytes_transferred (rl_b_to_a st1))"
    using relay_poll_billing [OF _ assms(2,3)] relay_run_billing [OF assms(1,2)] by blast
  have "uploaded u (rl_events st') = uploaded u ev + bytes_transferred (rl_a_to_b st1) \<and>
      downloaded u (rl_events st') = downloaded u ev + bytes_transferred (rl_b_to_a st1)"
  proof (cases r)
    case Pending
    then show ?thesis using bill assms(4) by (simp add: billing_inv_def)
  next
    case (Ready res)
    then show ?thesis
      using report_traffic_billing [OF _ assms(2), of ev st1] bill assms(4) by (simp add: billing_inv_def relay_finish_def Let_def)
  qed
  then show ?thesis using inv by (auto simp: relay_inv_def copy_inv_def bytes_transferred_def)
qed

theorem relay_billing_exact_witness:
  "uploaded 7 (rl_events demo_half) + 0 = 0 + length (rc_tx demo_remote_end) \<and>
   downloaded 7 (rl_events demo_half) + 0 = 0 + length (rc_tx (nh_inner demo_client_end))"
  using relay_billing_exact [OF relay_run.start _ demo_half_run refl, of 7]
  by (simp add: demo_client_def scripted_client_def scripted_remote_def demo_cfg_def uploaded_def downloaded_def)



text \<open>
  C34: The half-close window.  It opens in the poll after which a direction is drained, and its
  length is \<open>downlink_only\<close> when the client has finished and the download is still open, and
  \<open>uplink_only\<close> when the remote has finished first; an open window keeps its length and is only
  moved by flushed progress.
\<close>

theorem half_close_window:
  assumes "relay_poll fuel A B cfg now st a b = Some (Pending, st', a', b')"
  shows "(\<not> rl_half_close_active st \<longrightarrow>
      (if is_drained (rl_a_to_b st') \<and> \<not> is_done (rl_b_to_a st')
       then rl_half_close_active st' \<and> rl_half_close_timeout st' = rl_downlink_only cfg \<and>
            rl_half_close_deadline st' = now + rl_downlink_only cfg
       else if is_drained (rl_b_to_a st') \<and> \<not> is_done (rl_a_to_b st')
       then rl_half_close_active st' \<and> rl_half_close_timeout st' = rl_uplink_only cfg \<and>
            rl_half_close_deadline st' = now + rl_uplink_only cfg
       else \<not> rl_half_close_active st')) \<and>
    (rl_half_close_active st \<longrightarrow> rl_half_close_active st' \<and> rl_half_close_timeout st' = rl_half_close_timeout st \<and>
       (rl_half_close_deadline st' = rl_half_close_deadline st \<or>
        rl_half_close_deadline st' = now + rl_half_close_timeout st))"
  using assms
proof (cases rule: relay_poll_cases)
  case (both ra ab a1 b1 rb ba)
  let ?st = "st\<lparr>rl_a_to_b := ab, rl_b_to_a := ba\<rparr>"
  show ?thesis
    using after_polls_frames(1,2) [OF both(3)] after_polls_deadlines(2-4) [OF both(3)]
      start_half_close_window [of ?st cfg now]
    by (cases "rl_half_close_active st") simp_all
qed simp_all

theorem half_close_window_witness:
  "rl_half_close_active demo_half \<and> rl_half_close_timeout demo_half = rl_downlink_only demo_cfg \<and>
   rl_half_close_deadline demo_half = 1 + rl_downlink_only demo_cfg"
  using half_close_window [OF demo_half_run]
  by (simp add: demo_half_def relay_init_def is_drained_def is_done_def)

text \<open>
  C35: A poll of one direction returns.  If the reader can only hand out data a bounded number of
  times before it has to be waited for, that many rounds and two more are enough, and more fuel
  does not change the result.
\<close>

theorem poll_copy_returns:
  assumes "bounded_reads R avail" and "avail sr + 2 \<le> fuel"
  shows "\<exists>res. poll_copy fuel R W db sr sw = Some res \<and> (\<forall>k \<ge> fuel. poll_copy k R W db sr sw = Some res)"
proof -
  have "(if db_read_done (db\<lparr>db_flush_ok := False\<rparr>) then 1 else avail sr + 2) \<le> fuel" using assms(2) by simp
  then obtain res where c: "copy_loop fuel R W (db\<lparr>db_flush_ok := False\<rparr>) sr sw = Some res"
    using copy_loop_enough [OF assms(1), of _ sr fuel W sw] by metis
  have "\<forall>k \<ge> fuel. copy_loop k R W (db\<lparr>db_flush_ok := False\<rparr>) sr sw = Some res"
    by (intro allI impI) (rule copy_loop_fuel_mono [OF c])
  then show ?thesis using c by (cases "db_shutdown_done db") (simp_all add: poll_copy_def)
qed

lemma recorded_bounded: "bounded_reads (recorded_ops scripted_ops) (\<lambda>s. length (rc_inner s))"
  unfolding bounded_reads_def
proof (intro allI impI)
  fix s :: "bytes io_result poll list recorded" and n bs s'
  assume "poll_read (recorded_ops scripted_ops) s n = (Ready (Inr bs), s')"
  then show "length (rc_inner s') < length (rc_inner s)"
    by (cases "rc_inner s") (auto simp: recorded_sel split: poll.splits sum.splits)
qed

theorem poll_copy_returns_witness:
  "\<exists>res. poll_copy 3 (recorded_ops scripted_ops) (recorded_ops scripted_ops) (db_new 4)
     (scripted_remote [Ready (Inr [9])]) (scripted_remote []) = Some res"
proof -
  have "length (rc_inner (scripted_remote [Ready (Inr [9])])) + 2 \<le> 3" by (simp add: scripted_remote_def)
  from poll_copy_returns [OF recorded_bounded this, of "recorded_ops scripted_ops" "db_new 4" "scripted_remote []"]
  show ?thesis by blast
qed

end
