(* ===== verification/Session.thy ===== *)
theory Session
  imports Acl Conn_Manager Config Relay "HOL-Library.Sublist"
begin

text \<open>
  \<open>src/src/handler.rs\<close>, the TCP half: reading the request, dialling the target and relaying.

  An \<open>await\<close> is driven by a script: a list of changes that the peer and the network make to a stream
  between two polls.  A poll that is not ready goes on with the rest of the script, and the end of
  the script is the timeout that surrounds the await in the source.  The relay is driven by a list
  of events, a poll at an instant or the cancellation of the connection's token.  Every theorem
  holds for all scripts.

  What the handler shares with the rest of the server is the record \<open>shared\<close>: the DNS cache, the
  connection manager, the calls of the statistics collector, and a log of the actions visible
  outside (connecting, dialling through an outbound, closing).  Outbound connects and dials are the
  parameters \<open>connect\<close> and \<open>dial\<close>.  Logging and socket options are left out.
\<close>

section \<open>The server and its shared state\<close>

text \<open>An \<open>anyhow::Error\<close>: an I/O error passed on with \<open>?\<close>, or a message.\<close>

datatype handler_error = Io io_error | Msg string

record resolve_info =
  ri_ipv4 :: "bytes option"
  ri_ipv6 :: "bytes option"
  ri_error :: "string option"

record acl_addr =
  aa_host :: string
  aa_port :: u16
  aa_resolve_info :: "resolve_info option"

record 'd server =
  sv_authenticate :: "bytes \<Rightarrow> user_id option"
  sv_route :: "'d \<Rightarrow> address \<Rightarrow> handler_ref outbound_type \<times> 'd"
  sv_route_udp :: "'d \<Rightarrow> address \<Rightarrow> handler_ref outbound_type \<times> 'd"
  sv_resolve :: "'d resolver"
  sv_conn_config :: conn_config

datatype action =
    Connect_To socket_addr
  | Dial_Via handler_ref acl_addr
  | Close_Client
  | Close_Remote

record 'd shared =
  sh_dns :: 'd
  sh_conn_manager :: connection_manager
  sh_stats :: "stat_event list"
  sh_actions :: "action list"

definition act :: "action \<Rightarrow> 'd shared \<Rightarrow> 'd shared" where
  "act x sh = sh\<lparr>sh_actions := sh_actions sh @ [x]\<rparr>"

definition stat :: "stat_event \<Rightarrow> 'd shared \<Rightarrow> 'd shared" where
  "stat e sh = sh\<lparr>sh_stats := sh_stats sh @ [e]\<rparr>"

text \<open>How a handler ends: it returns, or the script ends before it does, or it panics.\<close>

datatype outcome = Returned "handler_error + unit" | Running | Panicked

section \<open>Awaiting a stream\<close>

text \<open>\<open>shutdown()\<close> under a timeout; the result is dropped.\<close>

fun await_shutdown :: "'s stream_ops \<Rightarrow> ('s \<Rightarrow> 's) list \<Rightarrow> 's \<Rightarrow> 's" where
  "await_shutdown S [] s = s"
| "await_shutdown S (env # script) s =
     (case poll_shutdown S (env s) of
        (Pending, s') \<Rightarrow> await_shutdown S script s'
      | (Ready _, s') \<Rightarrow> s')"

definition close_client :: "'a stream_ops \<Rightarrow> ('a \<Rightarrow> 'a) list \<Rightarrow> 'd shared \<times> 'a \<Rightarrow> 'd shared \<times> 'a" where
  "close_client A script = (\<lambda>(sh, a). (act Close_Client sh, await_shutdown A script a))"

text \<open>\<open>AsyncWriteExt::write_all\<close>; \<open>None\<close> while it waits.\<close>

fun write_all :: "'s stream_ops \<Rightarrow> ('s \<Rightarrow> 's) list \<Rightarrow> bytes \<Rightarrow> 's \<Rightarrow> unit io_result option \<times> 's" where
  "write_all S script [] s = (Some (Inr ()), s)"
| "write_all S [] (b # bs) s = (None, s)"
| "write_all S (env # script) (b # bs) s =
     (case poll_write S (env s) (b # bs) of
        (Pending, s') \<Rightarrow> write_all S script (b # bs) s'
      | (Ready (Inl e), s') \<Rightarrow> (Some (Inl e), s')
      | (Ready (Inr n), s') \<Rightarrow>
          if n = 0 then (Some (Inl (Io_Error WriteZero ''failed to write whole buffer'')), s')
          else write_all S script (drop n (b # bs)) s')"

section \<open>Reading the request\<close>

datatype read_outcome = Request trojan_request | Failed handler_error | Unreachable | Expired

text \<open>What the loop finds in the buffer before it reads.\<close>

definition try_request :: "bytes \<Rightarrow> read_outcome option" where
  "try_request buf =
     (if length buf \<ge> REQ_MIN_SIZE then
        (case check_complete buf of
           Inr header_len \<Rightarrow>
             (case fst (request_decode_zerocopy buf) of
                Ok req _ \<Rightarrow> Some (Request req)
              | Invalid e \<Rightarrow> Some (Failed (Msg (''Invalid request: '' @ e)))
              | NeedMoreData \<Rightarrow> Some Unreachable)
         | Inl None \<Rightarrow> None
         | Inl (Some e) \<Rightarrow> Some (Failed (Msg (''Invalid request: '' @ e))))
      else None)"

text \<open>\<open>spare\<close> is the free capacity of the buffer after \<open>reserve\<close>.\<close>

fun read_trojan_request ::
    "'a stream_ops \<Rightarrow> (bytes \<Rightarrow> nat) \<Rightarrow> nat \<Rightarrow> ('a \<Rightarrow> 'a) list \<Rightarrow> 'a \<Rightarrow> bytes \<Rightarrow> read_outcome \<times> 'a" where
  "read_trojan_request A spare buffer_size script a buf =
     (case try_request buf of
        Some r \<Rightarrow> (r, a)
      | None \<Rightarrow>
          (case script of
             [] \<Rightarrow> (Expired, a)
           | env # script' \<Rightarrow>
               (case poll_read A (env a) (spare buf) of
                  (Pending, a') \<Rightarrow> read_trojan_request A spare buffer_size script' a' buf
                | (Ready (Inl e), a') \<Rightarrow> (Failed (Io e), a')
                | (Ready (Inr bs), a') \<Rightarrow>
                    if bs = [] then
                      (if buf = [] then (Failed (Msg ''Connection closed before receiving request''), a')
                       else (Failed (Msg ''Connection closed with incomplete request''), a'))
                    else
                      let buf' = buf @ bs in
                      if length buf' > buffer_size * 2 then (Failed (Msg ''Request too large''), a')
                      else read_trojan_request A spare buffer_size script' a' buf')))"

declare read_trojan_request.simps [simp del]

section \<open>Relaying\<close>

datatype ('a, 'b) relay_event = Poll nat nat "'a \<Rightarrow> 'a" "'b \<Rightarrow> 'b" | Cancelled

datatype relay_end = Finished "copy_result io_result" | Kicked | Unfinished

text \<open>The \<open>select!\<close> between the relay and the cancellation token.\<close>

fun drive_relay ::
    "'a stream_ops \<Rightarrow> 'b stream_ops \<Rightarrow> relay_config \<Rightarrow> ('a, 'b) relay_event list \<Rightarrow> relay_state \<Rightarrow> 'a \<Rightarrow> 'b \<Rightarrow>
     relay_end \<times> relay_state \<times> 'a \<times> 'b" where
  "drive_relay A B cfg [] st a b = (Unfinished, st, a, b)"
| "drive_relay A B cfg (Cancelled # evs) st a b = (Kicked, st, a, b)"
| "drive_relay A B cfg (Poll fuel now env_a env_b # evs) st a b =
     (case relay_poll fuel A B cfg now st (env_a a) (env_b b) of
        None \<Rightarrow> (Unfinished, st, env_a a, env_b b)
      | Some (Pending, st', a', b') \<Rightarrow> drive_relay A B cfg evs st' a' b'
      | Some (Ready result, st', a', b') \<Rightarrow>
          let (r, st'') = relay_finish cfg result st' in (Finished r, st'', a', b'))"

text \<open>The scripts of one connection.\<close>

record ('a, 'b) scripts =
  sc_read :: "('a \<Rightarrow> 'a) list"
  sc_close :: "('a \<Rightarrow> 'a) list"
  sc_write :: "('b \<Rightarrow> 'b) list"
  sc_relay :: "('a no_half_close, 'b) relay_event list"
  sc_close_remote :: "('b \<Rightarrow> 'b) list"
  sc_start :: nat

definition relay_cfg :: "conn_config \<Rightarrow> user_id \<Rightarrow> relay_config" where
  "relay_cfg cc user_id =
     \<lparr>rl_idle_timeout = from_secs (idle_timeout_secs cc),
      rl_uplink_only = from_secs (uplink_only_timeout_secs cc),
      rl_downlink_only = from_secs (downlink_only_timeout_secs cc),
      rl_user = Some user_id\<rparr>"

text \<open>\<open>ConnectContext::relay\<close>.\<close>

definition ctx_relay ::
    "'d server \<Rightarrow> 'a stream_ops \<Rightarrow> 'b stream_ops \<Rightarrow> ('a, 'b) scripts \<Rightarrow> transport_type \<Rightarrow> user_id \<Rightarrow> bytes \<Rightarrow>
     'd shared \<Rightarrow> 'a \<Rightarrow> 'b \<Rightarrow> outcome \<times> 'd shared \<times> 'a \<times> 'b" where
  "ctx_relay sv A B sc ty user_id initial_payload sh a b =
     (let sh = (if initial_payload \<noteq> [] then stat (Record_Upload user_id (length initial_payload)) sh else sh) in
      case write_all B (sc_write sc) initial_payload b of
        (None, b) \<Rightarrow> (Running, sh, a, b)
      | (Some (Inl e), b) \<Rightarrow>
          let (sh, a) = close_client A (sc_close sc) (sh, a) in (Returned (Inl (Io e)), sh, a, b)
      | (Some (Inr _), b) \<Rightarrow>
          let cfg = relay_cfg (sv_conn_config sv) user_id;
              client_stream = \<lparr>nh_inner = a, nh_half_close = half_close ty\<rparr>;
              st0 = relay_init cfg (sc_start sc) (cc_buffer_size (sv_conn_config sv)) (sh_stats sh) in
          (case drive_relay (no_half_close_ops A) B cfg (sc_relay sc) st0 client_stream b of
             (end, st, c, b) \<Rightarrow>
               let sh = sh\<lparr>sh_stats := rl_events st\<rparr>; a = nh_inner c in
               (case end of
                  Unfinished \<Rightarrow> (Running, sh, a, b)
                | Finished _ \<Rightarrow>
                    let (sh, a) = close_client A (sc_close sc) (sh, a) in (Returned (Inr ()), sh, a, b)
                | Kicked \<Rightarrow>
                    let (sh, a) = close_client A (sc_close sc) (sh, a) in
                    (Returned (Inr ()), act Close_Remote sh, a, await_shutdown B (sc_close_remote sc) b))))"

section \<open>Dialling\<close>

definition acl_addr_for :: "address \<Rightarrow> resolved_addrs option \<Rightarrow> acl_addr" where
  "acl_addr_for target resolved =
     \<lparr>aa_host = address_host target, aa_port = address_port target,
      aa_resolve_info =
        map_option (\<lambda>r. \<lparr>ri_ipv4 = ra_v4 r, ri_ipv6 = ra_v6 r, ri_error = None\<rparr>) resolved\<rparr>"

text \<open>The outcome of an attempt under \<open>connect_timeout\<close>.\<close>

datatype ('e, 'b) dialled = Dialled 'b | Dial_Error 'e | Dial_Timeout

text \<open>The sequential attempts on the candidates.\<close>

fun try_connect ::
    "(socket_addr \<Rightarrow> (io_error, 'b) dialled) \<Rightarrow> socket_addr list \<Rightarrow> handler_error option \<Rightarrow> 'd shared \<Rightarrow>
     (handler_error option + 'b) \<times> 'd shared" where
  "try_connect connect [] last_err sh = (Inl last_err, sh)"
| "try_connect connect (remote_addr # rest) last_err sh =
     (let sh = act (Connect_To remote_addr) sh in
      case connect remote_addr of
        Dialled stream \<Rightarrow> (Inr stream, sh)
      | Dial_Error e \<Rightarrow> try_connect connect rest (Some (Io e)) sh
      | Dial_Timeout \<Rightarrow> try_connect connect rest (Some (Msg ''TCP connect timeout'')) sh)"

text \<open>What the direct and the proxied path have in common: relay, or close the client and fail.\<close>

definition relay_or_fail ::
    "'d server \<Rightarrow> 'a stream_ops \<Rightarrow> 'b stream_ops \<Rightarrow> ('a, 'b) scripts \<Rightarrow> transport_type \<Rightarrow> user_id \<Rightarrow> bytes \<Rightarrow>
     (handler_error + 'b) \<Rightarrow> 'd shared \<Rightarrow> 'a \<Rightarrow> outcome \<times> 'd shared \<times> 'a \<times> 'b option" where
  "relay_or_fail sv A B sc ty user_id payload remote sh a =
     (case remote of
        Inr b \<Rightarrow> let (r, sh, a, b) = ctx_relay sv A B sc ty user_id payload sh a b in (r, sh, a, Some b)
      | Inl e \<Rightarrow> let (sh, a) = close_client A (sc_close sc) (sh, a) in (Returned (Inl e), sh, a, None))"

definition dial_via_handler ::
    "'d server \<Rightarrow> 'a stream_ops \<Rightarrow> 'b stream_ops \<Rightarrow> ('a, 'b) scripts \<Rightarrow> (handler_ref \<Rightarrow> acl_addr \<Rightarrow> (string, 'b) dialled) \<Rightarrow>
     transport_type \<Rightarrow> user_id \<Rightarrow> bytes \<Rightarrow> address \<Rightarrow> handler_ref \<Rightarrow> resolved_addrs option \<Rightarrow> string \<Rightarrow>
     'd shared \<Rightarrow> 'a \<Rightarrow> outcome \<times> 'd shared \<times> 'a \<times> 'b option" where
  "dial_via_handler sv A B sc dial ty user_id payload target handler resolved kind sh a =
     (let acl_addr = acl_addr_for target resolved;
          sh = act (Dial_Via handler acl_addr) sh;
          remote =
            (case dial handler acl_addr of
               Dialled b \<Rightarrow> Inr b
             | Dial_Error e \<Rightarrow> Inl (Msg (kind @ '' connect failed: '' @ e))
             | Dial_Timeout \<Rightarrow> Inl (Msg (kind @ '' connect timeout'')))
      in relay_or_fail sv A B sc ty user_id payload remote sh a)"

definition handle_direct_connect ::
    "'d server \<Rightarrow> 'a stream_ops \<Rightarrow> 'b stream_ops \<Rightarrow> ('a, 'b) scripts \<Rightarrow> (socket_addr \<Rightarrow> (io_error, 'b) dialled) \<Rightarrow>
     (handler_ref \<Rightarrow> acl_addr \<Rightarrow> (string, 'b) dialled) \<Rightarrow> transport_type \<Rightarrow> user_id \<Rightarrow> bytes \<Rightarrow> address \<Rightarrow>
     resolved_addrs option \<Rightarrow> handler_ref option \<Rightarrow> 'd shared \<Rightarrow> 'a \<Rightarrow> outcome \<times> 'd shared \<times> 'a \<times> 'b option" where
  "handle_direct_connect sv A B sc connect dial ty user_id payload target resolved handler sh a =
     (case handler of
        Some handler \<Rightarrow> dial_via_handler sv A B sc dial ty user_id payload target handler resolved ''direct'' sh a
      | None \<Rightarrow>
          (case (case resolved of
                   Some r \<Rightarrow> (Inr r, sh_dns sh)
                 | None \<Rightarrow> resolve_addrs (sv_resolve sv) (sh_dns sh) target) of
             (Inl e, d) \<Rightarrow> relay_or_fail sv A B sc ty user_id payload (Inl (Io e)) (sh\<lparr>sh_dns := d\<rparr>) a
           | (Inr r, d) \<Rightarrow>
               (case try_connect connect (candidates r) None (sh\<lparr>sh_dns := d\<rparr>) of
                  (Inl last_err, sh) \<Rightarrow>
                    relay_or_fail sv A B sc ty user_id payload
                      (Inl (case last_err of Some e \<Rightarrow> e | None \<Rightarrow> Msg ''no address to connect to'')) sh a
                | (Inr b, sh) \<Rightarrow> relay_or_fail sv A B sc ty user_id payload (Inr b) sh a)))"

definition handle_proxy_connect ::
    "'d server \<Rightarrow> 'a stream_ops \<Rightarrow> 'b stream_ops \<Rightarrow> ('a, 'b) scripts \<Rightarrow> (handler_ref \<Rightarrow> acl_addr \<Rightarrow> (string, 'b) dialled) \<Rightarrow>
     transport_type \<Rightarrow> user_id \<Rightarrow> bytes \<Rightarrow> address \<Rightarrow> handler_ref \<Rightarrow> ip_addr option \<Rightarrow>
     'd shared \<Rightarrow> 'a \<Rightarrow> outcome \<times> 'd shared \<times> 'a \<times> 'b option" where
  "handle_proxy_connect sv A B sc dial ty user_id payload target handler hijack sh a =
     (let target = (case hijack of Some ip \<Rightarrow> from_ip ip (address_port target) | None \<Rightarrow> target)
      in dial_via_handler sv A B sc dial ty user_id payload target handler None ''proxy'' sh a)"

definition handle_connect ::
    "'d server \<Rightarrow> 'a stream_ops \<Rightarrow> 'b stream_ops \<Rightarrow> ('a, 'b) scripts \<Rightarrow> (socket_addr \<Rightarrow> (io_error, 'b) dialled) \<Rightarrow>
     (handler_ref \<Rightarrow> acl_addr \<Rightarrow> (string, 'b) dialled) \<Rightarrow> transport_type \<Rightarrow> user_id \<Rightarrow> bytes \<Rightarrow> address \<Rightarrow>
     'd shared \<Rightarrow> 'a \<Rightarrow> outcome \<times> 'd shared \<times> 'a \<times> 'b option" where
  "handle_connect sv A B sc connect dial ty user_id payload target sh a =
     (let (outbound_type, d) = sv_route sv (sh_dns sh) target; sh = sh\<lparr>sh_dns := d\<rparr> in
      case outbound_type of
        Direct resolved handler \<Rightarrow>
          handle_direct_connect sv A B sc connect dial ty user_id payload target resolved handler sh a
      | Proxy handler hijack \<Rightarrow>
          handle_proxy_connect sv A B sc dial ty user_id payload target handler hijack sh a
      | Reject \<Rightarrow>
          let (sh, a) = close_client A (sc_close sc) (sh, a) in (Returned (Inr ()), sh, a, None))"

section \<open>Reading the request: lemmas\<close>

text \<open>A change from outside that leaves the histories of a stream alone.\<close>

definition quiet :: "('s \<Rightarrow> 'h) \<Rightarrow> ('s \<Rightarrow> 's) list \<Rightarrow> bool" where
  "quiet h script \<longleftrightarrow> (\<forall>env \<in> set script. \<forall>s. h (env s) = h s)"

lemma quiet_simps [simp]:
  "quiet h []" "quiet h (env # script) \<longleftrightarrow> (\<forall>s. h (env s) = h s) \<and> quiet h script"
  by (auto simp: quiet_def)

lemma try_request_not_unreachable: "try_request buf \<noteq> Some Unreachable"
  using check_complete_cases [of buf]
  by (auto simp: try_request_def split: sum.splits option.splits decode_result.splits)

lemma try_request_Request:
  assumes "try_request buf = Some (Request r)"
  shows "request_ok r \<and> buf = request_bytes r"
proof -
  have "\<exists>n. fst (request_decode_zerocopy buf) = Ok r n"
    using assms by (auto simp: try_request_def split: if_splits sum.splits option.splits decode_result.splits)
  then show ?thesis using request_decode_sound [of buf r] by (metis prod.collapse)
qed

lemma try_request_cases:
  "try_request buf =
     (case check_complete buf of
        Inl None \<Rightarrow> None
      | Inl (Some e) \<Rightarrow> Some (Failed (Msg (''Invalid request: '' @ e)))
      | Inr n \<Rightarrow> Some (case fst (request_decode_zerocopy buf) of Ok r _ \<Rightarrow> Request r | _ \<Rightarrow> Unreachable))"
proof (cases "length buf \<ge> REQ_MIN_SIZE")
  case True
  then show ?thesis
    using check_complete_cases [of buf]
    by (auto simp: try_request_def split: sum.splits option.splits decode_result.splits)
next
  case False
  then show ?thesis by (simp add: try_request_def check_complete_def)
qed

text \<open>The length of a request's header, and what may come of a valid request of which \<open>buf\<close> has arrived.\<close>

definition header_len :: "trojan_request \<Rightarrow> nat" where
  "header_len r = length (header_bytes (tr_password r) (tr_cmd r) (tr_addr r))"

fun request_outcome :: "trojan_request \<Rightarrow> bytes \<Rightarrow> read_outcome \<Rightarrow> bool" where
  "request_outcome r buf (Request q) \<longleftrightarrow> header_len r \<le> length buf \<and> q = r\<lparr>tr_payload := drop (header_len r) buf\<rparr>"
| "request_outcome r buf Expired \<longleftrightarrow> length buf < header_len r"
| "request_outcome r buf (Failed (Msg m)) \<longleftrightarrow>
     m \<in> {''Connection closed before receiving request'', ''Connection closed with incomplete request'',
          ''Request too large''}"
| "request_outcome r buf (Failed (Io e)) \<longleftrightarrow> True"
| "request_outcome r buf Unreachable \<longleftrightarrow> False"

text \<open>A buffer that is part of a valid request is never refused, and accepted with its header.\<close>

lemma request_prefix:
  assumes r: "request_ok r" and h: "REQ_MIN_SIZE \<le> header_len r" and b: "request_bytes r = buf @ ext"
  shows "try_request buf =
    (if header_len r \<le> length buf then Some (Request (r\<lparr>tr_payload := drop (header_len r) buf\<rparr>)) else None)"
proof (cases "header_len r \<le> length buf")
  case True
  let ?r = "r\<lparr>tr_payload := drop (header_len r) buf\<rparr>"
  have "take (header_len r) buf = header_bytes (tr_password r) (tr_cmd r) (tr_addr r)"
    using b True by (metis append_eq_append_conv_if request_bytes_def header_len_def)
  then have buf: "request_bytes ?r = buf" by (simp add: request_bytes_def) (metis append_take_drop_id)
  have "request_ok ?r" "REQ_MIN_SIZE \<le> length (request_bytes ?r)"
    using r h True unfolding buf by (simp_all add: request_ok_def)
  from request_decode_ok [OF this] have d: "request_decode_zerocopy buf = (Ok ?r (header_len r), [])"
    unfolding buf by (simp add: header_len_def)
  obtain n where "check_complete buf = Inr n"
    using check_complete_cases [of buf] d by (auto split: sum.splits option.splits)
  then show ?thesis using True d by (simp add: try_request_cases)
next
  case False
  have full: "request_decode_zerocopy (request_bytes r) = (Ok r (header_len r), [])"
    using request_decode_ok [OF r] h by (simp add: request_bytes_def header_len_def)
  have "check_complete buf = Inl None"
  proof (rule ccontr)
    assume c: "check_complete buf \<noteq> Inl None"
    then have "check_complete (request_bytes r) = check_complete buf" unfolding b by (rule check_complete_append)
    moreover have "check_complete (request_bytes r) = Inr (header_len r)"
      using check_complete_cases [of "request_bytes r"] full by (auto split: sum.splits option.splits)
    ultimately show False using check_complete_length [of buf "header_len r"] False by simp
  qed
  then show ?thesis using False by (simp add: try_request_cases)
qed

text \<open>The five ways a read can go in the loop.\<close>

lemma read_cases [case_names pend err eof big data]:
  fixes q :: "bytes io_result poll"
  obtains "q = Pending" | e where "q = Ready (Inl e)" | "q = Ready (Inr [])"
    | bs where "q = Ready (Inr bs)" "bs \<noteq> []" "length (buf @ bs) > n * 2"
    | bs where "q = Ready (Inr bs)" "bs \<noteq> []" "length (buf @ bs) \<le> n * 2"
  by (cases q) (metis sum.exhaust not_le)+

context async_stream
begin

abbreviation hist :: "'s \<Rightarrow> bytes \<times> bytes" where
  "hist s \<equiv> (rx s, tx s)"

lemma read_request_history:
  assumes "read_trojan_request ops spare n script a buf = (res, a')" and "quiet hist script"
    and "length buf \<le> n * 2"
  shows "\<exists>got. rx a' = rx a @ got \<and> tx a' = tx a \<and> res \<noteq> Unreachable \<and>
    (\<forall>r. res = Request r \<longrightarrow> request_ok r \<and> request_bytes r = buf @ got \<and> length (buf @ got) \<le> n * 2)"
  using assms
proof (induction script arbitrary: a buf)
  case Nil
  then show ?case
    using try_request_not_unreachable [of buf] try_request_Request [of buf]
    by (auto simp: read_trojan_request.simps [of ops spare n "[]"] split: option.splits)
next
  case (Cons env script)
  note rd = Cons.prems(1) [unfolded read_trojan_request.simps [of ops spare n "env # script"]]
  show ?case
  proof (cases "try_request buf")
    case (Some r)
    then show ?thesis
      using rd Cons.prems(3) try_request_not_unreachable [of buf] try_request_Request [of buf] by auto
  next
    case None
    have e: "rx (env a) = rx a" "tx (env a) = tx a" using Cons.prems(2) by simp_all
    obtain q s where q: "poll_read ops (env a) (spare buf) = (q, s)" by fastforce
    show ?thesis
    proof (cases rule: read_cases [where q = q and buf = buf and n = n])
      case pend
      then have "read_trojan_request ops spare n script s buf = (res, a')" using rd None q by simp
      from Cons.IH [OF this] Cons.prems(2,3) show ?thesis using read_rest(1) [of "env a" "spare buf" s] q pend e by simp
    next
      case (err err)
      then show ?thesis using rd None q read_rest(2) [of "env a" "spare buf" err s] e by auto
    next
      case eof
      then show ?thesis using rd None q read_Ok [of "env a" "spare buf" "[]" s] e by (auto split: if_splits)
    next
      case (big bs)
      then show ?thesis using rd None q read_Ok [of "env a" "spare buf" bs s] e by (auto simp: Let_def)
    next
      case (data bs)
      then have "read_trojan_request ops spare n script s (buf @ bs) = (res, a')" using rd None q by (simp add: Let_def)
      from Cons.IH [OF this _ data(3)] Cons.prems(2) obtain got where
        g: "rx a' = rx s @ got" "tx a' = tx s" "res \<noteq> Unreachable"
        "\<forall>r. res = Request r \<longrightarrow> request_ok r \<and> request_bytes r = (buf @ bs) @ got \<and> length ((buf @ bs) @ got) \<le> n * 2"
        by auto
      then show ?thesis using read_Ok [of "env a" "spare buf" bs s] q data e
        by (intro exI [of _ "bs @ got"]) simp
    qed
  qed
qed

lemma read_request_valid:
  assumes "read_trojan_request ops spare n script a buf = (res, a')" and "quiet hist script"
    and "request_ok r" and "REQ_MIN_SIZE \<le> header_len r" and "length buf \<le> n * 2"
    and "rx a' = rx a @ got" and "request_bytes r = (buf @ got) @ ext"
  shows "request_outcome r (buf @ got) res"
  using assms
proof (induction script arbitrary: a buf got)
  case Nil
  have "got = []" using Nil by (auto simp: read_trojan_request.simps [of ops spare n "[]"] split: option.splits)
  then show ?case
    using Nil.prems(1,7) request_prefix [OF Nil.prems(3,4), of buf ext]
    by (auto simp: read_trojan_request.simps [of ops spare n "[]"] split: if_splits)
next
  case (Cons env script)
  note rd = Cons.prems(1) [unfolded read_trojan_request.simps [of ops spare n "env # script"]]
  have e: "rx (env a) = rx a" using Cons.prems(2) by simp
  have pre: "try_request buf = (if header_len r \<le> length buf
      then Some (Request (r\<lparr>tr_payload := drop (header_len r) buf\<rparr>)) else None)"
    using request_prefix [OF Cons.prems(3,4), of buf "got @ ext"] Cons.prems(7) by simp
  show ?case
  proof (cases "header_len r \<le> length buf")
    case True
    then have "res = Request (r\<lparr>tr_payload := drop (header_len r) buf\<rparr>)" "a' = a" using rd pre by simp_all
    then show ?thesis using Cons.prems(6) True by simp
  next
    case False
    then have None: "try_request buf = None" using pre by simp
    obtain q s where q: "poll_read ops (env a) (spare buf) = (q, s)" by fastforce
    show ?thesis
    proof (cases rule: read_cases [where q = q and buf = buf and n = n])
      case pend
      then have "read_trojan_request ops spare n script s buf = (res, a')" using rd None q by simp
      moreover have "rx a' = rx s @ got" using Cons.prems(6) read_rest(1) [of "env a" "spare buf" s] q pend e by simp
      ultimately show ?thesis using Cons.IH [of s buf got] Cons.prems(2-5,7) by simp
    next
      case (data bs)
      then have rec: "read_trojan_request ops spare n script s (buf @ bs) = (res, a')"
        using rd None q by (simp add: Let_def)
      obtain got2 where g: "rx a' = rx s @ got2"
        using read_request_history [OF rec _ data(3)] Cons.prems(2) by auto
      moreover have "got = bs @ got2"
        using g Cons.prems(6) read_Ok [of "env a" "spare buf" bs s] q data e by simp
      ultimately show ?thesis using Cons.IH [OF rec _ Cons.prems(3,4) data(3)] Cons.prems(2,7) by simp
    qed (use rd None q in \<open>auto simp: Let_def split: if_splits\<close>)
  qed
qed

lemma await_shutdown_history: "quiet hist script \<Longrightarrow> hist (await_shutdown ops script s) = hist s"
  by (induction script arbitrary: s) (auto split: prod.split poll.split dest: shutdown_law)

lemma write_all_history:
  assumes "write_all ops script bs s = (r, s')" and "quiet hist script"
  shows "\<exists>k. k \<le> length bs \<and> tx s' = tx s @ take k bs \<and> rx s' = rx s \<and> (r = Some (Inr ()) \<longrightarrow> k = length bs)"
  using assms
proof (induction script arbitrary: bs s)
  case Nil
  then show ?case by (cases bs) auto
next
  case (Cons env script)
  show ?case
  proof (cases bs)
    case Nil
    then show ?thesis using Cons.prems(1) by simp
  next
    case (Cons c cs)
    obtain q s2 where q: "poll_write ops (env s) bs = (q, s2)" by fastforce
    note h = Cons.prems(2)
    consider (pend) "q = Pending" | (err) e where "q = Ready (Inl e)" | (zero) "q = Ready (Inr 0)"
      | (ok) k where "q = Ready (Inr k)" "k \<noteq> 0"
      by (cases q) (metis sum.exhaust)+
    then show ?thesis
    proof cases
      case pend
      then show ?thesis
        using Cons.IH [of bs s2] Cons.prems q write_rest(1) [of "env s" bs s2] by (auto simp: \<open>bs = c # cs\<close>)
    next
      case err
      then show ?thesis using Cons.prems q write_rest(2) [of "env s" bs e s2] by (auto simp: \<open>bs = c # cs\<close>)
    next
      case zero
      then show ?thesis using Cons.prems q write_Ok [of "env s" bs 0 s2] by (auto simp: \<open>bs = c # cs\<close>)
    next
      case ok
      then have rec: "write_all ops script (drop k bs) s2 = (r, s')" using Cons.prems(1) q by (simp add: \<open>bs = c # cs\<close>)
      have w: "k \<le> length bs" "tx s2 = tx s @ take k bs" "rx s2 = rx s"
        using write_Ok [of "env s" bs k s2] q ok Cons.prems(2) by auto
      obtain m where m: "m \<le> length (drop k bs)" "tx s' = tx s2 @ take m (drop k bs)" "rx s' = rx s2"
        "r = Some (Inr ()) \<longrightarrow> m = length (drop k bs)"
        using Cons.IH [OF rec] Cons.prems(2) by auto
      have "take k bs @ take m (drop k bs) = take (k + m) bs" by (simp add: take_add)
      then show ?thesis using w m by (intro exI [of _ "k + m"]) auto
    qed
  qed
qed

end

section \<open>Relaying: lemmas\<close>

definition quiet_events :: "('a \<Rightarrow> 'h) \<Rightarrow> ('b \<Rightarrow> 'g) \<Rightarrow> ('a, 'b) relay_event list \<Rightarrow> bool" where
  "quiet_events ha hb evs \<longleftrightarrow>
     (\<forall>fuel now env_a env_b. Poll fuel now env_a env_b \<in> set evs \<longrightarrow>
        (\<forall>s. ha (env_a s) = ha s) \<and> (\<forall>s. hb (env_b s) = hb s))"

lemma quiet_events_simps [simp]:
  "quiet_events ha hb []"
  "quiet_events ha hb (Cancelled # evs) = quiet_events ha hb evs"
  "quiet_events ha hb (Poll fuel now env_a env_b # evs) \<longleftrightarrow>
     (\<forall>s. ha (env_a s) = ha s) \<and> (\<forall>s. hb (env_b s) = hb s) \<and> quiet_events ha hb evs"
  by (auto simp: quiet_events_def)

lemma snd_relay_finish [simp]: "snd (relay_finish cfg r st) = report_traffic cfg st"
  by (simp add: relay_finish_def Let_def)

text \<open>One event of the relay: it stops with a state, or goes on after a pending poll.\<close>

lemma drive_relay_Poll:
  assumes "drive_relay A B cfg (Poll fuel now env_a env_b # evs) st a b = (e, st', a', b')"
  obtains
    (stuck) "relay_poll fuel A B cfg now st (env_a a) (env_b b) = None" "e = Unfinished" "st' = st" "a' = env_a a" "b' = env_b b"
  | (pend) st1 a1 b1 where "relay_poll fuel A B cfg now st (env_a a) (env_b b) = Some (Pending, st1, a1, b1)"
      "drive_relay A B cfg evs st1 a1 b1 = (e, st', a', b')"
  | (fin) r st1 where "relay_poll fuel A B cfg now st (env_a a) (env_b b) = Some (Ready r, st1, a', b')"
      "e = Finished (fst (relay_finish cfg r st1))" "st' = report_traffic cfg st1"
  using assms
  by (auto simp: case_prod_beta split: option.splits poll.splits)

context relay_pair
begin

lemma drive_relay_inv:
  assumes "drive_relay A B cfg evs st a b = (e, st', a', b')" and "relay_inv ha0 hb0 st (ha a) (hb b)"
    and "quiet_events ha hb evs"
  shows "relay_inv ha0 hb0 st' (ha a') (hb b')"
  using assms
proof (induction evs arbitrary: st a b)
  case (Cons ev evs)
  show ?case
  proof (cases ev)
    case (Poll fuel now env_a env_b)
    have i: "relay_inv ha0 hb0 st (ha (env_a a)) (hb (env_b b))" using Cons.prems(2,3) Poll by simp
    from Cons.prems(1) [unfolded Poll] show ?thesis
    proof (cases rule: drive_relay_Poll)
      case stuck
      then show ?thesis using i by simp
    next
      case (pend st1 a1 b1)
      then show ?thesis using Cons.IH [OF pend(2)] relay_poll_inv [OF i pend(1)] Cons.prems(3) Poll by simp
    next
      case (fin r st1)
      then show ?thesis using relay_poll_inv [OF i fin(1)] by (simp add: relay_inv_def)
    qed
  qed (use Cons.prems in simp)
qed simp

end

text \<open>Everything transferred has been reported.\<close>

definition billed :: "user_id \<Rightarrow> stat_event list \<Rightarrow> relay_state \<Rightarrow> bool" where
  "billed u ev st \<longleftrightarrow>
     uploaded u (rl_events st) = uploaded u ev + bytes_transferred (rl_a_to_b st) \<and>
     downloaded u (rl_events st) = downloaded u ev + bytes_transferred (rl_b_to_a st)"

lemma drive_relay_billed:
  assumes "drive_relay A B cfg evs st a b = (e, st', a', b')" and user: "rl_user cfg = Some u"
    and "billing_inv u ev st" and "billed u ev st"
  shows "billed u ev st'"
  using assms(1,3,4)
proof (induction evs arbitrary: st a b)
  case (Cons ev' evs)
  show ?case
  proof (cases ev')
    case (Poll fuel now env_a env_b)
    from Cons.prems(1) [unfolded Poll] show ?thesis
    proof (cases rule: drive_relay_Poll)
      case stuck
      then show ?thesis using Cons.prems by simp
    next
      case (pend st1 a1 b1)
      have "billing_inv u ev st1" "rl_reported_up st1 = bytes_transferred (rl_a_to_b st1)"
        "rl_reported_down st1 = bytes_transferred (rl_b_to_a st1)"
        using relay_poll_billing [OF Cons.prems(2) user pend(1)] by simp_all
      then show ?thesis using Cons.IH [OF pend(2)] by (simp add: billed_def billing_inv_def)
    next
      case (fin r st1)
      have "billing_inv u ev st1" using relay_poll_billing [OF Cons.prems(2) user fin(1)] by simp
      then show ?thesis using report_traffic_billing [OF _ user, of ev st1] fin(3)
        by (simp add: billed_def billing_inv_def)
    qed
  qed (use Cons.prems in simp)
qed simp

lemma relay_init_inv:
  "relay_inv h g (relay_init cfg now n ev) h g" "billing_inv u ev (relay_init cfg now n ev)" "billed u ev (relay_init cfg now n ev)"
  by (simp_all add: relay_inv_def relay_init_def copy_inv_new)
     (simp_all add: billing_inv_def billed_def db_new_def bytes_transferred_def)

text \<open>
  What a session has done to its two streams and to the bill: the bytes written to the remote are
  a prefix of the payload followed by what the client sent, the bytes written to the client a
  prefix of what the remote sent; the initial payload is billed whole when its write begins.
\<close>

definition session_flow ::
    "user_id \<Rightarrow> bytes \<Rightarrow> stat_event list \<Rightarrow> stat_event list \<Rightarrow> 'a recorded \<Rightarrow> 'a recorded \<Rightarrow> 'b recorded \<Rightarrow> 'b recorded \<Rightarrow> bool" where
  "session_flow u payload ev ev' a a' b b' \<longleftrightarrow>
     (\<exists>got up back down.
        rc_rx a' = rc_rx a @ got \<and> rc_tx b' = rc_tx b @ up \<and> prefix up (payload @ got) \<and>
        rc_rx b' = rc_rx b @ back \<and> rc_tx a' = rc_tx a @ down \<and> prefix down back \<and>
        uploaded u ev' = uploaded u ev + max (length payload) (length up) \<and>
        downloaded u ev' = downloaded u ev + length down)"

definition quiet_scripts :: "('a recorded, 'b recorded) scripts \<Rightarrow> bool" where
  "quiet_scripts sc \<longleftrightarrow>
     quiet remote_history (sc_read sc) \<and> quiet remote_history (sc_close sc) \<and> quiet remote_history (sc_write sc) \<and>
     quiet_events client_history remote_history (sc_relay sc) \<and> quiet remote_history (sc_close_remote sc)"

lemma await_shutdown_recorded [simp]:
  assumes "quiet remote_history script"
  shows "rc_rx (await_shutdown (recorded_ops A) script s) = rc_rx s" "rc_tx (await_shutdown (recorded_ops A) script s) = rc_tx s"
  using rec_stream.await_shutdown_history [OF assms, of A s] by simp_all

lemma close_client_simps [simp]:
  "sh_stats (fst (close_client A script (sh, a))) = sh_stats sh"
  "sh_conn_manager (fst (close_client A script (sh, a))) = sh_conn_manager sh"
  "sh_actions (fst (close_client A script (sh, a))) = sh_actions sh @ [Close_Client]"
  "snd (close_client A script (sh, a)) = await_shutdown A script a"
  by (simp_all add: close_client_def act_def)

lemma act_simps [simp]:
  "sh_stats (act x sh) = sh_stats sh" "sh_conn_manager (act x sh) = sh_conn_manager sh" "sh_dns (act x sh) = sh_dns sh"
  "sh_actions (act x sh) = sh_actions sh @ [x]"
  by (simp_all add: act_def)

lemma stat_simps [simp]:
  "sh_stats (stat e sh) = sh_stats sh @ [e]" "sh_conn_manager (stat e sh) = sh_conn_manager sh" "sh_dns (stat e sh) = sh_dns sh"
  "sh_actions (stat e sh) = sh_actions sh"
  by (simp_all add: stat_def)

lemma uploaded_append [simp]:
  "uploaded u (xs @ ys) = uploaded u xs + uploaded u ys" "downloaded u (xs @ ys) = downloaded u xs + downloaded u ys"
  "uploaded u [Record_Upload u n] = n" "downloaded u [Record_Upload u n] = 0" "uploaded u [] = 0" "downloaded u [] = 0"
  "uploaded u [Record_Request v] = 0" "downloaded u [Record_Request v] = 0"
  by (simp_all add: uploaded_def downloaded_def)

text \<open>The events of the initial payload.\<close>

definition payload_stats :: "user_id \<Rightarrow> bytes \<Rightarrow> stat_event list" where
  "payload_stats u payload = (if payload = [] then [] else [Record_Upload u (length payload)])"

lemma payload_stats_sums [simp]:
  "uploaded u (payload_stats u payload) = length payload" "downloaded u (payload_stats u payload) = 0"
  by (simp_all add: payload_stats_def)

text \<open>The three ways \<open>ctx_relay\<close> can go.\<close>

lemma ctx_relay_cases:
  assumes "ctx_relay sv A B sc ty u payload sh a b = (out, sh', a', b')"
  obtains
    (waiting) "write_all B (sc_write sc) payload b = (None, b')" "out = Running" "a' = a"
      "sh' = sh\<lparr>sh_stats := sh_stats sh @ payload_stats u payload\<rparr>"
  | (write_error) e where "write_all B (sc_write sc) payload b = (Some (Inl e), b')" "out = Returned (Inl (Io e))"
      "a' = await_shutdown A (sc_close sc) a"
      "sh' = act Close_Client (sh\<lparr>sh_stats := sh_stats sh @ payload_stats u payload\<rparr>)"
  | (relayed) b1 e st c b2 where "write_all B (sc_write sc) payload b = (Some (Inr ()), b1)"
      "drive_relay (no_half_close_ops A) B (relay_cfg (sv_conn_config sv) u) (sc_relay sc)
         (relay_init (relay_cfg (sv_conn_config sv) u) (sc_start sc) (cc_buffer_size (sv_conn_config sv))
            (sh_stats sh @ payload_stats u payload))
         \<lparr>nh_inner = a, nh_half_close = half_close ty\<rparr> b1 = (e, st, c, b2)"
      "a' = (if e = Unfinished then nh_inner c else await_shutdown A (sc_close sc) (nh_inner c))"
      "b' = (if e = Kicked then await_shutdown B (sc_close_remote sc) b2 else b2)"
      "out = (if e = Unfinished then Running else Returned (Inr ()))"
      "sh' = sh\<lparr>sh_stats := rl_events st,
               sh_actions := sh_actions sh @ (case e of Unfinished \<Rightarrow> [] | Kicked \<Rightarrow> [Close_Client, Close_Remote]
                                              | Finished _ \<Rightarrow> [Close_Client])\<rparr>"
proof -
  have sh1: "(if payload \<noteq> [] then stat (Record_Upload u (length payload)) sh else sh) =
      sh\<lparr>sh_stats := sh_stats sh @ payload_stats u payload\<rparr>"
    by (simp add: payload_stats_def stat_def)
  obtain w b1 where w: "write_all B (sc_write sc) payload b = (w, b1)" by fastforce
  note eq = assms [unfolded ctx_relay_def Let_def sh1 w]
  consider "w = None" | e where "w = Some (Inl e)" | "w = Some (Inr ())"
    by (cases w) (metis sum.exhaust unit.exhaust)+
  then show thesis
  proof cases
    case 1
    then show thesis using eq w by (intro waiting) auto
  next
    case (2 e)
    then show thesis using eq w by (intro write_error [of e]) (auto simp: close_client_def)
  next
    case 3
    obtain e st c b2 where d: "drive_relay (no_half_close_ops A) B (relay_cfg (sv_conn_config sv) u) (sc_relay sc)
         (relay_init (relay_cfg (sv_conn_config sv) u) (sc_start sc) (cc_buffer_size (sv_conn_config sv))
            (sh_stats sh @ payload_stats u payload))
         \<lparr>nh_inner = a, nh_half_close = half_close ty\<rparr> b1 = (e, st, c, b2)" by (metis prod_cases4)
    show thesis
      by (rule relayed [OF _ d]) (use eq w d 3 in \<open>cases e; auto simp: close_client_def act_def\<close>)+
  qed
qed

lemma relay_cfg_user [simp]: "rl_user (relay_cfg cc u) = Some u"
  by (simp add: relay_cfg_def)

lemma ctx_relay_flow:
  assumes r: "ctx_relay sv (recorded_ops A) (recorded_ops B) sc ty u payload sh a b = (out, sh', a', b')"
    and q: "quiet_scripts sc"
  shows "session_flow u payload (sh_stats sh) (sh_stats sh') a a' b b'"
proof -
  have qs: "quiet remote_history (sc_close sc)" "quiet remote_history (sc_write sc)"
    "quiet_events client_history remote_history (sc_relay sc)" "quiet remote_history (sc_close_remote sc)"
    using q by (auto simp: quiet_scripts_def)
  have written: "\<exists>k \<le> length payload. rc_tx b1 = rc_tx b @ take k payload \<and> rc_rx b1 = rc_rx b \<and>
      (w = Some (Inr ()) \<longrightarrow> k = length payload)"
    if "write_all (recorded_ops B) (sc_write sc) payload b = (w, b1)" for w b1
    using rec_stream.write_all_history [OF that qs(2)] by auto
  from r show ?thesis
  proof (cases rule: ctx_relay_cases)
    case waiting
    then show ?thesis using written [OF waiting(1)] by (auto simp: session_flow_def take_is_prefix max_def)
  next
    case (write_error e)
    then show ?thesis using written [OF write_error(1)] qs by (auto simp: session_flow_def take_is_prefix max_def)
  next
    case (relayed b1 e st c b2)
    let ?st0 = "relay_init (relay_cfg (sv_conn_config sv) u) (sc_start sc) (cc_buffer_size (sv_conn_config sv))
      (sh_stats sh @ payload_stats u payload)"
    let ?c0 = "\<lparr>nh_inner = a, nh_half_close = half_close ty\<rparr>"
    have w: "rc_tx b1 = rc_tx b @ payload" "rc_rx b1 = rc_rx b" using written [OF relayed(1)] by auto
    have inv: "relay_inv (client_history ?c0) (remote_history b1) st (client_history c) (remote_history b2)"
      using session.drive_relay_inv [OF relayed(2) relay_init_inv(1) qs(3)] .
    have bill: "billed u (sh_stats sh @ payload_stats u payload) st"
      by (rule drive_relay_billed [OF relayed(2) relay_cfg_user relay_init_inv(2,3)])
    obtain up where up: "rc_tx b2 = rc_tx b1 @ up" "rc_rx (nh_inner c) = rc_rx a @ up @ unwritten (rl_a_to_b st)"
      "bytes_transferred (rl_a_to_b st) = length up"
      using inv by (auto simp: relay_inv_def copy_inv_def bytes_transferred_def)
    obtain down where down: "rc_tx (nh_inner c) = rc_tx a @ down" "rc_rx b2 = rc_rx b1 @ down @ unwritten (rl_b_to_a st)"
      "bytes_transferred (rl_b_to_a st) = length down"
      using inv by (auto simp: relay_inv_def copy_inv_def bytes_transferred_def)
    have "rc_rx a' = rc_rx (nh_inner c)" "rc_tx a' = rc_tx (nh_inner c)" "rc_rx b' = rc_rx b2" "rc_tx b' = rc_tx b2"
      using relayed(3,4) qs by simp_all
    then have hist: "rc_rx a' = rc_rx a @ (up @ unwritten (rl_a_to_b st))" "rc_tx b' = rc_tx b @ (payload @ up)"
      "rc_rx b' = rc_rx b @ (down @ unwritten (rl_b_to_a st))" "rc_tx a' = rc_tx a @ down"
      using up down w by simp_all
    have "prefix (payload @ up) (payload @ up @ unwritten (rl_a_to_b st))" "prefix down (down @ unwritten (rl_b_to_a st))"
      by simp_all
    moreover have "uploaded u (sh_stats sh') = uploaded u (sh_stats sh) + max (length payload) (length (payload @ up))"
      "downloaded u (sh_stats sh') = downloaded u (sh_stats sh) + length down"
      using bill up(3) down(3) relayed(6) by (simp_all add: billed_def)
    ultimately show ?thesis unfolding session_flow_def using hist by blast
  qed
qed

section \<open>Dialling: lemmas\<close>

lemma ctx_relay_actions:
  assumes "ctx_relay sv A B sc ty u payload sh a b = (out, sh', a', b')"
  shows "\<exists>acts. sh_actions sh' = sh_actions sh @ acts \<and> set acts \<subseteq> {Close_Client, Close_Remote} \<and>
    count_list acts Close_Client = (if out = Running then 0 else 1) \<and> out \<noteq> Panicked \<and>
    sh_conn_manager sh' = sh_conn_manager sh \<and> sh_dns sh' = sh_dns sh"
  using assms
  by (cases rule: ctx_relay_cases) (auto split: relay_end.split)

text \<open>A summary of what a handler did from outside: the new actions and how it ended.\<close>

definition did :: "'d shared \<Rightarrow> outcome \<Rightarrow> 'd shared \<Rightarrow> action list \<Rightarrow> bool" where
  "did sh out sh' acts \<longleftrightarrow>
     sh_actions sh' = sh_actions sh @ acts \<and> sh_conn_manager sh' = sh_conn_manager sh \<and> out \<noteq> Panicked \<and>
     count_list acts Close_Client = (if out = Running then 0 else 1)"

lemma relay_or_fail_did:
  assumes "relay_or_fail sv A B sc ty u payload remote sh a = (out, sh', a', b')"
  shows "\<exists>acts. did sh out sh' acts \<and> set acts \<subseteq> {Close_Client, Close_Remote}"
proof (cases remote)
  case (Inl e)
  then show ?thesis using assms by (auto simp: relay_or_fail_def did_def close_client_def)
next
  case (Inr b)
  obtain out1 sh1 a1 b1 where c: "ctx_relay sv A B sc ty u payload sh a b = (out1, sh1, a1, b1)" by (metis prod_cases4)
  then show ?thesis using assms Inr ctx_relay_actions [OF c] by (auto simp: relay_or_fail_def did_def)
qed

lemma relay_or_fail_flow:
  assumes r: "relay_or_fail sv (recorded_ops A) (recorded_ops B) sc ty u payload remote sh a = (out, sh', a', b')"
    and q: "quiet_scripts sc"
  shows "case remote of
      Inl e \<Rightarrow> out = Returned (Inl e) \<and> b' = None \<and> rc_rx a' = rc_rx a \<and> rc_tx a' = rc_tx a \<and> sh_stats sh' = sh_stats sh
    | Inr b \<Rightarrow> \<exists>b1. b' = Some b1 \<and> session_flow u payload (sh_stats sh) (sh_stats sh') a a' b b1"
proof (cases remote)
  case (Inl e)
  then show ?thesis
    using r q rec_stream.await_shutdown_history [of "sc_close sc" A a]
    by (auto simp: relay_or_fail_def close_client_def quiet_scripts_def)
next
  case (Inr b)
  obtain out1 sh1 a1 b1 where c: "ctx_relay sv (recorded_ops A) (recorded_ops B) sc ty u payload sh a b = (out1, sh1, a1, b1)"
    by (metis prod_cases4)
  then show ?thesis using r Inr ctx_relay_flow [OF c q] by (auto simp: relay_or_fail_def)
qed

text \<open>
  The attempts: a prefix of the candidates, in order; all of them failed but perhaps the last, and
  without a connection all were tried and the last error is known.
\<close>

definition attempted ::
    "(socket_addr \<Rightarrow> ('e, 'b) dialled) \<Rightarrow> socket_addr list \<Rightarrow> handler_error option + 'b \<Rightarrow> socket_addr list \<Rightarrow> bool" where
  "attempted connect cands r tried \<longleftrightarrow>
     prefix tried cands \<and>
     (case r of
        Inr b \<Rightarrow> tried \<noteq> [] \<and> connect (last tried) = Dialled b \<and> (\<forall>sa \<in> set (butlast tried). \<forall>x. connect sa \<noteq> Dialled x)
      | Inl e \<Rightarrow> tried = cands \<and> (\<forall>sa \<in> set cands. \<forall>x. connect sa \<noteq> Dialled x) \<and> (cands \<noteq> [] \<longrightarrow> e \<noteq> None))"

lemma attempted_step:
  assumes "attempted connect cands r tried" and "\<forall>x. connect sa \<noteq> Dialled x" and "r \<noteq> Inl None"
  shows "attempted connect (sa # cands) r (sa # tried)"
  using assms by (auto simp: attempted_def split: sum.splits)

lemma try_connect_error: "try_connect connect cands (Some e) sh = (r, sh') \<Longrightarrow> r \<noteq> Inl None"
  by (induction cands arbitrary: e sh) (auto simp: Let_def split: dialled.splits)

lemma try_connect_spec:
  assumes "try_connect connect cands last_err sh = (r, sh')"
  shows "\<exists>tried. attempted connect cands r tried \<and> sh' = sh\<lparr>sh_actions := sh_actions sh @ map Connect_To tried\<rparr>"
  using assms
proof (induction cands arbitrary: last_err sh)
  case (Cons sa cands)
  show ?case
  proof (cases "\<exists>b. connect sa = Dialled b")
    case True
    then show ?thesis using Cons.prems by (intro exI [of _ "[sa]"]) (auto simp: Let_def act_def attempted_def)
  next
    case False
    then obtain e where c: "try_connect connect cands (Some e) (act (Connect_To sa) sh) = (r, sh')"
      using Cons.prems by (cases "connect sa") (auto simp: Let_def)
    from Cons.IH [OF c] obtain tried where "attempted connect cands r tried"
      "sh' = (act (Connect_To sa) sh)\<lparr>sh_actions := sh_actions (act (Connect_To sa) sh) @ map Connect_To tried\<rparr>" by blast
    then show ?thesis using attempted_step [of connect cands r tried sa] False try_connect_error [OF c]
      by (intro exI [of _ "sa # tried"]) (simp add: act_def)
  qed
qed (auto simp: attempted_def)

text \<open>Where a handler may connect to or dial, given the decision of the router.\<close>

fun justified :: "'d resolver \<Rightarrow> handler_ref outbound_type \<times> 'd \<Rightarrow> address \<Rightarrow> action \<Rightarrow> bool" where
  "justified resolve (outbound, d) target (Connect_To sa) \<longleftrightarrow>
     (\<exists>resolved. outbound = Direct resolved None \<and> sa \<in> set (direct_candidates resolve d target resolved))"
| "justified resolve (outbound, d) target (Dial_Via h addr) \<longleftrightarrow>
     (\<exists>resolved. outbound = Direct resolved (Some h) \<and> addr = acl_addr_for target resolved) \<or>
     (\<exists>hijack. outbound = Proxy h hijack \<and>
        addr = acl_addr_for (case hijack of Some ip \<Rightarrow> from_ip ip (address_port target) | None \<Rightarrow> target) None)"
| "justified resolve r target Close_Client \<longleftrightarrow> True"
| "justified resolve r target Close_Remote \<longleftrightarrow> True"

definition did_only :: "(action \<Rightarrow> bool) \<Rightarrow> 'd shared \<Rightarrow> outcome \<Rightarrow> 'd shared \<Rightarrow> bool" where
  "did_only P sh out sh' \<longleftrightarrow> (\<exists>acts. did sh out sh' acts \<and> (\<forall>x \<in> set acts. P x))"

lemma relay_or_fail_did_only:
  assumes r: "relay_or_fail sv A B sc ty u payload remote sh1 a = (out, sh', a', b')"
    and P: "P Close_Client" "P Close_Remote" "\<forall>x \<in> set acts. P x"
    and sh1: "sh_actions sh1 = sh_actions sh @ acts" "sh_conn_manager sh1 = sh_conn_manager sh" "Close_Client \<notin> set acts"
  shows "did_only P sh out sh'"
proof -
  obtain acts' where a: "did sh1 out sh' acts'" "set acts' \<subseteq> {Close_Client, Close_Remote}"
    using relay_or_fail_did [OF r] by blast
  have "count_list acts Close_Client = 0" using sh1(3) by (simp add: count_list_0_iff)
  then have "did sh out sh' (acts @ acts')" using a(1) sh1 by (auto simp: did_def)
  moreover have "\<forall>x \<in> set (acts @ acts'). P x" using P a(2) by auto
  ultimately show ?thesis unfolding did_only_def by blast
qed

lemma dial_via_handler_did:
  assumes "dial_via_handler sv A B sc dial ty u payload target h resolved kind sh a = (out, sh', a', b')"
    and "P Close_Client" "P Close_Remote" "P (Dial_Via h (acl_addr_for target resolved))"
  shows "did_only P sh out sh'"
  using relay_or_fail_did_only [where sh = sh and acts = "[Dial_Via h (acl_addr_for target resolved)]" and P = P,
      OF assms(1) [unfolded dial_via_handler_def Let_def]] assms(2-4)
  by simp

lemma handle_direct_connect_did:
  assumes "handle_direct_connect sv A B sc connect dial ty u payload target resolved handler sh a = (out, sh', a', b')"
    and P: "P Close_Client" "P Close_Remote"
      "\<And>h. handler = Some h \<Longrightarrow> P (Dial_Via h (acl_addr_for target resolved))"
      "\<And>sa. handler = None \<Longrightarrow> sa \<in> set (direct_candidates (sv_resolve sv) (sh_dns sh) target resolved) \<Longrightarrow> P (Connect_To sa)"
  shows "did_only P sh out sh'"
proof (cases handler)
  case (Some h)
  then show ?thesis
    using dial_via_handler_did [where P = P, OF assms(1) [unfolded handle_direct_connect_def Some option.case]] P by simp
next
  case None
  obtain q d where q: "(case resolved of Some r \<Rightarrow> (Inr r, sh_dns sh)
      | None \<Rightarrow> resolve_addrs (sv_resolve sv) (sh_dns sh) target) = (q, d)" by fastforce
  note eq = assms(1) [unfolded handle_direct_connect_def None option.case q]
  show ?thesis
  proof (cases q)
    case (Inl e)
    then show ?thesis
      using relay_or_fail_did_only [where sh = sh and acts = "[]" and P = P, OF eq [unfolded Inl prod.case sum.case]] P by simp
  next
    case (Inr r)
    have cands: "candidates r = direct_candidates (sv_resolve sv) (sh_dns sh) target resolved"
      using q Inr by (auto simp: direct_candidates_def split: option.splits)
    obtain t sh2 where t: "try_connect connect (candidates r) None (sh\<lparr>sh_dns := d\<rparr>) = (t, sh2)" by fastforce
    then obtain tried where tr: "attempted connect (candidates r) t tried"
      "sh2 = sh\<lparr>sh_dns := d, sh_actions := sh_actions sh @ map Connect_To tried\<rparr>"
      using try_connect_spec [OF t] by auto
    have "set tried \<subseteq> set (candidates r)" using tr(1) by (auto simp: attempted_def dest: set_mono_prefix)
    then have c: "\<forall>x \<in> set (map Connect_To tried). P x" using P(4) None cands by auto
    obtain remote where rel: "relay_or_fail sv A B sc ty u payload remote sh2 a = (out, sh', a', b')"
      using eq Inr t by (cases t) auto
    show ?thesis by (rule relay_or_fail_did_only [OF rel P(1,2) c]) (auto simp: tr(2))
  qed
qed

lemma handle_connect_did:
  assumes "handle_connect sv A B sc connect dial ty u payload target sh a = (out, sh', a', b')"
  shows "did_only (justified (sv_resolve sv) (sv_route sv (sh_dns sh) target) target) sh out sh'"
proof -
  obtain ot d where r: "sv_route sv (sh_dns sh) target = (ot, d)" by fastforce
  let ?sh = "sh\<lparr>sh_dns := d\<rparr>"
  let ?J = "justified (sv_resolve sv) (ot, d) target"
  note eq = assms [unfolded handle_connect_def r prod.case Let_def]
  have "did_only ?J ?sh out sh'"
  proof (cases ot)
    case (Direct resolved handler)
    then have h: "handle_direct_connect sv A B sc connect dial ty u payload target resolved handler ?sh a = (out, sh', a', b')"
      using eq by simp
    show ?thesis by (rule handle_direct_connect_did [OF h]) (auto simp: Direct)
  next
    case Reject
    then have "did ?sh out sh' [Close_Client]" using eq by (auto simp: did_def close_client_def)
    then show ?thesis unfolding did_only_def by (intro exI [of _ "[Close_Client]"]) simp
  next
    case (Proxy h hijack)
    show ?thesis
      by (rule dial_via_handler_did [where sv = sv])
         (use eq in \<open>auto simp: Proxy handle_proxy_connect_def Let_def\<close>)
  qed
  then show ?thesis by (simp add: did_only_def did_def r)
qed

text \<open>
  The addresses an action may reach, for a router that screens: an address connected to is public or
  trusted; a direct outbound gets only such addresses, and no addresses only for a public literal.
\<close>

definition public_or :: "ip_addr set \<Rightarrow> ip_addr \<Rightarrow> bool" where
  "public_or trusted ip \<longleftrightarrow> \<not> is_private_ip ip \<or> ip \<in> trusted"

definition acl_addr_safe :: "ip_addr set \<Rightarrow> address \<Rightarrow> acl_addr \<Rightarrow> bool" where
  "acl_addr_safe trusted target addr \<longleftrightarrow>
     (case aa_resolve_info addr of
        Some ri \<Rightarrow>
          (\<forall>ip. ri_ipv4 ri = Some ip \<longrightarrow> public_or trusted (V4 ip)) \<and> (\<forall>ip. ri_ipv6 ri = Some ip \<longrightarrow> public_or trusted (V6 ip))
      | None \<Rightarrow> aa_host addr = address_host target \<and> (\<exists>ip. literal_ip target = Some ip \<and> \<not> is_private_ip ip))"

fun action_safe :: "ip_addr set \<Rightarrow> address \<Rightarrow> action \<Rightarrow> bool" where
  "action_safe trusted target (Connect_To sa) \<longleftrightarrow> public_or trusted (sa_ip sa)"
| "action_safe trusted target (Dial_Via (_, HDirect _) addr) \<longleftrightarrow> acl_addr_safe trusted target addr"
| "action_safe trusted target _ \<longleftrightarrow> True"

lemma ra_allowed_families:
  assumes "ra_allowed trusted port r"
  shows "ra_v4 r = Some ip \<Longrightarrow> public_or trusted (V4 ip)" "ra_v6 r = Some ip' \<Longrightarrow> public_or trusted (V6 ip')"
  using assms by (auto simp: ra_allowed_def candidates_def Let_def public_or_def split: if_splits option.splits)

text \<open>The contract of a router whose proxied targets never go to a direct outbound.\<close>

locale screening_server = screening_router route resolve trusted
  for route :: "'d \<Rightarrow> address \<Rightarrow> handler_ref outbound_type \<times> 'd" and resolve trusted +
  assumes proxy_kind: "route d a = (Proxy h hijack, d') \<Longrightarrow> snd h \<noteq> HDirect dir"
begin

lemma acl_addr_for_safe:
  assumes "resolver_answers resolve" and "fst (route d a) = Direct resolved h"
  shows "acl_addr_safe trusted a (acl_addr_for a resolved)"
proof (cases resolved)
  case None
  then have "\<exists>ip. literal_ip a = Some ip \<and> \<not> is_private_ip ip"
    using assms unresolved_literal [of d a h "snd (route d a)"] by (auto simp: resolver_answers_def prod_eq_iff)
  then show ?thesis by (simp add: acl_addr_safe_def acl_addr_for_def None)
next
  case (Some r)
  then have "ra_allowed trusted (address_port a) r"
    using assms(2) resolved_allowed [of d a r h "snd (route d a)"] by (simp add: prod_eq_iff)
  then show ?thesis using ra_allowed_families by (auto simp: acl_addr_safe_def acl_addr_for_def Some)
qed

lemma justified_safe:
  assumes "resolver_answers resolve" and "resolver_literals resolve" and j: "justified resolve (route d a) a x"
  shows "action_safe trusted a x"
proof -
  obtain ot d' where r: "route d a = (ot, d')" by fastforce
  show ?thesis
  proof (cases x)
    case (Connect_To sa)
    then show ?thesis
      using j r direct_never_private [OF assms(1,2), of d a _ None sa d'] by (auto simp: public_or_def)
  next
    case (Dial_Via h addr)
    show ?thesis
    proof (cases "snd h")
      case (HDirect dir)
      then have "\<exists>resolved. ot = Direct resolved (Some h) \<and> addr = acl_addr_for a resolved"
        using j r Dial_Via proxy_kind [of d a h _ d' dir] by auto
      then have "acl_addr_safe trusted a addr" using acl_addr_for_safe [OF assms(1), of d a _ "Some h"] r by auto
      then show ?thesis using HDirect Dial_Via by (cases h) simp
    qed (use Dial_Via in \<open>cases h; simp\<close>)+
  qed simp_all
qed

end

interpretation drs: screening_server "direct_route resolve \<lparr>dr_block_private_ip = True\<rparr>" resolve "{}"
  for resolve :: "'d resolver"
  by unfold_locales (auto simp: direct_route_def split: prod.splits direct_target.splits)

interpretation acls: screening_server
  "route_with_protocol resolve \<lparr>ar_engine = engine, ar_block_private_ip = True\<rparr> proto" resolve "hijack_ips engine"
  for resolve :: "'d resolver" and engine :: acl_engine and proto :: protocol
  by unfold_locales
     (auto simp: route_with_protocol_def route_direct_def
        split: option.splits outbound_handler.splits if_splits prod.splits direct_target.splits)

text \<open>The connections a session may run on: one that an attempt of this session returned.\<close>

definition opened ::
    "(socket_addr \<Rightarrow> (io_error, 'b) dialled) \<Rightarrow> (handler_ref \<Rightarrow> acl_addr \<Rightarrow> (string, 'b) dialled) \<Rightarrow> 'b \<Rightarrow> bool" where
  "opened connect dial b \<longleftrightarrow> (\<exists>sa. connect sa = Dialled b) \<or> (\<exists>h addr. dial h addr = Dialled b)"

lemma openedI: "connect sa = Dialled b \<Longrightarrow> opened connect dial b" "dial h addr = Dialled b \<Longrightarrow> opened connect dial b"
  unfolding opened_def by blast+

text \<open>Either there was no session, and nothing happened to the client, or a session on an opened connection.\<close>

definition connect_flow ::
    "('b recorded \<Rightarrow> bool) \<Rightarrow> user_id \<Rightarrow> bytes \<Rightarrow> stat_event list \<Rightarrow> stat_event list \<Rightarrow> 'a recorded \<Rightarrow> 'a recorded \<Rightarrow>
     'b recorded option \<Rightarrow> bool" where
  "connect_flow op u payload ev ev' a a' remote \<longleftrightarrow>
     (case remote of
        None \<Rightarrow> rc_rx a' = rc_rx a \<and> rc_tx a' = rc_tx a \<and> ev' = ev
      | Some b1 \<Rightarrow> \<exists>b0. op b0 \<and> session_flow u payload ev ev' a a' b0 b1)"

lemma relay_or_fail_connect_flow:
  assumes "relay_or_fail sv (recorded_ops A) (recorded_ops B) sc ty u payload remote sh a = (out, sh', a', b')"
    and "quiet_scripts sc" and "\<And>b. remote = Inr b \<Longrightarrow> op b"
  shows "connect_flow op u payload (sh_stats sh) (sh_stats sh') a a' b'"
  using relay_or_fail_flow [OF assms(1,2)] assms(3) by (cases remote) (auto simp: connect_flow_def)

text \<open>The ways of a CONNECT request: rejected, or an attempt at a connection and what follows it.\<close>

lemma dial_via_handler_attempt:
  assumes "dial_via_handler sv A B sc dial ty u payload target h resolved kind sh a = (out, sh', a', b')"
  shows "\<exists>remote sh1. relay_or_fail sv A B sc ty u payload remote sh1 a = (out, sh', a', b') \<and>
    (\<forall>b. remote = Inr b \<longrightarrow> opened connect dial b) \<and> sh_stats sh1 = sh_stats sh"
proof -
  have op: "opened connect dial b" if "dial h (acl_addr_for target resolved) = Dialled b" for b
    using that by (rule openedI(2))
  show ?thesis
    by (rule exI, rule exI, rule conjI [OF assms [unfolded dial_via_handler_def Let_def]])
       (use op in \<open>auto simp: act_def split: dialled.splits\<close>)
qed

lemma handle_direct_connect_attempt:
  assumes "handle_direct_connect sv A B sc connect dial ty u payload target resolved handler sh a = (out, sh', a', b')"
  shows "\<exists>remote sh1. relay_or_fail sv A B sc ty u payload remote sh1 a = (out, sh', a', b') \<and>
    (\<forall>b. remote = Inr b \<longrightarrow> opened connect dial b) \<and> sh_stats sh1 = sh_stats sh"
proof (cases handler)
  case (Some h)
  then show ?thesis using assms dial_via_handler_attempt by (simp add: handle_direct_connect_def)
next
  case None
  obtain q d where q: "(case resolved of Some r \<Rightarrow> (Inr r, sh_dns sh)
      | None \<Rightarrow> resolve_addrs (sv_resolve sv) (sh_dns sh) target) = (q, d)" by fastforce
  note eq = assms [unfolded handle_direct_connect_def None option.case q]
  show ?thesis
  proof (cases q)
    case (Inl e)
    then show ?thesis using eq by (intro exI [of _ "Inl (Io e)"] exI [of _ "sh\<lparr>sh_dns := d\<rparr>"]) simp
  next
    case (Inr ra)
    obtain t sh2 where t: "try_connect connect (candidates ra) None (sh\<lparr>sh_dns := d\<rparr>) = (t, sh2)" by fastforce
    obtain tried where tr: "attempted connect (candidates ra) t tried" "sh_stats sh2 = sh_stats sh"
      using try_connect_spec [OF t] by auto
    have op: "opened connect dial b" if "t = Inr b" for b
      using tr(1) that by (auto simp: attempted_def opened_def)
    obtain remote where "relay_or_fail sv A B sc ty u payload remote sh2 a = (out, sh', a', b')"
      "\<And>b. remote = Inr b \<Longrightarrow> t = Inr b"
      using eq Inr t by (cases t) auto
    then show ?thesis using op tr(2) by blast
  qed
qed

lemma handle_connect_cases:
  assumes "handle_connect sv A B sc connect dial ty u payload target sh a = (out, sh', a', b')"
  obtains (rejected) "out = Returned (Inr ())" "a' = await_shutdown A (sc_close sc) a" "b' = None" "sh_stats sh' = sh_stats sh"
  | (attempt) remote sh1 where "relay_or_fail sv A B sc ty u payload remote sh1 a = (out, sh', a', b')"
      "\<And>b. remote = Inr b \<Longrightarrow> opened connect dial b" "sh_stats sh1 = sh_stats sh"
proof -
  obtain ot d where r: "sv_route sv (sh_dns sh) target = (ot, d)" by fastforce
  note eq = assms [unfolded handle_connect_def r prod.case Let_def]
  show thesis
  proof (cases ot)
    case Reject
    then show thesis using eq by (intro rejected) (auto simp: close_client_def act_def)
  next
    case (Proxy h hijack)
    then have "dial_via_handler sv A B sc dial ty u payload (case hijack of Some ip \<Rightarrow> from_ip ip (address_port target) | None \<Rightarrow> target)
        h None ''proxy'' (sh\<lparr>sh_dns := d\<rparr>) a = (out, sh', a', b')" using eq by (simp add: handle_proxy_connect_def Let_def)
    from dial_via_handler_attempt [OF this, of connect] show thesis using attempt by auto
  next
    case (Direct resolved handler)
    then have "handle_direct_connect sv A B sc connect dial ty u payload target resolved handler (sh\<lparr>sh_dns := d\<rparr>) a = (out, sh', a', b')"
      using eq by simp
    from handle_direct_connect_attempt [OF this] show thesis using attempt by auto
  qed
qed

lemma handle_connect_flow:
  assumes h: "handle_connect sv (recorded_ops A) (recorded_ops B) sc connect dial ty u payload target sh a = (out, sh', a', b')"
    and q: "quiet_scripts sc"
  shows "connect_flow (opened connect dial) u payload (sh_stats sh) (sh_stats sh') a a' b'"
  using h
proof (cases rule: handle_connect_cases)
  case rejected
  then show ?thesis using q by (simp add: connect_flow_def quiet_scripts_def)
next
  case (attempt remote sh1)
  from relay_or_fail_connect_flow [OF attempt(1) q attempt(2)] show ?thesis by (simp add: attempt(3))
qed

section \<open>A kicked session ends\<close>

text \<open>The rounds of each poll are enough for streams that hand out data at most \<open>N\<close> times in a row.\<close>

definition enough_rounds :: "nat \<Rightarrow> ('a, 'b) relay_event list \<Rightarrow> bool" where
  "enough_rounds N evs \<longleftrightarrow> (\<forall>fuel now env_a env_b. Poll fuel now env_a env_b \<in> set evs \<longrightarrow> N + 2 \<le> fuel)"

lemma drive_relay_ends:
  assumes "reads_within N A" "reads_within N B" and "Cancelled \<in> set evs" "enough_rounds N evs"
  shows "fst (drive_relay A B cfg evs st a b) \<noteq> Unfinished"
  using assms(3,4)
proof (induction evs arbitrary: st a b)
  case (Cons ev evs)
  show ?case
  proof (cases ev)
    case (Poll fuel now env_a env_b)
    have n: "N + 2 \<le> fuel" "enough_rounds N evs" "Cancelled \<in> set evs"
      using Cons.prems Poll unfolding enough_rounds_def by auto
    note r = relay_poll_returns [OF assms(1,2) n(1), of cfg now st "env_a a" "env_b b"]
    obtain e st' a' b' where d: "drive_relay A B cfg (ev # evs) st a b = (e, st', a', b')" by (metis prod_cases4)
    then have "drive_relay A B cfg (Poll fuel now env_a env_b # evs) st a b = (e, st', a', b')" by (simp only: Poll)
    then show ?thesis
    proof (cases rule: drive_relay_Poll)
      case (pend st1 a1 b1)
      then show ?thesis using Cons.IH [OF n(3,2), of st1 a1 b1] d by simp
    qed (use r d in simp_all)
  qed simp
qed simp

lemma handle_connect_ends:
  assumes h: "handle_connect sv A B sc connect dial ty u payload target sh a = (out, sh', a', b')"
    and "reads_within N A" "reads_within N B" "Cancelled \<in> set (sc_relay sc)" "enough_rounds N (sc_relay sc)"
    and w: "\<And>b. opened connect dial b \<Longrightarrow> fst (write_all B (sc_write sc) payload b) \<noteq> None"
  shows "out \<noteq> Running"
  using h
proof (cases rule: handle_connect_cases)
  case (attempt remote sh1)
  show ?thesis
  proof (cases remote)
    case (Inl e)
    then show ?thesis using attempt(1) by (auto simp: relay_or_fail_def split: prod.splits)
  next
    case (Inr b)
    then obtain b1 where "ctx_relay sv A B sc ty u payload sh1 a b = (out, sh', a', b1)"
      using attempt(1) by (auto simp: relay_or_fail_def split: prod.splits)
    then show ?thesis
    proof (cases rule: ctx_relay_cases)
      case waiting
      then show ?thesis using w [OF attempt(2) [OF Inr]] by simp
    next
      case (relayed b2 e st c b3)
      from drive_relay_ends [OF reads_within_no_half_close [OF assms(2)] assms(3-5)] relayed(2,5) show ?thesis
        by (metis fst_conv outcome.distinct(1))
    qed simp
  qed
qed simp

section \<open>Concrete connections\<close>

definition demo_request :: trojan_request where
  "demo_request = \<lparr>tr_password = replicate 56 97, tr_cmd = Connect, tr_addr = IPv4 [93, 184, 216, 34] 80, tr_payload = [9]\<rparr>"

definition demo_wire :: bytes where
  "demo_wire = replicate 56 97 @ [13, 10, 1, 1, 93, 184, 216, 34, 0, 80, 13, 10, 9]"

text \<open>The request arrives in two pieces, cut inside the password.\<close>

definition demo_arrival :: "bytes io_result poll list recorded" where
  "demo_arrival = scripted_remote [Pending, Ready (Inr (take 30 demo_wire)), Ready (Inr (drop 30 demo_wire))]"

definition demo_scripts :: "(bytes io_result poll list recorded, bytes io_result poll list recorded) scripts" where
  "demo_scripts = \<lparr>sc_read = [id, id, id], sc_close = [id], sc_write = [id], sc_relay = [Cancelled], sc_close_remote = [id], sc_start = 0\<rparr>"

definition demo_server :: "nat server" where
  "demo_server =
     \<lparr>sv_authenticate = (\<lambda>pw. if pw = replicate 56 97 then Some 7 else None),
      sv_route = direct_route rebinding_resolver \<lparr>dr_block_private_ip = True\<rparr>,
      sv_route_udp = direct_route_udp rebinding_resolver \<lparr>dr_block_private_ip = True\<rparr>,
      sv_resolve = rebinding_resolver,
      sv_conn_config =
        \<lparr>cc_idle_timeout = from_secs 300, cc_uplink_only_timeout = from_secs 2, cc_downlink_only_timeout = from_secs 5,
         cc_connect_timeout = from_secs 5, cc_request_timeout = from_secs 5, cc_tls_handshake_timeout = from_secs 10,
         cc_buffer_size = 100, cc_tcp_backlog = 1024, cc_tcp_nodelay = True, cc_max_connections = 100\<rparr>\<rparr>"

definition demo_shared :: "nat shared" where
  "demo_shared = \<lparr>sh_dns = 0, sh_conn_manager = cm_new, sh_stats = [], sh_actions = []\<rparr>"

lemma demo_scripts_quiet: "quiet_scripts demo_scripts"
  by (simp add: quiet_scripts_def demo_scripts_def)

lemma demo_request_ok: "request_ok demo_request" "REQ_MIN_SIZE \<le> header_len demo_request" "request_bytes demo_request = demo_wire"
  by (simp_all add: demo_request_def request_ok_def header_len_def length_header_bytes length_addr_bytes REQ_MIN_SIZE_def
      request_bytes_def header_bytes_def addr_bytes_simps demo_wire_def crlf_defs atyp_defs u16_to_be_bytes_def)

section \<open>Properties\<close>


lemma demo_read:
  "read_trojan_request (recorded_ops scripted_ops) (\<lambda>_. 100) 100 [id, id, id] demo_arrival [] =
     (Request demo_request, \<lparr>rc_inner = [], rc_rx = demo_wire, rc_tx = []\<rparr>)"
  by code_simp


text \<open>
  The bytes of a CONNECT session.  Whatever the two transports and the network do, and however
  the session ends, the bytes written to the remote are a prefix of the initial payload followed by
  what the client sent after it, and the bytes written to the client are a prefix of what the remote
  sent.  The user is billed exactly the bytes written in each direction; only when the write of the
  initial payload fails or hangs is the whole payload billed.  Without a remote nothing is read from
  or written to the client and nothing is billed.
\<close>

lemma connect_session_flow:
  assumes "handle_connect sv (recorded_ops A) (recorded_ops B) sc connect dial ty u payload target sh a = (out, sh', a', b')"
    and "quiet_scripts sc"
  shows "case b' of
      None \<Rightarrow> rc_rx a' = rc_rx a \<and> rc_tx a' = rc_tx a \<and> sh_stats sh' = sh_stats sh
    | Some b1 \<Rightarrow> \<exists>b0 got up back down. opened connect dial b0 \<and>
        rc_rx a' = rc_rx a @ got \<and> rc_tx b1 = rc_tx b0 @ up \<and> prefix up (payload @ got) \<and>
        rc_rx b1 = rc_rx b0 @ back \<and> rc_tx a' = rc_tx a @ down \<and> prefix down back \<and>
        uploaded u (sh_stats sh') = uploaded u (sh_stats sh) + max (length payload) (length up) \<and>
        downloaded u (sh_stats sh') = downloaded u (sh_stats sh) + length down"
  using handle_connect_flow [OF assms] by (cases b') (simp_all add: connect_flow_def session_flow_def)

text \<open>
  No connection to the internal network.  With \<open>block_private_ip\<close>, under the direct router or the
  rules of an operator, every address that a CONNECT request makes the server connect to or hand to a
  direct outbound is public or one of the operator's hijack destinations, for every target, resolver
  state and outcome of the attempts.
\<close>

lemma connect_targets_screened:
  assumes "resolver_answers (sv_resolve sv)" and "resolver_literals (sv_resolve sv)"
    and "sv_route sv = direct_route (sv_resolve sv) \<lparr>dr_block_private_ip = True\<rparr> \<and> trusted = {} \<or>
      (\<exists>engine. sv_route sv = acl_route (sv_resolve sv) \<lparr>ar_engine = engine, ar_block_private_ip = True\<rparr> \<and>
         trusted = hijack_ips engine)"
    and "handle_connect sv A B sc connect dial ty u payload target sh a = (out, sh', a', b')"
  shows "\<exists>acts. sh_actions sh' = sh_actions sh @ acts \<and> (\<forall>x \<in> set acts. action_safe trusted target x)"
proof -
  have "justified (sv_resolve sv) (sv_route sv (sh_dns sh) target) target x \<Longrightarrow> action_safe trusted target x" for x
    using assms(3) drs.justified_safe [OF assms(1,2), of "sh_dns sh" target x]
      acls.justified_safe [OF assms(1,2), of _ TCP "sh_dns sh" target x]
    by (auto simp: acl_route_def)
  then show ?thesis using handle_connect_did [OF assms(4)] unfolding did_only_def did_def by blast
qed

end
