(* ===== verification/Udp_Session.thy ===== *)
theory Udp_Session
  imports Session
begin

text \<open>
  \<open>src/src/handler.rs\<close>, the UDP half: \<open>handle_udp_associate\<close> and what it calls.

  The local variables of the session are the record \<open>udp_state\<close>, each arm of its \<open>select!\<close> is a
  function that says whether the loop is left, and a session is driven by a list of events in any
  order, one for each poll of a branch.  The client's branch polls the client's stream, and the branch
  of the datagrams writes the reply to it, as the source does.  Dialling an outbound and
  sending a datagram act on the outside world \<open>'w\<close> and are parameters (\<open>udp_net\<close>), and so is the
  elapsed time; what an outbound receives comes with the event.  A connection is kept together with the
  handler that dialled it, and the session writes a log of what it read, decoded, sent and answered;
  neither influences what it does.
\<close>

section \<open>Routes\<close>

definition UDP_MAX_ROUTE_CACHE_ENTRIES :: nat where "UDP_MAX_ROUTE_CACHE_ENTRIES = 256"
definition UDP_MAX_CONSECUTIVE_ERRORS :: nat where "UDP_MAX_CONSECUTIVE_ERRORS = 8"
definition UDP_MAX_READ_BUFFER_SIZE :: nat where "UDP_MAX_READ_BUFFER_SIZE = 64 * 1024"

record udp_route =
  ur_outbound :: "handler_ref outbound_type"
  ur_send_addr :: acl_addr

definition route_udp_target :: "'d server \<Rightarrow> address \<Rightarrow> 'd \<Rightarrow> udp_route \<times> 'd" where
  "route_udp_target sv target d =
     (let (outbound, d) = sv_route_udp sv d target;
          send_addr =
            (case outbound of
               Direct resolved _ \<Rightarrow> acl_addr_for target resolved
             | Proxy _ (Some ip) \<Rightarrow> acl_addr_for (from_ip ip (address_port target)) None
             | _ \<Rightarrow> acl_addr_for target None)
      in (\<lparr>ur_outbound = outbound, ur_send_addr = send_addr\<rparr>, d))"

text \<open>
  The shared default outbound.  Its allocation is never compared with another handler's, since only
  proxies are remembered as the current handler.
\<close>

definition default_direct_handler :: handler_ref where
  "default_direct_handler = (0, HDirect Direct_New)"

definition acl_addr_to_address :: "acl_addr \<Rightarrow> address" where
  "acl_addr_to_address addr =
     (case parse_ip (aa_host addr) of
        Some ip \<Rightarrow> from_ip ip (aa_port addr)
      | None \<Rightarrow> Domain (aa_host addr) (aa_port addr))"

section \<open>The session\<close>

record ('c, 'w) udp_net =
  un_dial_udp :: "handler_ref \<Rightarrow> acl_addr \<Rightarrow> 'w \<Rightarrow> (string + 'c) \<times> 'w"
  un_write_to :: "'c \<Rightarrow> bytes \<Rightarrow> acl_addr \<Rightarrow> 'w \<Rightarrow> (string + nat) \<times> 'w"
  un_elapsed_secs :: "'w \<Rightarrow> nat"

datatype udp_log =
    Read bytes
  | Received trojan_udp_packet
  | Sent handler_ref udp_route trojan_udp_packet nat
  | Replied trojan_udp_packet

record ('c, 'd, 'w) udp_state =
  us_read_buf :: bytes
  us_route_cache :: "(address \<times> udp_route) list"
  us_udp_conn :: "(handler_ref \<times> 'c) option"
  us_current_handler :: "handler_ref option"
  us_last_activity_secs :: nat
  us_recv_errors :: nat
  us_send_errors :: nat
  us_pending_buffered :: bool
  us_dns :: 'd
  us_stats :: "stat_event list"
  us_world :: 'w
  us_log :: "udp_log list"

definition note_log :: "udp_log \<Rightarrow> ('c, 'd, 'w) udp_state \<Rightarrow> ('c, 'd, 'w) udp_state" where
  "note_log x st = st\<lparr>us_log := us_log st @ [x]\<rparr>"

text \<open>The route of a packet, through the cache, which is emptied when it is full.\<close>

definition lookup_route :: "'d server \<Rightarrow> address \<Rightarrow> ('c, 'd, 'w) udp_state \<Rightarrow> udp_route \<times> ('c, 'd, 'w) udp_state" where
  "lookup_route sv addr st =
     (case map_of (us_route_cache st) addr of
        Some cached \<Rightarrow> (cached, st)
      | None \<Rightarrow>
          let (route, d) = route_udp_target sv addr (us_dns st);
              cache = (if length (us_route_cache st) \<ge> UDP_MAX_ROUTE_CACHE_ENTRIES then [] else us_route_cache st)
          in (route, st\<lparr>us_dns := d, us_route_cache := (addr, route) # cache\<rparr>))"

text \<open>The connection for a direct packet and for a proxied one; \<open>False\<close> is \<open>continue\<close>.\<close>

definition open_direct ::
    "('c, 'w) udp_net \<Rightarrow> handler_ref option \<Rightarrow> acl_addr \<Rightarrow> ('c, 'd, 'w) udp_state \<Rightarrow> bool \<times> ('c, 'd, 'w) udp_state" where
  "open_direct net handler send_addr st =
     (if us_udp_conn st = None \<or> us_current_handler st \<noteq> None then
        let st = st\<lparr>us_udp_conn := None, us_current_handler := None\<rparr>;
            dial_handler = (case handler of Some h \<Rightarrow> h | None \<Rightarrow> default_direct_handler) in
        (case un_dial_udp net dial_handler send_addr (us_world st) of
           (Inr conn, w) \<Rightarrow> (True, st\<lparr>us_udp_conn := Some (dial_handler, conn), us_world := w\<rparr>)
         | (Inl _, w) \<Rightarrow> (False, st\<lparr>us_world := w\<rparr>))
      else (True, st))"

definition open_proxy ::
    "('c, 'w) udp_net \<Rightarrow> handler_ref \<Rightarrow> acl_addr \<Rightarrow> ('c, 'd, 'w) udp_state \<Rightarrow> bool \<times> ('c, 'd, 'w) udp_state" where
  "open_proxy net handler send_addr st =
     (if \<not> allows_udp (snd handler) then (False, st)
      else
        let need_new_conn = (case us_current_handler st of None \<Rightarrow> True | Some h \<Rightarrow> fst h \<noteq> fst handler) in
        if need_new_conn then
          let st = st\<lparr>us_udp_conn := None\<rparr> in
          (case un_dial_udp net handler send_addr (us_world st) of
             (Inr conn, w) \<Rightarrow>
               (True, st\<lparr>us_udp_conn := Some (handler, conn), us_current_handler := Some handler, us_world := w\<rparr>)
           | (Inl _, w) \<Rightarrow> (False, st\<lparr>us_world := w\<rparr>))
        else (True, st))"

text \<open>Sending; \<open>True\<close> is \<open>give_up\<close>.\<close>

definition send_packet ::
    "('c, 'w) udp_net \<Rightarrow> user_id \<Rightarrow> trojan_udp_packet \<Rightarrow> udp_route \<Rightarrow> ('c, 'd, 'w) udp_state \<Rightarrow> bool \<times> ('c, 'd, 'w) udp_state" where
  "send_packet net user_id packet route st =
     (case us_udp_conn st of
        None \<Rightarrow> (False, st)
      | Some (h, conn) \<Rightarrow>
          (case un_write_to net conn (up_payload packet) (ur_send_addr route) (us_world st) of
             (Inr n, w) \<Rightarrow>
               (False, note_log (Sent h route packet n)
                  (st\<lparr>us_world := w, us_last_activity_secs := un_elapsed_secs net w, us_send_errors := 0,
                     us_stats := us_stats st @ [Record_Upload user_id n]\<rparr>))
           | (Inl _, w) \<Rightarrow>
               let send_errors = us_send_errors st + 1 in
               (send_errors \<ge> UDP_MAX_CONSECUTIVE_ERRORS, st\<lparr>us_world := w, us_send_errors := send_errors\<rparr>)))"

definition handle_packet ::
    "'d server \<Rightarrow> ('c, 'w) udp_net \<Rightarrow> user_id \<Rightarrow> trojan_udp_packet \<Rightarrow> ('c, 'd, 'w) udp_state \<Rightarrow> bool \<times> ('c, 'd, 'w) udp_state" where
  "handle_packet sv net user_id packet st =
     (let (route, st) = lookup_route sv (up_addr packet) st;
          (go_on, st) =
            (case ur_outbound route of
               Reject \<Rightarrow> (False, st)
             | Direct _ handler \<Rightarrow> open_direct net handler (ur_send_addr route) st
             | Proxy handler _ \<Rightarrow> open_proxy net handler (ur_send_addr route) st)
      in if go_on then send_packet net user_id packet route st else (False, st))"

text \<open>What each of the four steps leaves alone.\<close>

lemma note_log_frames [simp]:
  "us_read_buf (note_log x st) = us_read_buf st" "us_route_cache (note_log x st) = us_route_cache st"
  "us_udp_conn (note_log x st) = us_udp_conn st" "us_current_handler (note_log x st) = us_current_handler st"
  "us_recv_errors (note_log x st) = us_recv_errors st" "us_send_errors (note_log x st) = us_send_errors st"
  "us_dns (note_log x st) = us_dns st" "us_stats (note_log x st) = us_stats st" "us_world (note_log x st) = us_world st"
  "us_last_activity_secs (note_log x st) = us_last_activity_secs st" "us_log (note_log x st) = us_log st @ [x]"
  "us_pending_buffered (note_log x st) = us_pending_buffered st"
  by (simp_all add: note_log_def)

lemma lookup_route_frames:
  assumes "lookup_route sv addr st = (route, st')"
  shows "us_read_buf st' = us_read_buf st" "us_udp_conn st' = us_udp_conn st" "us_current_handler st' = us_current_handler st"
    "us_recv_errors st' = us_recv_errors st" "us_send_errors st' = us_send_errors st" "us_stats st' = us_stats st"
    "us_log st' = us_log st" "us_last_activity_secs st' = us_last_activity_secs st"
  using assms by (auto simp: lookup_route_def Let_def split: option.splits prod.splits)

lemma open_direct_frames:
  assumes "open_direct net handler addr st = (go_on, st')"
  shows "us_read_buf st' = us_read_buf st" "us_route_cache st' = us_route_cache st" "us_dns st' = us_dns st"
    "us_recv_errors st' = us_recv_errors st" "us_send_errors st' = us_send_errors st" "us_stats st' = us_stats st"
    "us_log st' = us_log st" "us_last_activity_secs st' = us_last_activity_secs st"
  using assms by (auto simp: open_direct_def Let_def split: if_splits prod.splits sum.splits)

lemma open_proxy_frames:
  assumes "open_proxy net handler addr st = (go_on, st')"
  shows "us_read_buf st' = us_read_buf st" "us_route_cache st' = us_route_cache st" "us_dns st' = us_dns st"
    "us_recv_errors st' = us_recv_errors st" "us_send_errors st' = us_send_errors st" "us_stats st' = us_stats st"
    "us_log st' = us_log st" "us_last_activity_secs st' = us_last_activity_secs st"
  using assms by (auto simp: open_proxy_def Let_def split: if_splits prod.splits sum.splits)

lemma send_packet_frames:
  assumes "send_packet net u p route st = (give_up, st')"
  shows "us_read_buf st' = us_read_buf st" "us_route_cache st' = us_route_cache st" "us_dns st' = us_dns st"
    "us_recv_errors st' = us_recv_errors st" "us_udp_conn st' = us_udp_conn st" "us_current_handler st' = us_current_handler st"
  using assms by (auto simp: send_packet_def Let_def split: option.splits prod.splits sum.splits)

text \<open>The ways a packet can go: dropped after routing and dialling, or sent.\<close>

lemma handle_packet_cases:
  assumes "handle_packet sv net u p st = (give_up, st')"
  obtains
    (dropped) route st1 where "lookup_route sv (up_addr p) st = (route, st1)" "give_up = False"
      "ur_outbound route = Reject \<and> st' = st1 \<or>
       (\<exists>r h. ur_outbound route = Direct r h \<and> open_direct net h (ur_send_addr route) st1 = (False, st')) \<or>
       (\<exists>h j. ur_outbound route = Proxy h j \<and> open_proxy net h (ur_send_addr route) st1 = (False, st'))"
  | (sent) route st1 st2 where "lookup_route sv (up_addr p) st = (route, st1)"
      "(\<exists>r h. ur_outbound route = Direct r h \<and> open_direct net h (ur_send_addr route) st1 = (True, st2)) \<or>
       (\<exists>h j. ur_outbound route = Proxy h j \<and> open_proxy net h (ur_send_addr route) st1 = (True, st2))"
      "send_packet net u p route st2 = (give_up, st')"
proof -
  obtain route st1 where r: "lookup_route sv (up_addr p) st = (route, st1)" by fastforce
  obtain go_on st2 where g: "(case ur_outbound route of
               Reject \<Rightarrow> (False, st1)
             | Direct _ handler \<Rightarrow> open_direct net handler (ur_send_addr route) st1
             | Proxy handler _ \<Rightarrow> open_proxy net handler (ur_send_addr route) st1) = (go_on, st2)" by fastforce
  have e: "(if go_on then send_packet net u p route st2 else (False, st2)) = (give_up, st')"
    using assms by (simp only: handle_packet_def Let_def r g prod.case)
  show thesis
  proof (cases go_on)
    case True
    then show thesis using g e by (intro sent [OF r]) (auto split: outbound_type.splits)
  next
    case False
    then show thesis using g e by (intro dropped [OF r]) (auto split: outbound_type.splits)
  qed
qed

lemma handle_packet_read_buf: "handle_packet sv net u p st = (g, st') \<Longrightarrow> us_read_buf st' = us_read_buf st"
  by (erule handle_packet_cases)
     (auto dest!: lookup_route_frames(1) open_direct_frames(1) open_proxy_frames(1) send_packet_frames(1))

lemma udp_decode_shorter: "udp_decode_zerocopy buf = (Ok p n, rest) \<Longrightarrow> length rest < length buf"
  using udp_decode_sound [of buf p n rest] by (auto simp: length_udp_encode)

text \<open>All complete packets in the buffer.\<close>

function process_packets ::
    "'d server \<Rightarrow> ('c, 'w) udp_net \<Rightarrow> user_id \<Rightarrow> ('c, 'd, 'w) udp_state \<Rightarrow> bool \<times> ('c, 'd, 'w) udp_state" where
  "process_packets sv net user_id st =
     (if us_read_buf st = [] then (False, st)
      else
        (case udp_decode_zerocopy (us_read_buf st) of
           (Ok packet _, rest) \<Rightarrow>
             (case handle_packet sv net user_id packet (note_log (Received packet) (st\<lparr>us_read_buf := rest\<rparr>)) of
                (give_up, st') \<Rightarrow> if give_up then (True, st') else process_packets sv net user_id st')
         | (NeedMoreData, rest) \<Rightarrow> (False, st\<lparr>us_read_buf := rest\<rparr>)
         | (Invalid _, rest) \<Rightarrow> (True, st\<lparr>us_read_buf := rest\<rparr>)))"
  by auto
termination process_packets
  by (relation "measure (\<lambda>(sv, net, u, st). length (us_read_buf st))")
     (auto dest!: handle_packet_read_buf [OF sym] udp_decode_shorter [OF sym])

declare process_packets.simps [simp del]

section \<open>The arms of the loop\<close>

text \<open>
  The future of the client's branch: what is buffered from before comes first, a full buffer is an
  error, and otherwise the stream is read into the \<open>spare\<close> capacity.  \<open>None\<close> is the sentinel.
\<close>

definition poll_client ::
    "'a stream_ops \<Rightarrow> nat \<Rightarrow> ('c, 'd, 'w) udp_state \<Rightarrow> 'a \<Rightarrow> bytes option io_result poll \<times> 'a" where
  "poll_client A spare st a =
     (if us_pending_buffered st then (Ready (Inr None), a)
      else if length (us_read_buf st) \<ge> UDP_MAX_READ_BUFFER_SIZE
      then (Ready (Inl (Io_Error OutOfMemory ''UDP read buffer exceeded limit'')), a)
      else
        (case poll_read A a spare of
           (Pending, a) \<Rightarrow> (Pending, a)
         | (Ready (Inl e), a) \<Rightarrow> (Ready (Inl e), a)
         | (Ready (Inr bs), a) \<Rightarrow> (Ready (Inr (Some bs)), a)))"

text \<open>Each arm returns whether the loop is left.\<close>

definition client_arm ::
    "'d server \<Rightarrow> ('c, 'w) udp_net \<Rightarrow> user_id \<Rightarrow> bytes option io_result \<Rightarrow> ('c, 'd, 'w) udp_state \<Rightarrow> bool \<times> ('c, 'd, 'w) udp_state" where
  "client_arm sv net user_id result st =
     (let st = st\<lparr>us_pending_buffered := False\<rparr>
      in case result of
           Inr None \<Rightarrow> process_packets sv net user_id st
         | Inr (Some bs) \<Rightarrow>
             if bs = [] then (True, st)
             else process_packets sv net user_id (note_log (Read bs) (st\<lparr>us_read_buf := us_read_buf st @ bs\<rparr>))
         | Inl _ \<Rightarrow> (True, st))"

text \<open>\<open>AsyncWriteExt::flush\<close>; \<open>None\<close> while it waits.\<close>

fun await_flush :: "'s stream_ops \<Rightarrow> ('s \<Rightarrow> 's) list \<Rightarrow> 's \<Rightarrow> unit io_result option \<times> 's" where
  "await_flush S [] s = (None, s)"
| "await_flush S (env # script) s =
     (case poll_flush S (env s) of
        (Pending, s') \<Rightarrow> await_flush S script s'
      | (Ready r, s') \<Rightarrow> (Some r, s'))"

text \<open>The reply is written and flushed under \<open>UDP_WRITE_TIMEOUT\<close>, which is the end of a script.\<close>

datatype client_write = Written | Write_Failed io_error | Write_Stalled

definition write_reply ::
    "'a stream_ops \<Rightarrow> ('a \<Rightarrow> 'a) list \<Rightarrow> ('a \<Rightarrow> 'a) list \<Rightarrow> bytes \<Rightarrow> 'a \<Rightarrow> client_write \<times> 'a" where
  "write_reply A writes flushes response a =
     (case write_all A writes response a of
        (None, a) \<Rightarrow> (Write_Stalled, a)
      | (Some (Inl e), a) \<Rightarrow> (Write_Failed e, a)
      | (Some (Inr _), a) \<Rightarrow>
          (case await_flush A flushes a of
             (None, a) \<Rightarrow> (Write_Stalled, a)
           | (Some (Inl e), a) \<Rightarrow> (Write_Failed e, a)
           | (Some (Inr _), a) \<Rightarrow> (Written, a)))"

text \<open>Without a connection the branch is never ready.  The outside world goes on (\<open>passed\<close>) while the arm waits.\<close>

definition udp_arm ::
    "'a stream_ops \<Rightarrow> ('c, 'w) udp_net \<Rightarrow> user_id \<Rightarrow> string + bytes \<times> acl_addr \<Rightarrow> ('a \<Rightarrow> 'a) list \<Rightarrow> ('a \<Rightarrow> 'a) list \<Rightarrow> ('w \<Rightarrow> 'w) \<Rightarrow>
     ('c, 'd, 'w) udp_state \<Rightarrow> 'a \<Rightarrow> bool \<times> ('c, 'd, 'w) udp_state \<times> 'a" where
  "udp_arm A net user_id result writes flushes passed st a =
     (if us_udp_conn st = None then (False, st, a)
      else
        let w = passed (us_world st) in
        (case result of
           Inr (payload, from_addr) \<Rightarrow>
             let addr = acl_addr_to_address from_addr;
                 response = udp_encode addr payload in
             (case write_reply A writes flushes response a of
                (Written, a) \<Rightarrow>
                  (False, note_log (Replied \<lparr>up_addr = addr, up_payload = payload\<rparr>)
                     (st\<lparr>us_world := w, us_last_activity_secs := un_elapsed_secs net w, us_recv_errors := 0,
                        us_stats := us_stats st @ [Record_Download user_id (length payload)]\<rparr>), a)
              | (Write_Failed _, a) \<Rightarrow> (True, st\<lparr>us_world := w\<rparr>, a)
              | (Write_Stalled, a) \<Rightarrow> (True, st\<lparr>us_world := w\<rparr>, a))
         | Inl _ \<Rightarrow>
             let recv_errors = us_recv_errors st + 1 in
             (recv_errors \<ge> UDP_MAX_CONSECUTIVE_ERRORS, st\<lparr>us_world := w, us_recv_errors := recv_errors\<rparr>, a)))"

definition idle_arm :: "'d server \<Rightarrow> ('c, 'w) udp_net \<Rightarrow> ('c, 'd, 'w) udp_state \<Rightarrow> bool \<times> ('c, 'd, 'w) udp_state" where
  "idle_arm sv net st =
     (let idle_secs = un_elapsed_secs net (us_world st) - us_last_activity_secs st
      in (idle_secs \<ge> idle_timeout_secs (sv_conn_config sv), st))"

text \<open>
  An event is a poll of one branch.  \<open>Client\<close> has what happened to the client's stream before and the
  spare capacity of the buffer; \<open>Datagram\<close> what the outbound received, and the scripts of the two awaits
  of the reply, and what happened meanwhile; \<open>Outside\<close> is a change of the outside world.
\<close>

datatype ('a, 'w) udp_event =
    Client "'a \<Rightarrow> 'a" nat
  | Datagram "string + bytes \<times> acl_addr" "('a \<Rightarrow> 'a) list" "('a \<Rightarrow> 'a) list" "'w \<Rightarrow> 'w"
  | Tick
  | Kick
  | Outside "'w \<Rightarrow> 'w"

fun udp_step ::
    "'d server \<Rightarrow> 'a stream_ops \<Rightarrow> ('c, 'w) udp_net \<Rightarrow> user_id \<Rightarrow> ('a, 'w) udp_event \<Rightarrow> ('c, 'd, 'w) udp_state \<Rightarrow> 'a \<Rightarrow>
     bool \<times> ('c, 'd, 'w) udp_state \<times> 'a" where
  "udp_step sv A net user_id (Client env spare) st a =
     (case poll_client A spare st (env a) of
        (Pending, a') \<Rightarrow> (False, st, a')
      | (Ready result, a') \<Rightarrow> (case client_arm sv net user_id result st of (left, st') \<Rightarrow> (left, st', a')))"
| "udp_step sv A net user_id (Datagram result writes flushes passed) st a = udp_arm A net user_id result writes flushes passed st a"
| "udp_step sv A net user_id Tick st a = (case idle_arm sv net st of (left, st') \<Rightarrow> (left, st', a))"
| "udp_step sv A net user_id Kick st a = (True, st, a)"
| "udp_step sv A net user_id (Outside f) st a = (False, st\<lparr>us_world := f (us_world st)\<rparr>, a)"

fun udp_loop ::
    "'d server \<Rightarrow> 'a stream_ops \<Rightarrow> ('c, 'w) udp_net \<Rightarrow> user_id \<Rightarrow> ('a, 'w) udp_event list \<Rightarrow> ('c, 'd, 'w) udp_state \<Rightarrow> 'a \<Rightarrow>
     bool \<times> ('c, 'd, 'w) udp_state \<times> 'a" where
  "udp_loop sv A net user_id [] st a = (False, st, a)"
| "udp_loop sv A net user_id (ev # evs) st a =
     (case udp_step sv A net user_id ev st a of
        (True, st', a') \<Rightarrow> (True, st', a')
      | (False, st', a') \<Rightarrow> udp_loop sv A net user_id evs st' a')"

definition udp_init :: "bytes \<Rightarrow> 'd \<Rightarrow> stat_event list \<Rightarrow> 'w \<Rightarrow> ('c, 'd, 'w) udp_state" where
  "udp_init initial_payload d stats w =
     \<lparr>us_read_buf = initial_payload, us_route_cache = [], us_udp_conn = None, us_current_handler = None,
      us_last_activity_secs = 0, us_recv_errors = 0, us_send_errors = 0,
      us_pending_buffered = (initial_payload \<noteq> []), us_dns = d, us_stats = stats, us_world = w, us_log = []\<rparr>"

definition handle_udp_associate ::
    "'d server \<Rightarrow> 'a stream_ops \<Rightarrow> ('c, 'w) udp_net \<Rightarrow> ('a \<Rightarrow> 'a) list \<Rightarrow> ('a, 'w) udp_event list \<Rightarrow> user_id \<Rightarrow> bytes \<Rightarrow> 'w \<Rightarrow>
     'd shared \<Rightarrow> 'a \<Rightarrow> outcome \<times> 'd shared \<times> 'a \<times> ('c, 'd, 'w) udp_state" where
  "handle_udp_associate sv A net close_script evs user_id initial_payload w sh a =
     (case udp_loop sv A net user_id evs (udp_init initial_payload (sh_dns sh) (sh_stats sh) w) a of
        (left, st, a) \<Rightarrow>
          let sh = sh\<lparr>sh_dns := us_dns st, sh_stats := us_stats st\<rparr> in
          if left then let (sh, a) = close_client A close_script (sh, a) in (Returned (Inr ()), sh, a, st)
          else (Running, sh, a, st))"

section \<open>Invariants of the session\<close>

text \<open>The log, seen as bytes read, packets decoded and amounts forwarded.\<close>

definition read_bytes :: "udp_log list \<Rightarrow> bytes" where
  "read_bytes log = concat (map (\<lambda>x. case x of Read bs \<Rightarrow> bs | _ \<Rightarrow> []) log)"

definition received :: "udp_log list \<Rightarrow> trojan_udp_packet list" where
  "received log = concat (map (\<lambda>x. case x of Received p \<Rightarrow> [p] | _ \<Rightarrow> []) log)"

definition sent_total :: "udp_log list \<Rightarrow> nat" where
  "sent_total log = sum_list (map (\<lambda>x. case x of Sent _ _ _ n \<Rightarrow> n | _ \<Rightarrow> 0) log)"

definition replied_total :: "udp_log list \<Rightarrow> nat" where
  "replied_total log = sum_list (map (\<lambda>x. case x of Replied p \<Rightarrow> length (up_payload p) | _ \<Rightarrow> 0) log)"

definition replied :: "udp_log list \<Rightarrow> trojan_udp_packet list" where
  "replied log = concat (map (\<lambda>x. case x of Replied p \<Rightarrow> [p] | _ \<Rightarrow> []) log)"

lemmas log_defs = read_bytes_def received_def sent_total_def replied_total_def replied_def

lemma log_append [simp]:
  "read_bytes (xs @ ys) = read_bytes xs @ read_bytes ys" "received (xs @ ys) = received xs @ received ys"
  "sent_total (xs @ ys) = sent_total xs + sent_total ys" "replied_total (xs @ ys) = replied_total xs + replied_total ys"
  "replied (xs @ ys) = replied xs @ replied ys"
  by (simp_all add: log_defs)

lemma log_one [simp]:
  "read_bytes [Read bs] = bs" "read_bytes [Received p] = []" "read_bytes [Sent h r p n] = []" "read_bytes [Replied q] = []"
  "received [Read bs] = []" "received [Received p] = [p]" "received [Sent h r p n] = []" "received [Replied q] = []"
  "sent_total [Read bs] = 0" "sent_total [Received p] = 0" "sent_total [Sent h r p n] = n" "sent_total [Replied q] = 0"
  "replied_total [Read bs] = 0" "replied_total [Received p] = 0" "replied_total [Sent h r p n] = 0" "replied_total [Replied q] = length (up_payload q)"
  "replied [Read bs] = []" "replied [Received p] = []" "replied [Sent h r p n] = []" "replied [Replied q] = [q]"
  "read_bytes [] = []" "received [] = []" "sent_total [] = 0" "replied_total [] = 0" "replied [] = []"
  by (simp_all add: log_defs)

text \<open>
  Where a route comes from, and what a packet may be sent through: a direct one through a connection
  dialled for a direct route, a proxied one through a connection of its own handler.
\<close>

definition route_of :: "'d server \<Rightarrow> address \<Rightarrow> udp_route \<Rightarrow> bool" where
  "route_of sv addr route \<longleftrightarrow> (\<exists>d. route = fst (route_udp_target sv addr d))"

definition direct_handler :: "'d server \<Rightarrow> handler_ref \<Rightarrow> bool" where
  "direct_handler sv h \<longleftrightarrow>
     h = default_direct_handler \<or> (\<exists>d addr resolved d'. sv_route_udp sv d addr = (Direct resolved (Some h), d'))"

definition sent_ok :: "'d server \<Rightarrow> handler_ref \<Rightarrow> udp_route \<Rightarrow> trojan_udp_packet \<Rightarrow> bool" where
  "sent_ok sv h route p \<longleftrightarrow>
     route_of sv (up_addr p) route \<and>
     (case ur_outbound route of
        Reject \<Rightarrow> False
      | Direct _ _ \<Rightarrow> direct_handler sv h
      | Proxy h' _ \<Rightarrow> fst h = fst h' \<and> allows_udp (snd h'))"

definition conn_ok :: "'d server \<Rightarrow> ('c, 'd, 'w) udp_state \<Rightarrow> bool" where
  "conn_ok sv st \<longleftrightarrow>
     (\<forall>h c. us_udp_conn st = Some (h, c) \<longrightarrow>
        (case us_current_handler st of None \<Rightarrow> direct_handler sv h | Some h' \<Rightarrow> fst h = fst h'))"

definition cache_ok :: "'d server \<Rightarrow> ('c, 'd, 'w) udp_state \<Rightarrow> bool" where
  "cache_ok sv st \<longleftrightarrow>
     length (us_route_cache st) \<le> UDP_MAX_ROUTE_CACHE_ENTRIES \<and> distinct (map fst (us_route_cache st)) \<and>
     (\<forall>(addr, route) \<in> set (us_route_cache st). route_of sv addr route)"

definition log_ok :: "'d server \<Rightarrow> udp_log list \<Rightarrow> bool" where
  "log_ok sv log \<longleftrightarrow> (\<forall>h route p n. Sent h route p n \<in> set log \<longrightarrow> sent_ok sv h route p)"

definition bill_ok :: "user_id \<Rightarrow> stat_event list \<Rightarrow> ('c, 'd, 'w) udp_state \<Rightarrow> bool" where
  "bill_ok u ev st \<longleftrightarrow>
     uploaded u (us_stats st) = uploaded u ev + sent_total (us_log st) \<and>
     downloaded u (us_stats st) = downloaded u ev + replied_total (us_log st)"

text \<open>
  The reference parser of a whole stream: all packets from the front, and the rest.
\<close>

function parse_stream :: "bytes \<Rightarrow> trojan_udp_packet list \<times> bytes" where
  "parse_stream buf =
     (case udp_decode_zerocopy buf of
        (Ok p _, rest) \<Rightarrow> (let (ps, r) = parse_stream rest in (p # ps, r))
      | _ \<Rightarrow> ([], buf))"
  by auto
termination parse_stream
  by (relation "measure length") (auto dest!: udp_decode_shorter [OF sym])

declare parse_stream.simps [simp del]

lemma udp_decode_append:
  assumes "udp_decode_zerocopy buf = (Ok p n, rest)"
  shows "udp_decode_zerocopy (buf @ ext) = (Ok p n, rest @ ext)"
proof -
  have "UDP_MIN_SIZE \<le> length buf" using assms by (simp add: udp_decode_zerocopy_def split: if_splits)
  then show ?thesis using udp_decode_sound [OF assms] udp_decode_encode [of p "rest @ ext"] by auto
qed

lemma parse_stream_Ok:
  "udp_decode_zerocopy buf = (Ok p n, rest) \<Longrightarrow>
   parse_stream (buf @ ext) = (p # fst (parse_stream (rest @ ext)), snd (parse_stream (rest @ ext)))"
  by (simp add: parse_stream.simps [of "buf @ ext"] udp_decode_append case_prod_beta)

text \<open>The bytes of a sequence of packets.\<close>

definition packets_bytes :: "trojan_udp_packet list \<Rightarrow> bytes" where
  "packets_bytes ps = concat (map udp_bytes ps)"

lemma packets_bytes_simps [simp]:
  "packets_bytes [] = []" "packets_bytes (ps @ qs) = packets_bytes ps @ packets_bytes qs"
  "packets_bytes [p] = udp_bytes p"
  by (simp_all add: packets_bytes_def)

definition frame_ok :: "bytes \<Rightarrow> ('c, 'd, 'w) udp_state \<Rightarrow> bool" where
  "frame_ok payload st \<longleftrightarrow>
     payload @ read_bytes (us_log st) = packets_bytes (received (us_log st)) @ us_read_buf st \<and>
     (\<forall>ext. parse_stream (payload @ read_bytes (us_log st) @ ext) =
        (received (us_log st) @ fst (parse_stream (us_read_buf st @ ext)), snd (parse_stream (us_read_buf st @ ext))))"

definition udp_inv :: "'d server \<Rightarrow> user_id \<Rightarrow> bytes \<Rightarrow> stat_event list \<Rightarrow> ('c, 'd, 'w) udp_state \<Rightarrow> bool" where
  "udp_inv sv u payload ev st \<longleftrightarrow>
     conn_ok sv st \<and> cache_ok sv st \<and> log_ok sv (us_log st) \<and> bill_ok u ev st \<and> frame_ok payload st"

text \<open>Routing and dialling.\<close>

lemma lookup_route_inv:
  assumes "lookup_route sv addr st = (route, st')" and "cache_ok sv st"
  shows "route_of sv addr route" "cache_ok sv st'"
proof -
  show "route_of sv addr route"
    using assms by (auto simp: lookup_route_def cache_ok_def route_of_def Let_def split: option.splits prod.splits
        dest!: map_of_SomeD) (metis fst_conv)
  show "cache_ok sv st'"
  proof (cases "map_of (us_route_cache st) addr")
    case None
    then have "addr \<notin> fst ` set (us_route_cache st)" by (simp add: map_of_eq_None_iff)
    moreover obtain d where "route_udp_target sv addr (us_dns st) = (route, d)"
      using assms(1) None by (auto simp: lookup_route_def Let_def split: prod.splits)
    then have "route_of sv addr route" unfolding route_of_def by (metis fst_conv)
    ultimately show ?thesis
      using assms None by (auto simp: lookup_route_def cache_ok_def Let_def UDP_MAX_ROUTE_CACHE_ENTRIES_def split: prod.splits if_splits)
  qed (use assms in \<open>auto simp: lookup_route_def\<close>)
qed

lemma open_direct_conn:
  assumes "open_direct net h addr st = (go_on, st')" and "conn_ok sv st"
    and "case h of None \<Rightarrow> True | Some h' \<Rightarrow> direct_handler sv h'"
  shows "conn_ok sv st'" "go_on \<Longrightarrow> us_udp_conn st' = Some (k, c) \<Longrightarrow> direct_handler sv k"
  using assms
  by (auto simp: open_direct_def conn_ok_def Let_def direct_handler_def simp del: split_paired_All split_paired_Ex
      split: if_splits prod.splits sum.splits option.splits)

lemma open_proxy_conn:
  assumes "open_proxy net h addr st = (go_on, st')" and "conn_ok sv st"
  shows "conn_ok sv st'" "go_on \<Longrightarrow> us_udp_conn st' = Some (k, c) \<Longrightarrow> fst k = fst h \<and> allows_udp (snd h)"
  using assms
  by (auto simp: open_proxy_def conn_ok_def Let_def simp del: split_paired_All split_paired_Ex
      split: if_splits prod.splits sum.splits option.splits)

text \<open>Sending: nothing, or one datagram with its bill, or one more error.\<close>

lemma send_packet_cases:
  assumes "send_packet net u p route st = (give_up, st')"
  obtains
    (none) "us_udp_conn st = None" "give_up = False" "st' = st"
  | (ok) h c n where "us_udp_conn st = Some (h, c)" "give_up = False" "us_log st' = us_log st @ [Sent h route p n]"
      "us_stats st' = us_stats st @ [Record_Upload u n]" "us_send_errors st' = 0"
  | (error) "us_log st' = us_log st" "us_stats st' = us_stats st" "us_send_errors st' = us_send_errors st + 1"
      "give_up \<longleftrightarrow> us_send_errors st + 1 \<ge> UDP_MAX_CONSECUTIVE_ERRORS"
  using assms by (auto simp: send_packet_def Let_def split: option.splits prod.splits sum.splits)

text \<open>Each part of a packet's handling keeps the invariant of the session.\<close>

lemma route_of_direct:
  assumes "route_of sv a route" and "ur_outbound route = Direct r h"
  shows "case h of None \<Rightarrow> True | Some h' \<Rightarrow> direct_handler sv h'"
proof -
  obtain d where "route = fst (route_udp_target sv a d)" using assms(1) by (auto simp: route_of_def)
  then obtain d' where "sv_route_udp sv d a = (Direct r h, d')"
    using assms(2) by (cases "sv_route_udp sv d a") (simp add: route_udp_target_def Let_def)
  then show ?thesis unfolding direct_handler_def by (cases h) (simp_all del: split_paired_Ex, blast)
qed

lemma lookup_route_keeps:
  assumes "lookup_route sv a st = (route, st1)" and "udp_inv sv u payload ev st"
  shows "udp_inv sv u payload ev st1" "route_of sv a route"
  using assms lookup_route_frames [OF assms(1)] lookup_route_inv [OF assms(1)]
  by (simp_all add: udp_inv_def conn_ok_def bill_ok_def frame_ok_def)

lemma open_direct_keeps:
  assumes o: "open_direct net h (ur_send_addr route) st = (b, st')" and "udp_inv sv u payload ev st"
    and "route_of sv (up_addr p) route" "ur_outbound route = Direct r h"
  shows "udp_inv sv u payload ev st' \<and> (b \<longrightarrow> (\<forall>k c. us_udp_conn st' = Some (k, c) \<longrightarrow> sent_ok sv k route p))"
  using assms open_direct_frames [OF o] open_direct_conn [OF o _ route_of_direct [OF assms(3,4)]]
  by (simp add: udp_inv_def cache_ok_def bill_ok_def frame_ok_def sent_ok_def)

lemma open_proxy_keeps:
  assumes o: "open_proxy net h (ur_send_addr route) st = (b, st')" and "udp_inv sv u payload ev st"
    and "route_of sv (up_addr p) route" "ur_outbound route = Proxy h j"
  shows "udp_inv sv u payload ev st' \<and> (b \<longrightarrow> (\<forall>k c. us_udp_conn st' = Some (k, c) \<longrightarrow> sent_ok sv k route p))"
  using assms open_proxy_frames [OF o] open_proxy_conn [OF o, of sv]
  by (simp del: split_paired_All split_paired_Ex add: udp_inv_def cache_ok_def bill_ok_def frame_ok_def sent_ok_def)

lemma send_packet_keeps:
  assumes s: "send_packet net u p route st = (g, st')" and "udp_inv sv u payload ev st"
    and "\<forall>k c. us_udp_conn st = Some (k, c) \<longrightarrow> sent_ok sv k route p"
  shows "udp_inv sv u payload ev st'"
proof -
  note f = send_packet_frames [OF s]
  from s show ?thesis
  proof (cases rule: send_packet_cases)
    case (ok k c n)
    then show ?thesis using assms(2,3) f
      by (auto simp: udp_inv_def conn_ok_def cache_ok_def log_ok_def bill_ok_def frame_ok_def)
  qed (use assms(2) f in \<open>simp_all add: udp_inv_def conn_ok_def cache_ok_def log_ok_def bill_ok_def frame_ok_def\<close>)
qed

lemma handle_packet_inv:
  assumes h: "handle_packet sv net u p st = (give_up, st')" and inv: "udp_inv sv u payload ev st"
  shows "udp_inv sv u payload ev st'"
  using h
proof (cases rule: handle_packet_cases)
  case (dropped route st1)
  note l = lookup_route_keeps [OF dropped(1) inv]
  from dropped(3) show ?thesis using l open_direct_keeps [OF _ l] open_proxy_keeps [OF _ l] by auto
next
  case (sent route st1 st2)
  note l = lookup_route_keeps [OF sent(1) inv]
  from sent(2) have "udp_inv sv u payload ev st2 \<and> (\<forall>k c. us_udp_conn st2 = Some (k, c) \<longrightarrow> sent_ok sv k route p)"
    using open_direct_keeps [OF _ l] open_proxy_keeps [OF _ l] by blast
  then show ?thesis using send_packet_keeps [OF sent(3)] by simp
qed

text \<open>Decoding: what is left in the buffer is an incomplete packet, and short.\<close>

lemma udp_inv_simps [simp]:
  "udp_inv sv u payload ev (st\<lparr>us_pending_buffered := x\<rparr>) = udp_inv sv u payload ev st"
  "udp_inv sv u payload ev (st\<lparr>us_world := w\<rparr>) = udp_inv sv u payload ev st"
  "udp_inv sv u payload ev (st\<lparr>us_recv_errors := n\<rparr>) = udp_inv sv u payload ev st"
  by (simp_all add: udp_inv_def conn_ok_def cache_ok_def bill_ok_def frame_ok_def)

lemma udp_decode_keeps: "udp_decode_zerocopy buf = (r, rest) \<Longrightarrow> (\<forall>p n. r \<noteq> Ok p n) \<Longrightarrow> rest = buf"
  by (auto simp: udp_decode_zerocopy_def Let_def split: if_splits decode_result.splits)

lemma udp_inv_received:
  assumes "udp_inv sv u payload ev st" and "udp_decode_zerocopy (us_read_buf st) = (Ok p n, rest)"
  shows "udp_inv sv u payload ev (note_log (Received p) (st\<lparr>us_read_buf := rest\<rparr>))"
  using assms(1) udp_decode_sound [OF assms(2)] parse_stream_Ok [OF assms(2)]
  by (simp add: udp_inv_def conn_ok_def cache_ok_def log_ok_def bill_ok_def frame_ok_def)

lemma udp_inv_read:
  assumes "udp_inv sv u payload ev st"
  shows "udp_inv sv u payload ev (note_log (Read bs) (st\<lparr>us_read_buf := us_read_buf st @ bs\<rparr>))"
  using assms by (simp add: udp_inv_def conn_ok_def cache_ok_def log_ok_def bill_ok_def frame_ok_def)

lemma handle_packet_errors:
  assumes "handle_packet sv net u p st = (give_up, st')"
  shows "us_recv_errors st' = us_recv_errors st"
    "us_send_errors st < UDP_MAX_CONSECUTIVE_ERRORS \<Longrightarrow> \<not> give_up \<Longrightarrow> us_send_errors st' < UDP_MAX_CONSECUTIVE_ERRORS"
proof -
  from assms show "us_recv_errors st' = us_recv_errors st"
    by (cases rule: handle_packet_cases)
       (auto dest!: lookup_route_frames(4) open_direct_frames(4) open_proxy_frames(4) send_packet_frames(4))
  assume e: "us_send_errors st < UDP_MAX_CONSECUTIVE_ERRORS" "\<not> give_up"
  from assms show "us_send_errors st' < UDP_MAX_CONSECUTIVE_ERRORS"
  proof (cases rule: handle_packet_cases)
    case (dropped route st1)
    then show ?thesis using e lookup_route_frames(5) [OF dropped(1)] by (auto dest!: open_direct_frames(5) open_proxy_frames(5))
  next
    case (sent route st1 st2)
    have s2: "us_send_errors st2 = us_send_errors st"
      using sent(2) lookup_route_frames(5) [OF sent(1)] by (auto dest!: open_direct_frames(5) open_proxy_frames(5))
    from sent(3) show ?thesis
      by (cases rule: send_packet_cases) (use s2 e in \<open>auto simp: UDP_MAX_CONSECUTIVE_ERRORS_def\<close>)
  qed
qed

definition errors_ok :: "('c, 'd, 'w) udp_state \<Rightarrow> bool" where
  "errors_ok st \<longleftrightarrow> us_send_errors st < UDP_MAX_CONSECUTIVE_ERRORS \<and> us_recv_errors st < UDP_MAX_CONSECUTIVE_ERRORS"

text \<open>The buffer holds no complete packet.\<close>

definition incomplete :: "bytes \<Rightarrow> bool" where
  "incomplete buf \<longleftrightarrow> buf = [] \<or> fst (udp_decode_zerocopy buf) = NeedMoreData"

lemma process_packets_inv:
  assumes "process_packets sv net u st = (give_up, st')" and "udp_inv sv u payload ev st"
  shows "udp_inv sv u payload ev st' \<and>
    (\<not> give_up \<longrightarrow> incomplete (us_read_buf st') \<and> (errors_ok st \<longrightarrow> errors_ok st'))"
  using assms
proof (induction "length (us_read_buf st)" arbitrary: st rule: less_induct)
  case less
  note pp = less.prems(1) [unfolded process_packets.simps [of sv net u st]]
  show ?case
  proof (cases "us_read_buf st = []")
    case True
    then show ?thesis using pp less.prems(2) by (auto simp: incomplete_def)
  next
    case False
    obtain r rest where d: "udp_decode_zerocopy (us_read_buf st) = (r, rest)" by fastforce
    show ?thesis
    proof (cases r)
      case (Ok p n)
      let ?st = "note_log (Received p) (st\<lparr>us_read_buf := rest\<rparr>)"
      obtain g st1 where h: "handle_packet sv net u p ?st = (g, st1)" by fastforce
      have i1: "udp_inv sv u payload ev st1"
        using handle_packet_inv [OF h udp_inv_received] less.prems(2) d Ok by blast
      show ?thesis
      proof (cases g)
        case True
        then show ?thesis using pp False d Ok h i1 by simp
      next
        case g: False
        then have rec: "process_packets sv net u st1 = (give_up, st')" using pp False d Ok h by simp
        have "length (us_read_buf st1) < length (us_read_buf st)"
          using handle_packet_read_buf [OF h] udp_decode_shorter d Ok by fastforce
        moreover have "errors_ok st \<Longrightarrow> errors_ok st1"
          using handle_packet_errors [OF h] g by (simp add: errors_ok_def)
        ultimately show ?thesis using less.hyps [OF _ rec i1] by blast
      qed
    next
      case NeedMoreData
      then have "rest = us_read_buf st" using udp_decode_keeps [OF d] by simp
      then show ?thesis using pp False d NeedMoreData less.prems(2) by (auto simp: incomplete_def)
    next
      case (Invalid m)
      then have "rest = us_read_buf st" using udp_decode_keeps [OF d] by simp
      then show ?thesis using pp False d Invalid less.prems(2) by auto
    qed
  qed
qed

lemma incomplete_parse: "incomplete buf \<Longrightarrow> parse_stream buf = ([], buf)"
  by (cases "udp_decode_zerocopy buf")
     (auto simp: incomplete_def parse_stream.simps [of buf] udp_decode_zerocopy_def [of "[]"] UDP_MIN_SIZE_def
        split: decode_result.splits)

text \<open>An incomplete packet is shorter than the longest packet of the protocol.\<close>

lemma address_decode_more: "address_decode buf = NeedMoreData \<Longrightarrow> length buf < 259"
  by (auto simp: address_decode_def Let_def split: if_splits option.splits) (use u8_bound [of "buf ! Suc 0"] in linarith)+

lemma incomplete_length:
  assumes "incomplete buf"
  shows "length buf < 65798"
proof (cases "address_decode buf")
  case (Ok a n)
  have n: "n \<le> 259" using address_decode_sound [OF Ok] length_addr_bytes_bounds by auto
  have "unat (u16_from_be_bytes (buf ! n) (buf ! (n + 1))) < 65536"
    using unsigned_less [of "u16_from_be_bytes (buf ! n) (buf ! (n + 1))", where ?'a = nat] by simp
  then show ?thesis using assms n
    by (auto simp: incomplete_def udp_decode_zerocopy_def Ok Let_def UDP_MIN_SIZE_def split: if_splits)
next
  case NeedMoreData
  then show ?thesis using address_decode_more [of buf] by simp
next
  case (Invalid m)
  then show ?thesis using assms by (auto simp: incomplete_def udp_decode_zerocopy_def UDP_MIN_SIZE_def split: if_splits)
qed

text \<open>An invariant of the loop between the events.\<close>

definition loop_inv :: "'d server \<Rightarrow> user_id \<Rightarrow> bytes \<Rightarrow> stat_event list \<Rightarrow> ('c, 'd, 'w) udp_state \<Rightarrow> bool" where
  "loop_inv sv u payload ev st \<longleftrightarrow>
     udp_inv sv u payload ev st \<and> errors_ok st \<and> (us_pending_buffered st \<or> incomplete (us_read_buf st))"

lemma client_arm_inv:
  assumes "client_arm sv net u result st = (left, st')" and "loop_inv sv u payload ev st"
  shows "udp_inv sv u payload ev st' \<and> (\<not> left \<longrightarrow> loop_inv sv u payload ev st')"
proof -
  have i: "udp_inv sv u payload ev st" "errors_ok st" using assms(2) by (auto simp: loop_inv_def)
  have p: "udp_inv sv u payload ev st' \<and> (\<not> left \<longrightarrow> loop_inv sv u payload ev st')"
    if "process_packets sv net u s = (left, st')" "udp_inv sv u payload ev s" "errors_ok s" for s
    using process_packets_inv [OF that(1,2)] that(3) by (auto simp: loop_inv_def)
  let ?st = "st\<lparr>us_pending_buffered := False\<rparr>"
  let ?rd = "\<lambda>bs. note_log (Read bs) (?st\<lparr>us_read_buf := us_read_buf ?st @ bs\<rparr>)"
  have e: "errors_ok ?st" "errors_ok (?rd bs)" for bs using i(2) by (simp_all add: errors_ok_def)
  have r: "udp_inv sv u payload ev ?st" "udp_inv sv u payload ev (?rd bs)" for bs
    using udp_inv_read [of sv u payload ev ?st bs] i(1) by simp_all
  have "process_packets sv net u ?st = (left, st') \<or> (left \<and> st' = ?st) \<or> (\<exists>bs. process_packets sv net u (?rd bs) = (left, st'))"
    using assms(1) unfolding client_arm_def Let_def
    by (auto simp del: udp_state.update_convs split: sum.splits option.splits if_split_asm)
  then show ?thesis using p [OF _ r(1) e(1)] p [OF _ r(2) e(2)] r(1) by blast
qed

lemma udp_arm_cases:
  assumes "udp_arm A net u result writes flushes passed st a = (left, st', a')"
  obtains (none) "st' = st" "a' = a"
  | (error) "st' = st\<lparr>us_world := passed (us_world st), us_recv_errors := us_recv_errors st + 1\<rparr>" "left \<longleftrightarrow> us_recv_errors st + 1 \<ge> UDP_MAX_CONSECUTIVE_ERRORS" "a' = a"
  | (failed) d from_addr wr where "write_reply A writes flushes (udp_encode (acl_addr_to_address from_addr) d) a = (wr, a')" "st' = st\<lparr>us_world := passed (us_world st)\<rparr>" "left"
  | (replied) d from_addr where "write_reply A writes flushes (udp_encode (acl_addr_to_address from_addr) d) a = (Written, a')"
      "us_log st' = us_log st @ [Replied \<lparr>up_addr = acl_addr_to_address from_addr, up_payload = d\<rparr>]"
      "us_stats st' = us_stats st @ [Record_Download u (length d)]"
      "us_recv_errors st' = 0" "us_send_errors st' = us_send_errors st" "us_read_buf st' = us_read_buf st"
      "us_route_cache st' = us_route_cache st" "us_udp_conn st' = us_udp_conn st" "us_current_handler st' = us_current_handler st"
      "us_pending_buffered st' = us_pending_buffered st"
proof (cases "us_udp_conn st = None")
  case True
  then show thesis using assms none by (simp add: udp_arm_def)
next
  case False
  show thesis
  proof (cases result)
    case (Inl e)
    then show thesis using assms False by (intro error) (auto simp: udp_arm_def Let_def)
  next
    case (Inr r)
    obtain d from_addr where r: "r = (d, from_addr)" by fastforce
    obtain wr a1 where w: "write_reply A writes flushes (udp_encode (acl_addr_to_address from_addr) d) a = (wr, a1)" by fastforce
    show thesis
    proof (cases wr)
      case Written
      then show thesis using assms False Inr r w by (intro replied [of from_addr d]) (auto simp: udp_arm_def Let_def)
    qed (use assms False Inr r w in \<open>auto simp: udp_arm_def Let_def intro!: failed\<close>)
  qed
qed

lemma uploaded_download [simp]: "uploaded u [Record_Download v n] = 0" "downloaded u [Record_Download u n] = n"
  by (simp_all add: uploaded_def downloaded_def)

lemma udp_arm_inv:
  assumes "udp_arm A net u result writes flushes passed st a = (left, st', a')" and "loop_inv sv u payload ev st"
  shows "udp_inv sv u payload ev st' \<and> (\<not> left \<longrightarrow> loop_inv sv u payload ev st')"
  using assms(1)
proof (cases rule: udp_arm_cases)
  case error
  then show ?thesis using assms(2) by (simp add: loop_inv_def errors_ok_def)
next
  case (replied d from_addr)
  then show ?thesis using assms(2)
    by (simp add: loop_inv_def udp_inv_def conn_ok_def cache_ok_def log_ok_def bill_ok_def frame_ok_def errors_ok_def
        UDP_MAX_CONSECUTIVE_ERRORS_def)
qed (use assms(2) in \<open>simp_all add: loop_inv_def\<close>)

lemma udp_step_inv:
  assumes "udp_step sv A net u e st a = (left, st', a')" and "loop_inv sv u payload ev st"
  shows "udp_inv sv u payload ev st' \<and> (\<not> left \<longrightarrow> loop_inv sv u payload ev st')"
proof (cases e)
  case (Client env spare)
  obtain q a1 where p: "poll_client A spare st (env a) = (q, a1)" by fastforce
  show ?thesis
  proof (cases q)
    case (Ready result)
    then have "client_arm sv net u result st = (left, st')" using assms(1) Client p by (auto split: prod.splits)
    then show ?thesis by (rule client_arm_inv [OF _ assms(2)])
  qed (use assms Client p in \<open>simp add: loop_inv_def\<close>)
next
  case (Datagram result writes flushes passed)
  then show ?thesis using udp_arm_inv assms by simp
next
  case Tick
  then show ?thesis using assms by (auto simp: idle_arm_def Let_def loop_inv_def)
next
  case Kick
  then show ?thesis using assms by (auto simp: loop_inv_def)
next
  case (Outside f)
  then show ?thesis using assms by (auto simp: loop_inv_def errors_ok_def)
qed

lemma udp_loop_inv:
  assumes "udp_loop sv A net u evs st a = (left, st', a')" and "loop_inv sv u payload ev st"
  shows "udp_inv sv u payload ev st' \<and> (\<not> left \<longrightarrow> loop_inv sv u payload ev st')"
  using assms
proof (induction evs arbitrary: st a)
  case (Cons e evs)
  obtain l st1 a1 where s: "udp_step sv A net u e st a = (l, st1, a1)" by (metis prod_cases3)
  show ?case
    using Cons.prems Cons.IH [of st1 a1] s udp_step_inv [OF s Cons.prems(2)] by (cases l) auto
qed (auto simp: loop_inv_def)

text \<open>A kick leaves the loop.\<close>

lemma udp_loop_ends: "Kick \<in> set evs \<Longrightarrow> fst (udp_loop sv A net u evs st a)"
proof (induction evs arbitrary: st a)
  case (Cons e evs)
  obtain l st1 a1 where "udp_step sv A net u e st a = (l, st1, a1)" by (metis prod_cases3)
  then show ?case using Cons by (cases l) auto
qed simp

text \<open>What a session leaves is what its loop left.\<close>

lemma handle_udp_associate_loop:
  assumes "handle_udp_associate sv A net script evs u payload w sh a = (out, sh', a', st)"
  obtains left a1 where "udp_loop sv A net u evs (udp_init payload (sh_dns sh) (sh_stats sh) w) a = (left, st, a1)"
    "out = (if left then Returned (Inr ()) else Running)" "a' = (if left then await_shutdown A script a1 else a1)"
    "sh' = (if left then act Close_Client else id) (sh\<lparr>sh_dns := us_dns st, sh_stats := us_stats st\<rparr>)"
  using assms by (auto simp: handle_udp_associate_def Let_def close_client_def split: prod.splits if_splits)

lemma udp_init_inv: "loop_inv sv u payload ev (udp_init payload d ev w)"
  by (simp add: case_prod_beta loop_inv_def udp_init_def udp_inv_def conn_ok_def cache_ok_def log_ok_def bill_ok_def frame_ok_def
      errors_ok_def incomplete_def UDP_MAX_CONSECUTIVE_ERRORS_def)

section \<open>The client's stream\<close>

text \<open>The log and the client's stream tell the same.\<close>

lemma handle_packet_log:
  assumes "handle_packet sv net u p st = (g, st')"
  shows "read_bytes (us_log st') = read_bytes (us_log st)" "replied (us_log st') = replied (us_log st)"
proof -
  have "us_log st' = us_log st \<or> (\<exists>h route n. us_log st' = us_log st @ [Sent h route p n])"
    using assms
  proof (cases rule: handle_packet_cases)
    case (dropped route st1)
    then show ?thesis
      using lookup_route_frames(7) [OF dropped(1)] by (auto dest!: open_direct_frames(7) open_proxy_frames(7))
  next
    case (sent route st1 st2)
    then have "us_log st2 = us_log st"
      using lookup_route_frames(7) [OF sent(1)] by (auto dest!: open_direct_frames(7) open_proxy_frames(7))
    with sent(3) show ?thesis by (cases rule: send_packet_cases) auto
  qed
  then show "read_bytes (us_log st') = read_bytes (us_log st)" "replied (us_log st') = replied (us_log st)" by auto
qed

lemma process_packets_log:
  "process_packets sv net u st = (g, st') \<Longrightarrow>
     read_bytes (us_log st') = read_bytes (us_log st) \<and> replied (us_log st') = replied (us_log st)"
proof (induction sv net u st rule: process_packets.induct)
  case (1 sv net u st)
  note pp = "1.prems" [unfolded process_packets.simps [of sv net u st]]
  obtain r rest where d: "udp_decode_zerocopy (us_read_buf st) = (r, rest)" by fastforce
  show ?case
  proof (cases "us_read_buf st = [] \<or> (\<forall>p n. r \<noteq> Ok p n)")
    case True
    then show ?thesis using pp d by (cases r) (auto split: if_splits)
  next
    case False
    then obtain p n where n: "us_read_buf st \<noteq> []" "r = Ok p n" by blast
    obtain give_up st1 where h: "handle_packet sv net u p (note_log (Received p) (st\<lparr>us_read_buf := rest\<rparr>)) = (give_up, st1)" by fastforce
    show ?thesis
    proof (cases give_up)
      case True
      then show ?thesis using pp d n h handle_packet_log [OF h] by auto
    next
      case False
      then have rec: "process_packets sv net u st1 = (g, st')" using pp d n h by simp
      from "1.IH" [OF n(1) d [symmetric] n(2) h [symmetric] False rec] show ?thesis using handle_packet_log [OF h] by simp
    qed
  qed
qed

lemma client_arm_log:
  assumes "client_arm sv net u result st = (left, st')"
  shows "read_bytes (us_log st') = read_bytes (us_log st) @ (case result of Inr (Some bs) \<Rightarrow> bs | _ \<Rightarrow> []) \<and>
    replied (us_log st') = replied (us_log st)"
  using assms
  by (auto simp: client_arm_def Let_def split: sum.splits option.splits if_split_asm dest!: process_packets_log)

fun client_scripts :: "('a, 'w) udp_event \<Rightarrow> ('a \<Rightarrow> 'a) list" where
  "client_scripts (Client env spare) = [env]"
| "client_scripts (Datagram result writes flushes passed) = writes @ flushes"
| "client_scripts _ = []"

definition quiet_udp :: "('a \<Rightarrow> 'h) \<Rightarrow> ('a, 'w) udp_event list \<Rightarrow> bool" where
  "quiet_udp h evs \<longleftrightarrow> (\<forall>e \<in> set evs. quiet h (client_scripts e))"

lemma quiet_append [simp]: "quiet h (xs @ ys) \<longleftrightarrow> quiet h xs \<and> quiet h ys"
  by (auto simp: quiet_def)

lemma quiet_udp_simps [simp]:
  "quiet_udp h []" "quiet_udp h (e # evs) \<longleftrightarrow> quiet h (client_scripts e) \<and> quiet_udp h evs"
  by (simp_all add: quiet_udp_def)

text \<open>A reply that was not completed.\<close>

definition reply_part :: "bytes \<Rightarrow> bool" where
  "reply_part part \<longleftrightarrow> (\<exists>addr d. prefix part (udp_encode addr d))"

lemma reply_part_Nil [simp]: "reply_part []"
  by (simp add: reply_part_def)

context async_stream
begin

lemma await_flush_history: "await_flush ops script s = (r, s') \<Longrightarrow> quiet hist script \<Longrightarrow> hist s' = hist s"
  by (induction script arbitrary: s) (auto split: prod.splits poll.splits dest: flush_law)

lemma write_reply_history:
  assumes "write_reply ops writes flushes bs s = (r, s')" and "quiet hist writes" "quiet hist flushes"
  shows "\<exists>part. prefix part bs \<and> tx s' = tx s @ part \<and> rx s' = rx s \<and> (r = Written \<longrightarrow> part = bs)"
proof -
  obtain q s1 where w: "write_all ops writes bs s = (q, s1)" by fastforce
  from write_all_history [OF w assms(2)] obtain k where k: "tx s1 = tx s @ take k bs" "rx s1 = rx s"
    "q = Some (Inr ()) \<longrightarrow> k = length bs" by blast
  obtain f s2 where f: "await_flush ops flushes s1 = (f, s2)" by fastforce
  have "hist s2 = hist s1" using await_flush_history [OF f assms(3)] .
  then have "hist s' = hist s1" "r = Written \<longrightarrow> q = Some (Inr ())"
    using assms(1) w f by (auto simp: write_reply_def split: option.splits sum.splits)
  then show ?thesis using k by (intro exI [of _ "take k bs"]) (auto simp: take_is_prefix)
qed

lemma poll_client_history:
  "poll_client ops spare st s = (q, s') \<Longrightarrow>
     tx s' = tx s \<and> rx s' = rx s @ (case q of Ready (Inr (Some bs)) \<Rightarrow> bs | _ \<Rightarrow> [])"
  by (auto simp: poll_client_def split: if_splits prod.splits poll.splits sum.splits dest: read_law)

text \<open>What the stream has handed out has been read; what it has accepted are the replies.\<close>

definition client_ok :: "bytes \<Rightarrow> bytes \<Rightarrow> ('c, 'd, 'w) udp_state \<Rightarrow> 's \<Rightarrow> bool" where
  "client_ok rx0 tx0 st a \<longleftrightarrow> rx a = rx0 @ read_bytes (us_log st) \<and> tx a = tx0 @ packets_bytes (replied (us_log st))"

definition client_left :: "bytes \<Rightarrow> bytes \<Rightarrow> ('c, 'd, 'w) udp_state \<Rightarrow> 's \<Rightarrow> bool" where
  "client_left rx0 tx0 st a \<longleftrightarrow> rx a = rx0 @ read_bytes (us_log st) \<and>
     (\<exists>part. tx a = tx0 @ packets_bytes (replied (us_log st)) @ part \<and> reply_part part)"

lemma client_ok_left: "client_ok rx0 tx0 st a \<Longrightarrow> client_left rx0 tx0 st a"
  unfolding client_ok_def client_left_def by (metis append_Nil2 reply_part_Nil)

lemma udp_arm_history:
  assumes "udp_arm ops net u result writes flushes passed st a = (left, st', a')" and "quiet hist writes" "quiet hist flushes"
    and "client_ok rx0 tx0 st a"
  shows "client_left rx0 tx0 st' a' \<and> (\<not> left \<longrightarrow> client_ok rx0 tx0 st' a')"
  using assms(1)
proof (cases rule: udp_arm_cases)
  case none
  then show ?thesis using assms(4) client_ok_left by simp
next
  case error
  then have "client_ok rx0 tx0 st' a'" using assms(4) by (simp add: client_ok_def)
  then show ?thesis using client_ok_left by blast
next
  case (failed d from_addr wr)
  from write_reply_history [OF failed(1) assms(2,3)] show ?thesis
    using assms(4) failed(2,3) unfolding client_ok_def client_left_def reply_part_def by auto
next
  case (replied d from_addr)
  from write_reply_history [OF replied(1) assms(2,3)] have "client_ok rx0 tx0 st' a'"
    using assms(4) replied(2) by (simp add: client_ok_def)
  then show ?thesis using client_ok_left by blast
qed

lemma udp_step_history:
  assumes "udp_step sv ops net u e st a = (left, st', a')" and "quiet hist (client_scripts e)" and "client_ok rx0 tx0 st a"
  shows "client_left rx0 tx0 st' a' \<and> (\<not> left \<longrightarrow> client_ok rx0 tx0 st' a')"
proof (cases e)
  case (Client env spare)
  obtain q a1 where p: "poll_client ops spare st (env a) = (q, a1)" by fastforce
  have "hist (env a) = hist a" using assms(2) Client by simp
  note h = poll_client_history [OF p] this
  have "client_ok rx0 tx0 st' a'"
  proof (cases q)
    case (Ready result)
    obtain l st1 where c: "client_arm sv net u result st = (l, st1)" by fastforce
    then show ?thesis
      using assms(1,3) Client p Ready h client_arm_log [OF c] by (simp add: client_ok_def)
  next
    case Pending
    then show ?thesis using assms(1,3) Client p h by (simp add: client_ok_def)
  qed
  then show ?thesis using client_ok_left by blast
next
  case (Datagram result writes flushes passed)
  then show ?thesis using udp_arm_history [OF _ _ _ assms(3)] assms(1,2) by simp
next
  case Tick
  then show ?thesis using assms client_ok_left by (auto simp: idle_arm_def Let_def)
next
  case Kick
  then show ?thesis using assms client_ok_left by auto
next
  case (Outside f)
  then have "client_ok rx0 tx0 st' a'" using assms by (auto simp: client_ok_def)
  then show ?thesis using client_ok_left by blast
qed

lemma udp_loop_history:
  assumes "udp_loop sv ops net u evs st a = (left, st', a')" and "quiet_udp hist evs" and "client_ok rx0 tx0 st a"
  shows "client_left rx0 tx0 st' a' \<and> (\<not> left \<longrightarrow> client_ok rx0 tx0 st' a')"
  using assms
proof (induction evs arbitrary: st a)
  case Nil
  then show ?case using client_ok_left by simp
next
  case (Cons e evs)
  obtain l st1 a1 where s: "udp_step sv ops net u e st a = (l, st1, a1)" by (metis prod_cases3)
  show ?case
    using Cons.prems Cons.IH [of st1 a1] s udp_step_history [OF s _ Cons.prems(3)] by (cases l) auto
qed

lemma udp_session_history:
  assumes "handle_udp_associate sv ops net script evs u payload w sh a = (out, sh', a', st)"
    and "quiet_udp hist evs" "quiet hist script"
  shows "client_left (rx a) (tx a) st a' \<and> (out = Running \<longrightarrow> client_ok (rx a) (tx a) st a')"
  using assms(1)
proof (rule handle_udp_associate_loop)
  fix left a1
  assume l: "udp_loop sv ops net u evs (udp_init payload (sh_dns sh) (sh_stats sh) w) a = (left, st, a1)"
    and o: "out = (if left then Returned (Inr ()) else Running)" "a' = (if left then await_shutdown ops script a1 else a1)"
  have "client_ok (rx a) (tx a) (udp_init payload (sh_dns sh) (sh_stats sh) w) a" by (simp add: client_ok_def udp_init_def)
  from udp_loop_history [OF l assms(2) this] show ?thesis
    using o await_shutdown_history [OF assms(3), of a1] by (auto simp: client_ok_def client_left_def)
qed

end

section \<open>Concrete sessions\<close>

text \<open>Two proxies; the second cannot be dialled.\<close>

definition demo_proxy1 :: handler_ref where "demo_proxy1 = (3, HSocks5 (Socks5_New ''10.0.0.1:1080'') True)"
definition demo_proxy2 :: handler_ref where "demo_proxy2 = (4, HSocks5 (Socks5_New ''10.0.0.2:1080'') True)"

definition demo_net :: "(nat, nat) udp_net" where
  "demo_net =
     \<lparr>un_dial_udp = (\<lambda>h addr w. if fst h = 4 then (Inl ''connection refused'', Suc w) else (Inr (fst h), Suc w)),
      un_write_to = (\<lambda>c bs addr w. (Inr (length bs), Suc w)), un_elapsed_secs = id\<rparr>"

definition demo_packet :: "u8 \<Rightarrow> trojan_udp_packet" where
  "demo_packet x = \<lparr>up_addr = IPv4 [8, 8, 8, x] 53, up_payload = [x, x]\<rparr>"

definition demo_route :: "handler_ref \<Rightarrow> u8 \<Rightarrow> udp_route" where
  "demo_route h x = \<lparr>ur_outbound = Proxy h None, ur_send_addr = acl_addr_for (up_addr (demo_packet x)) None\<rparr>"

definition demo_udp :: "(nat, nat, nat) udp_state" where
  "demo_udp = (udp_init [] 0 [] 0)
     \<lparr>us_route_cache := [(up_addr (demo_packet 1), demo_route demo_proxy1 1), (up_addr (demo_packet 2), demo_route demo_proxy2 2)],
      us_udp_conn := Some (demo_proxy1, 3), us_current_handler := Some demo_proxy1\<rparr>"

section \<open>Properties\<close>

text \<open>
  C13: Framing.  However the client's stream is cut into reads, while the session goes on the packets
  it has handled are exactly those that the reference parser finds in the initial payload followed by
  all that was read from the client, in order, and the buffer holds the incomplete rest, which is
  shorter than the longest packet; and the bytes written to the client are exactly the encoded replies.
\<close>

theorem udp_framing_refines:
  assumes "handle_udp_associate sv (recorded_ops A) net script evs u payload w sh a = (Running, sh', a', st)"
    and "quiet_udp remote_history evs" "quiet remote_history script" and "\<not> us_pending_buffered st"
  shows "\<exists>got. rc_rx a' = rc_rx a @ got \<and> rc_tx a' = rc_tx a @ packets_bytes (replied (us_log st)) \<and>
    parse_stream (payload @ got) = (received (us_log st), us_read_buf st) \<and> length (us_read_buf st) < 65798"
proof -
  from rec_stream.udp_session_history [OF assms(1-3)]
  have h: "rc_rx a' = rc_rx a @ read_bytes (us_log st)" "rc_tx a' = rc_tx a @ packets_bytes (replied (us_log st))"
    by (simp_all add: rec_stream.client_ok_def)
  obtain a1 where "udp_loop sv (recorded_ops A) net u evs (udp_init payload (sh_dns sh) (sh_stats sh) w) a = (False, st, a1)"
    using assms(1) by (rule handle_udp_associate_loop) (auto split: if_splits)
  from udp_loop_inv [OF this udp_init_inv]
  have l: "loop_inv sv u payload (sh_stats sh) st" by simp
  then have i: "incomplete (us_read_buf st)" using assms(4) by (simp add: loop_inv_def)
  have "\<forall>ext. parse_stream (payload @ read_bytes (us_log st) @ ext) =
        (received (us_log st) @ fst (parse_stream (us_read_buf st @ ext)), snd (parse_stream (us_read_buf st @ ext)))"
    using l by (simp add: loop_inv_def udp_inv_def frame_ok_def)
  from spec [OF this, of "[]"] show ?thesis using incomplete_parse [OF i] incomplete_length [OF i] h by simp
qed

theorem udp_framing_refines_witness:
  "case handle_udp_associate demo_server (recorded_ops scripted_ops) demo_net [] [Client id 8192, Client id 8192, Client id 8192] 7
      [1] (0 :: nat) demo_shared (scripted_remote [Ready (Inr [1]), Ready (Inr [8, 8])]) of (out, sh', a', st) \<Rightarrow>
     out = Running \<and> us_read_buf st = [1, 1, 8, 8] \<and> rc_tx a' = packets_bytes (replied (us_log st)) \<and>
     parse_stream ([1] @ rc_rx a') = (received (us_log st), us_read_buf st)"
proof -
  obtain out sh' a' st where r: "handle_udp_associate demo_server (recorded_ops scripted_ops) demo_net []
      [Client id 8192, Client id 8192, Client id 8192] 7 [1] (0 :: nat) demo_shared
      (scripted_remote [Ready (Inr [1]), Ready (Inr [8, 8])]) = (out, sh', a', st)"
    by (metis prod_cases4)
  then have o: "out = Running" "us_read_buf st = [1, 1, 8, 8]" "\<not> us_pending_buffered st"
    by (auto simp: handle_udp_associate_def udp_init_def poll_client_def client_arm_def process_packets.simps udp_decode_zerocopy_def
        recorded_sel scripted_remote_def UDP_MIN_SIZE_def UDP_MAX_READ_BUFFER_SIZE_def note_log_def Let_def)
  show ?thesis using udp_framing_refines [OF r [unfolded o(1)] _ _ o(3)] r o by (auto simp: scripted_remote_def)
qed


text \<open>A session whose initial payload is one packet to a public resolver.\<close>

definition demo_dns_packet :: trojan_udp_packet where
  "demo_dns_packet = \<lparr>up_addr = IPv4 [8, 8, 8, 8] 53, up_payload = [1, 2]\<rparr>"

definition demo_dns_route :: udp_route where
  "demo_dns_route = \<lparr>ur_outbound = Direct None None, ur_send_addr = \<lparr>aa_host = ''8.8.8.8'', aa_port = 53, aa_resolve_info = None\<rparr>\<rparr>"

definition demo_dns_session :: "outcome \<times> nat shared \<times> bytes io_result poll list recorded \<times> (nat, nat, nat) udp_state" where
  "demo_dns_session =
     handle_udp_associate demo_server (recorded_ops scripted_ops) demo_net [] [Client id 8192] 7
       [1, 8, 8, 8, 8, 0, 53, 0, 2, 13, 10, 1, 2] 0 demo_shared (scripted_remote [])"

lemma demo_dns_decode:
  "udp_decode_zerocopy [1, 8, 8, 8, 8, 0, 53, 0, 2, 13, 10, 1, 2] = (Ok demo_dns_packet 13, [])"
  by code_simp

lemma demo_dns_routed: "route_udp_target demo_server (IPv4 [8, 8, 8, 8] 53) 0 = (demo_dns_route, 0)"
proof -
  have "\<not> is_private_ip (V4 [8, 8, 8, 8])" "show_ipv4 [8, 8, 8, 8] = ''8.8.8.8''" by code_simp+
  then show ?thesis
    by (simp add: route_udp_target_def demo_server_def direct_route_udp_def direct_route_def screen_direct_target_def
        acl_addr_for_def demo_dns_route_def)
qed

lemma demo_dns_log:
  "fst demo_dns_session = Running \<and>
   us_log (snd (snd (snd demo_dns_session))) =
     [Received demo_dns_packet, Sent default_direct_handler demo_dns_route demo_dns_packet 2] \<and>
   us_stats (snd (snd (snd demo_dns_session))) = [Record_Upload 7 2]"
proof -
  have a: "up_addr demo_dns_packet = IPv4 [8, 8, 8, 8] 53" "up_payload demo_dns_packet = [1, 2]"
    "ur_outbound demo_dns_route = Direct None None"
    by (simp_all add: demo_dns_packet_def demo_dns_route_def)
  have n: "un_dial_udp demo_net default_direct_handler addr w = (Inr 0, Suc w)" "un_write_to demo_net c bs addr w = (Inr (length bs), Suc w)"
    for addr w c bs by (simp_all add: demo_net_def default_direct_handler_def)
  show ?thesis
    by (simp add: demo_dns_session_def handle_udp_associate_def udp_init_def poll_client_def client_arm_def process_packets.simps demo_dns_decode
        handle_packet_def lookup_route_def a demo_shared_def demo_dns_routed open_direct_def n send_packet_def note_log_def Let_def)
qed

lemma demo_dns_session_eq:
  "handle_udp_associate demo_server (recorded_ops scripted_ops) demo_net [] [Client id 8192] 7
     [1, 8, 8, 8, 8, 0, 53, 0, 2, 13, 10, 1, 2] 0 demo_shared (scripted_remote []) =
   (Running, fst (snd demo_dns_session), fst (snd (snd demo_dns_session)), snd (snd (snd demo_dns_session)))"
  using demo_dns_log by (simp add: demo_dns_session_def prod_eq_iff)


text \<open>
  No datagram to the internal network.  With \<open>block_private_ip\<close>, under the direct router or the
  rules of an operator, every address handed to a direct UDP outbound is public or one of the
  operator's hijack destinations.
\<close>

lemma udp_targets_screened:
  assumes "resolver_answers (sv_resolve sv)"
    and "sv_route_udp sv = direct_route_udp (sv_resolve sv) \<lparr>dr_block_private_ip = True\<rparr> \<and> trusted = {} \<or>
      (\<exists>engine. sv_route_udp sv = acl_route_udp (sv_resolve sv) \<lparr>ar_engine = engine, ar_block_private_ip = True\<rparr> \<and>
         trusted = hijack_ips engine)"
    and "handle_udp_associate sv A net script evs u payload w sh a = (out, sh', a', st)"
    and "Sent h route p n \<in> set (us_log st)" and "ur_outbound route = Direct resolved handler"
  shows "acl_addr_safe trusted (up_addr p) (ur_send_addr route)"
proof -
  obtain left a1 where "udp_loop sv A net u evs (udp_init payload (sh_dns sh) (sh_stats sh) w) a = (left, st, a1)"
    using assms(3) by (rule handle_udp_associate_loop)
  from udp_loop_inv [OF this udp_init_inv] have "log_ok sv (us_log st)" by (simp add: udp_inv_def)
  then obtain d where r: "route = fst (route_udp_target sv (up_addr p) d)"
    using assms(4) unfolding log_ok_def sent_ok_def route_of_def by blast
  obtain d' where d: "sv_route_udp sv d (up_addr p) = (Direct resolved handler, d')"
    using r assms(5) by (cases "sv_route_udp sv d (up_addr p)") (simp add: route_udp_target_def Let_def)
  then have addr: "ur_send_addr route = acl_addr_for (up_addr p) resolved" by (simp add: r route_udp_target_def Let_def)
  show ?thesis
    using assms(2) d drs.acl_addr_for_safe [OF assms(1), of d "up_addr p" resolved handler]
      acls.acl_addr_for_safe [OF assms(1), of _ UDP d "up_addr p" resolved handler]
    unfolding addr by (auto simp: direct_route_udp_def acl_route_udp_def)
qed



text \<open>
  C38: A failed dial silences another proxy.  When a packet for a second proxy cannot be dialled, the
  connection of the first proxy has already been dropped but the first proxy is still remembered as
  the current handler: from then on every packet for the first proxy is dropped without a dial and
  without counting as an error.
\<close>

theorem udp_failed_redial_silences:
  assumes "us_current_handler st = Some h1" and "fst h1 \<noteq> fst h2" and "allows_udp (snd h1)" and "allows_udp (snd h2)"
    and "map_of (us_route_cache st) (up_addr p1) = Some r1" and "ur_outbound r1 = Proxy h1 j1"
    and "map_of (us_route_cache st) (up_addr p2) = Some r2" and "ur_outbound r2 = Proxy h2 j2"
    and "un_dial_udp net h2 (ur_send_addr r2) (us_world st) = (Inl e, w)"
    and "st' = snd (handle_packet sv net u p2 st)"
  shows "us_udp_conn st' = None \<and> us_current_handler st' = Some h1 \<and> handle_packet sv net u p1 st' = (False, st')"
  using assms by (simp add: handle_packet_def lookup_route_def open_proxy_def send_packet_def Let_def)

theorem udp_failed_redial_silences_witness:
  "handle_packet demo_server demo_net 7 (demo_packet 1) (snd (handle_packet demo_server demo_net 7 (demo_packet 2) demo_udp)) =
     (False, snd (handle_packet demo_server demo_net 7 (demo_packet 2) demo_udp))"
proof -
  note d = udp_init_def demo_udp_def demo_proxy1_def demo_proxy2_def demo_packet_def demo_route_def demo_net_def
  have "us_udp_conn (snd (handle_packet demo_server demo_net 7 (demo_packet 2) demo_udp)) = None \<and>
    us_current_handler (snd (handle_packet demo_server demo_net 7 (demo_packet 2) demo_udp)) = Some demo_proxy1 \<and>
    handle_packet demo_server demo_net 7 (demo_packet 1) (snd (handle_packet demo_server demo_net 7 (demo_packet 2) demo_udp)) =
     (False, snd (handle_packet demo_server demo_net 7 (demo_packet 2) demo_udp))"
    by (rule udp_failed_redial_silences [of demo_udp demo_proxy1 demo_proxy2 "demo_packet 1" "demo_route demo_proxy1 1" None
          "demo_packet 2" "demo_route demo_proxy2 2" None demo_net "''connection refused''" 1]) (simp_all add: d)
  then show ?thesis by simp
qed

end
