(* ===== verification/Handler.thy ===== *)
theory Handler
  imports Udp_Session
begin

text \<open>
  \<open>src/src/handler.rs\<close>, \<open>process_connection\<close>: a connection from its first byte to the end of its
  scope guard, composed of the request reader, the authenticator, the connection manager and the two
  session handlers.  What surrounds the connection is the record \<open>outside\<close>: the scripts of its
  streams, how attempts to dial come out, the events of a UDP session, and what other tasks do to the
  shared registry while this one runs.
\<close>

section \<open>A connection\<close>

record ('a, 'b, 'c, 'w) outside =
  ou_spare :: "bytes \<Rightarrow> nat"
  ou_scripts :: "('a, 'b) scripts"
  ou_connect :: "socket_addr \<Rightarrow> (io_error, 'b) dialled"
  ou_dial :: "handler_ref \<Rightarrow> acl_addr \<Rightarrow> (string, 'b) dialled"
  ou_net :: "('c, 'w) udp_net"
  ou_events :: "('a, 'w) udp_event list"
  ou_world :: 'w
  ou_registry :: "connection_manager \<Rightarrow> connection_manager"

text \<open>The two arms of the final \<open>match\<close>; a session leaves a remote stream or the state of the UDP loop.\<close>

definition run_command ::
    "'d server \<Rightarrow> 'a stream_ops \<Rightarrow> 'b stream_ops \<Rightarrow> ('a, 'b, 'c, 'w) outside \<Rightarrow> transport_type \<Rightarrow> user_id \<Rightarrow> trojan_request \<Rightarrow>
     'd shared \<Rightarrow> 'a \<Rightarrow> outcome \<times> 'd shared \<times> 'a \<times> 'b option \<times> ('c, 'd, 'w) udp_state option" where
  "run_command sv A B ou ty user_id request sh a =
     (case tr_cmd request of
        Connect \<Rightarrow>
          (case handle_connect sv A B (ou_scripts ou) (ou_connect ou) (ou_dial ou) ty user_id (tr_payload request)
             (tr_addr request) sh a of (out, sh, a, b) \<Rightarrow> (out, sh, a, b, None))
      | UdpAssociate \<Rightarrow>
          (case handle_udp_associate sv A (ou_net ou) (sc_close (ou_scripts ou)) (ou_events ou) user_id
             (tr_payload request) (ou_world ou) sh a of (out, sh, a, st) \<Rightarrow> (out, sh, a, None, Some st)))"

definition process_connection ::
    "'d server \<Rightarrow> 'a stream_ops \<Rightarrow> 'b stream_ops \<Rightarrow> ('a, 'b, 'c, 'w) outside \<Rightarrow> transport_type \<Rightarrow>
     'd shared \<Rightarrow> 'a \<Rightarrow> outcome \<times> 'd shared \<times> 'a \<times> 'b option \<times> ('c, 'd, 'w) udp_state option" where
  "process_connection sv A B ou ty sh a =
     (let refuse = (\<lambda>e sh a.
            let (sh, a) = close_client A (sc_close (ou_scripts ou)) (sh, a) in (Returned (Inl e), sh, a, None, None)) in
      case read_trojan_request A (ou_spare ou) (cc_buffer_size (sv_conn_config sv)) (sc_read (ou_scripts ou)) a [] of
        (Unreachable, a) \<Rightarrow> (Panicked, sh, a, None, None)
      | (Failed e, a) \<Rightarrow> refuse e sh a
      | (Expired, a) \<Rightarrow> refuse (Msg ''Request read timeout'') sh a
      | (Request request, a) \<Rightarrow>
          (case sv_authenticate sv (tr_password request) of
             None \<Rightarrow> refuse (Msg ''Invalid user credentials'') sh a
           | Some user_id \<Rightarrow>
               let ((conn_id, cancel_token), cm) = register user_id (sh_conn_manager sh);
                   sh = stat (Record_Request user_id) (sh\<lparr>sh_conn_manager := cm\<rparr>);
                   (out, sh, a, b, st) = run_command sv A B ou ty user_id request sh a;
                   cm = ou_registry ou (sh_conn_manager sh) in
               (out, sh\<lparr>sh_conn_manager := (if out = Running then cm else unregister conn_id cm)\<rparr>, a, b, st)))"

text \<open>The ways through a connection: refused at the door, or a session of an authenticated user.\<close>

lemma process_connection_cases:
  assumes "process_connection sv A B ou ty sh a = (out, sh', a', b', us)"
  obtains
    (panic) a1 where "read_trojan_request A (ou_spare ou) (cc_buffer_size (sv_conn_config sv)) (sc_read (ou_scripts ou)) a [] = (Unreachable, a1)"
  | (refused) res a1 e where "read_trojan_request A (ou_spare ou) (cc_buffer_size (sv_conn_config sv)) (sc_read (ou_scripts ou)) a [] = (res, a1)"
      "\<And>r. res = Request r \<Longrightarrow> sv_authenticate sv (tr_password r) = None"
      "out = Returned (Inl e)" "sh' = act Close_Client sh" "a' = await_shutdown A (sc_close (ou_scripts ou)) a1" "b' = None" "us = None"
  | (session) r a1 u c tok cm1 sh2 where
      "read_trojan_request A (ou_spare ou) (cc_buffer_size (sv_conn_config sv)) (sc_read (ou_scripts ou)) a [] = (Request r, a1)"
      "sv_authenticate sv (tr_password r) = Some u" "register u (sh_conn_manager sh) = ((c, tok), cm1)"
      "run_command sv A B ou ty u r (stat (Record_Request u) (sh\<lparr>sh_conn_manager := cm1\<rparr>)) a1 = (out, sh2, a', b', us)"
      "sh' = sh2\<lparr>sh_conn_manager := (if out = Running then ou_registry ou (sh_conn_manager sh2)
          else unregister c (ou_registry ou (sh_conn_manager sh2)))\<rparr>"
proof -
  obtain res a1 where r: "read_trojan_request A (ou_spare ou) (cc_buffer_size (sv_conn_config sv)) (sc_read (ou_scripts ou)) a [] = (res, a1)"
    by fastforce
  note eq = assms [unfolded process_connection_def Let_def r prod.case]
  show thesis
  proof (cases res)
    case (Request q)
    show thesis
    proof (cases "sv_authenticate sv (tr_password q)")
      case None
      then show thesis using eq Request r by (intro refused [OF r]) (auto simp: close_client_def)
    next
      case (Some u)
      obtain c tok cm1 where g: "register u (sh_conn_manager sh) = ((c, tok), cm1)" by (metis prod.collapse)
      obtain o2 sh2 a2 b2 us2 where x: "run_command sv A B ou ty u q (stat (Record_Request u) (sh\<lparr>sh_conn_manager := cm1\<rparr>)) a1
          = (o2, sh2, a2, b2, us2)" by (metis prod_cases5)
      then have "o2 = out" "a2 = a'" "b2 = b'" "us2 = us" "sh' = sh2\<lparr>sh_conn_manager := (if out = Running
          then ou_registry ou (sh_conn_manager sh2) else unregister c (ou_registry ou (sh_conn_manager sh2)))\<rparr>"
        using eq by (auto simp: Request Some g)
      then show thesis using session [OF r [unfolded Request] Some g] x by simp
    qed
  next
    case Unreachable
    then show thesis using panic r by simp
  qed (use eq r in \<open>auto simp: close_client_def intro!: refused [OF r]\<close>)
qed

lemma handle_udp_associate_did:
  assumes "handle_udp_associate sv A net script evs u payload w sh a = (out, sh', a', st)"
  shows "did sh out sh' (if out = Running then [] else [Close_Client])"
  using assms by (rule handle_udp_associate_loop) (auto simp: did_def act_def)

lemma run_command_did:
  assumes "run_command sv A B ou ty u r sh a = (out, sh', a', b', us)"
  shows "\<exists>acts. did sh out sh' acts"
proof (cases "tr_cmd r")
  case Connect
  then have "handle_connect sv A B (ou_scripts ou) (ou_connect ou) (ou_dial ou) ty u (tr_payload r) (tr_addr r) sh a = (out, sh', a', b')"
    using assms by (auto simp: run_command_def split: prod.splits)
  from handle_connect_did [OF this] show ?thesis by (auto simp: did_only_def)
next
  case UdpAssociate
  then show ?thesis
    using assms by (auto simp: run_command_def split: prod.splits dest!: handle_udp_associate_did)
qed

lemma read_not_unreachable: "fst (read_trojan_request A spare n script a buf) \<noteq> Unreachable"
proof (induction script arbitrary: a buf)
  case Nil
  then show ?case
    using try_request_not_unreachable [of buf] by (auto simp: read_trojan_request.simps [of A spare n "[]"] split: option.splits)
next
  case (Cons env script)
  then show ?case
    using try_request_not_unreachable [of buf]
    by (auto simp: read_trojan_request.simps [of A spare n "env # script"] Let_def split: option.splits prod.splits poll.splits sum.splits)
qed

lemma process_connection_did:
  assumes "process_connection sv A B ou ty sh a = (out, sh', a', b', us)"
  shows "\<exists>acts. sh_actions sh' = sh_actions sh @ acts \<and> count_list acts Close_Client = (if out = Running then 0 else 1) \<and> out \<noteq> Panicked"
  using assms
proof (cases rule: process_connection_cases)
  case (panic a1)
  then show ?thesis using read_not_unreachable by (metis fst_conv)
next
  case (session r a1 u c tok cm1 sh2)
  obtain acts where "did (stat (Record_Request u) (sh\<lparr>sh_conn_manager := cm1\<rparr>)) out sh2 acts"
    using run_command_did [OF session(4)] by blast
  then show ?thesis by (auto simp: did_def session(5) stat_def)
qed (simp add: act_def)

text \<open>What surrounds a connection leaves what its streams have handed out and accepted alone.\<close>

definition outside_quiet :: "('a recorded, 'b recorded, 'c, 'w) outside \<Rightarrow> bool" where
  "outside_quiet ou \<longleftrightarrow> quiet_scripts (ou_scripts ou) \<and> quiet_udp remote_history (ou_events ou)"

text \<open>
  The bytes of a UDP session: those of the client are the packets handled and a rest, those to the
  client the replies and perhaps part of one that failed, and the user is billed for what was sent
  and answered.
\<close>

definition udp_flow ::
    "user_id \<Rightarrow> bytes \<Rightarrow> stat_event list \<Rightarrow> stat_event list \<Rightarrow> 'a recorded \<Rightarrow> 'a recorded \<Rightarrow> ('c, 'd, 'w) udp_state \<Rightarrow> bool" where
  "udp_flow u payload ev ev' a a' st \<longleftrightarrow>
     (\<exists>got part.
        rc_rx a' = rc_rx a @ got \<and> payload @ got = packets_bytes (received (us_log st)) @ us_read_buf st \<and>
        rc_tx a' = rc_tx a @ packets_bytes (replied (us_log st)) @ part \<and> reply_part part \<and>
        uploaded u ev' = uploaded u ev + sent_total (us_log st) \<and>
        downloaded u ev' = downloaded u ev + replied_total (us_log st))"

lemma handle_udp_associate_flow:
  assumes "handle_udp_associate sv (recorded_ops A) net script evs u payload w sh a = (out, sh', a', st)"
    and "quiet_udp remote_history evs" "quiet remote_history script"
  shows "udp_flow u payload (sh_stats sh) (sh_stats sh') a a' st"
proof -
  obtain left a1 where l: "udp_loop sv (recorded_ops A) net u evs (udp_init payload (sh_dns sh) (sh_stats sh) w) a = (left, st, a1)"
    and sh: "sh_stats sh' = us_stats st"
    using assms(1) by (rule handle_udp_associate_loop) (simp add: act_def)
  have "udp_inv sv u payload (sh_stats sh) st" using udp_loop_inv [OF l udp_init_inv] by simp
  then show ?thesis
    using rec_stream.udp_session_history [OF assms]
    by (auto simp: udp_flow_def rec_stream.client_left_def udp_inv_def frame_ok_def bill_ok_def sh)
qed

lemma run_command_flow:
  assumes "run_command sv (recorded_ops A) (recorded_ops B) ou ty u r sh a = (out, sh', a', b', us)"
    and "outside_quiet ou"
  shows "case us of
      None \<Rightarrow> tr_cmd r = Connect \<and> (case b' of
          None \<Rightarrow> rc_rx a' = rc_rx a \<and> rc_tx a' = rc_tx a \<and> sh_stats sh' = sh_stats sh
        | Some b1 \<Rightarrow> \<exists>b0. opened (ou_connect ou) (ou_dial ou) b0 \<and>
            session_flow u (tr_payload r) (sh_stats sh) (sh_stats sh') a a' b0 b1)
    | Some st \<Rightarrow> tr_cmd r = UdpAssociate \<and> b' = None \<and> udp_flow u (tr_payload r) (sh_stats sh) (sh_stats sh') a a' st"
proof (cases "tr_cmd r")
  case Connect
  then have h: "handle_connect sv (recorded_ops A) (recorded_ops B) (ou_scripts ou) (ou_connect ou) (ou_dial ou) ty u
      (tr_payload r) (tr_addr r) sh a = (out, sh', a', b')" and us: "us = None"
    using assms(1) by (auto simp: run_command_def split: prod.splits)
  from handle_connect_flow [OF h] assms(2) Connect us show ?thesis
    by (auto simp: outside_quiet_def connect_flow_def split: option.splits)
next
  case UdpAssociate
  then obtain st where "handle_udp_associate sv (recorded_ops A) (ou_net ou) (sc_close (ou_scripts ou)) (ou_events ou) u
      (tr_payload r) (ou_world ou) sh a = (out, sh', a', st)" and us: "us = Some st" "b' = None"
    using assms(1) by (auto simp: run_command_def split: prod.splits)
  from handle_udp_associate_flow [OF this(1)] assms(2) UdpAssociate us show ?thesis
    by (simp add: outside_quiet_def quiet_scripts_def)
qed

text \<open>The bytes of a connection, by the flow of its session.\<close>

lemma session_start:
  assumes "read_trojan_request (recorded_ops A) spare n (sc_read (ou_scripts ou)) a [] = (Request r, a1)" and "outside_quiet ou"
  shows "rc_rx a1 = rc_rx a @ request_bytes r" "rc_tx a1 = rc_tx a"
proof -
  have "quiet remote_history (sc_read (ou_scripts ou))" using assms(2) by (simp add: outside_quiet_def quiet_scripts_def)
  from rec_stream.read_request_history [OF assms(1) this]
  show "rc_rx a1 = rc_rx a @ request_bytes r" "rc_tx a1 = rc_tx a" by auto
qed

lemma process_connection_flow:
  assumes "process_connection sv (recorded_ops A) (recorded_ops B) ou ty sh a = (out, sh', a', b', us)"
    and "outside_quiet ou"
  shows "case b' of
      None \<Rightarrow> us = None \<longrightarrow> rc_tx a' = rc_tx a \<and>
        (\<forall>v. uploaded v (sh_stats sh') = uploaded v (sh_stats sh) \<and> downloaded v (sh_stats sh') = downloaded v (sh_stats sh))
    | Some b1 \<Rightarrow> \<exists>pw target u data b0 up back down.
        rc_rx a' = rc_rx a @ header_bytes pw Connect target @ data \<and> sv_authenticate sv pw = Some u \<and>
        opened (ou_connect ou) (ou_dial ou) b0 \<and> rc_tx b1 = rc_tx b0 @ up \<and> prefix up data \<and>
        rc_rx b1 = rc_rx b0 @ back \<and> rc_tx a' = rc_tx a @ down \<and> prefix down back \<and>
        (\<exists>payload. prefix payload data \<and>
           uploaded u (sh_stats sh') = uploaded u (sh_stats sh) + max (length payload) (length up) \<and>
           downloaded u (sh_stats sh') = downloaded u (sh_stats sh) + length down)"
  using assms(1)
proof (cases rule: process_connection_cases)
  case (panic a1)
  then show ?thesis using read_not_unreachable by (metis fst_conv)
next
  case (refused res a1 e)
  have "quiet remote_history (sc_read (ou_scripts ou))" using assms(2) by (simp add: outside_quiet_def quiet_scripts_def)
  from rec_stream.read_request_history [OF refused(1) this] have "rc_tx a1 = rc_tx a" by auto
  then show ?thesis using refused assms(2) by (simp add: outside_quiet_def quiet_scripts_def)
next
  case (session r a1 u c tok cm1 sh2)
  note a1 = session_start [OF session(1) assms(2)]
  note flow = run_command_flow [OF session(4) assms(2)]
  show ?thesis
  proof (cases b')
    case None
    then show ?thesis using flow a1 by (auto simp: session(5) stat_def)
  next
    case (Some b1)
    then obtain b0 got up bk down where f: "tr_cmd r = Connect" "opened (ou_connect ou) (ou_dial ou) b0"
      "rc_rx a' = rc_rx a1 @ got" "rc_tx b1 = rc_tx b0 @ up" "prefix up (tr_payload r @ got)"
      "rc_rx b1 = rc_rx b0 @ bk" "rc_tx a' = rc_tx a1 @ down" "prefix down bk"
      "uploaded u (sh_stats sh') = uploaded u (sh_stats sh) + max (length (tr_payload r)) (length up)"
      "downloaded u (sh_stats sh') = downloaded u (sh_stats sh) + length down"
      using flow by (auto simp: session_flow_def session(5) stat_def split: option.splits)
    have "rc_rx a' = rc_rx a @ header_bytes (tr_password r) Connect (tr_addr r) @ (tr_payload r @ got)"
      using f(1,3) a1 by (simp add: request_bytes_def)
    then show ?thesis
      unfolding Some option.case using f(2,4-6,8-10) f(7) [unfolded a1(2)] session(2) prefixI [OF refl, of "tr_payload r" got] by blast
  qed
qed

lemma process_connection_udp_flow:
  assumes "process_connection sv (recorded_ops A) (recorded_ops B) ou ty sh a = (out, sh', a', b', Some st)"
    and "outside_quiet ou"
  shows "\<exists>pw target u part.
    rc_rx a' = rc_rx a @ header_bytes pw UdpAssociate target @ packets_bytes (received (us_log st)) @ us_read_buf st \<and>
    sv_authenticate sv pw = Some u \<and> b' = None \<and>
    rc_tx a' = rc_tx a @ packets_bytes (replied (us_log st)) @ part \<and> reply_part part \<and>
    uploaded u (sh_stats sh') = uploaded u (sh_stats sh) + sent_total (us_log st) \<and>
    downloaded u (sh_stats sh') = downloaded u (sh_stats sh) + replied_total (us_log st)"
  using assms(1)
proof (cases rule: process_connection_cases)
  case (panic a1)
  then show ?thesis using read_not_unreachable by (metis fst_conv)
next
  case (session r a1 u c tok cm1 sh2)
  note a1 = session_start [OF session(1) assms(2)]
  from run_command_flow [OF session(4) assms(2)] have cmd: "tr_cmd r = UdpAssociate" "b' = None"
    and f: "udp_flow u (tr_payload r) (sh_stats (stat (Record_Request u) (sh\<lparr>sh_conn_manager := cm1\<rparr>))) (sh_stats sh2) a1 a' st"
    by simp_all
  from f obtain got part where g: "rc_rx a' = rc_rx a1 @ got" "tr_payload r @ got = packets_bytes (received (us_log st)) @ us_read_buf st"
    "rc_tx a' = rc_tx a1 @ packets_bytes (replied (us_log st)) @ part" "reply_part part"
    "uploaded u (sh_stats sh2) = uploaded u (sh_stats sh) + sent_total (us_log st)"
    "downloaded u (sh_stats sh2) = downloaded u (sh_stats sh) + replied_total (us_log st)"
    by (auto simp: udp_flow_def stat_def)
  have "rc_rx a' = rc_rx a @ header_bytes (tr_password r) UdpAssociate (tr_addr r) @ packets_bytes (received (us_log st)) @ us_read_buf st"
    using g(1,2) a1(1) cmd(1) by (simp add: request_bytes_def)
  then show ?thesis using g(3-6) a1(2) session(2,5) cmd(2) by auto
qed simp

section \<open>A concrete connection\<close>

text \<open>The request of \<open>demo_arrival\<close> is accepted, its target connected to, its payload sent, and the user kicked.\<close>

definition demo_outside ::
    "(bytes io_result poll list recorded, bytes io_result poll list recorded, nat, nat) outside" where
  "demo_outside =
     \<lparr>ou_spare = (\<lambda>_. 100), ou_scripts = demo_scripts, ou_connect = (\<lambda>_. Dialled (scripted_remote [])),
      ou_dial = (\<lambda>_ _. Dial_Timeout), ou_net = demo_net, ou_events = [Kick], ou_world = 0, ou_registry = id\<rparr>"

lemma demo_connect:
  "handle_connect demo_server (recorded_ops scripted_ops) (recorded_ops scripted_ops) demo_scripts
     (\<lambda>_. Dialled (scripted_remote [])) (\<lambda>_ _. Dial_Timeout) Tcp 7 [9] (IPv4 [93, 184, 216, 34] 80) sh a =
   (Returned (Inr ()),
    sh\<lparr>sh_stats := sh_stats sh @ [Record_Upload 7 1],
       sh_actions := sh_actions sh @ [Connect_To \<lparr>sa_ip = V4 [93, 184, 216, 34], sa_port = 80\<rparr>, Close_Client, Close_Remote]\<rparr>,
    a, Some \<lparr>rc_inner = [], rc_rx = [], rc_tx = [9]\<rparr>)"
proof -
  have "\<not> is_private_ip (V4 [93, 184, 216, 34])" by code_simp
  then have r: "sv_route demo_server d (IPv4 [93, 184, 216, 34] 80) = (Direct None None, d)" for d
    by (simp add: demo_server_def direct_route_def screen_direct_target_def)
  show ?thesis
    by (simp add: handle_connect_def r handle_direct_connect_def candidates_def relay_or_fail_def ctx_relay_def demo_scripts_def
        recorded_sel scripted_remote_def close_client_def relay_init_def act_def stat_def Let_def)
qed

lemma demo_process:
  "process_connection demo_server (recorded_ops scripted_ops) (recorded_ops scripted_ops) demo_outside Tcp demo_shared demo_arrival =
   (Returned (Inr ()),
    \<lparr>sh_dns = 0, sh_conn_manager = unregister 1 (snd (register 7 cm_new)), sh_stats = [Record_Request 7, Record_Upload 7 1],
     sh_actions = [Connect_To \<lparr>sa_ip = V4 [93, 184, 216, 34], sa_port = 80\<rparr>, Close_Client, Close_Remote]\<rparr>,
    \<lparr>rc_inner = [], rc_rx = demo_wire, rc_tx = []\<rparr>, Some \<lparr>rc_inner = [], rc_rx = [], rc_tx = [9]\<rparr>, None)"
proof -
  have o: "ou_spare demo_outside = (\<lambda>_. 100)" "ou_scripts demo_outside = demo_scripts" "ou_registry demo_outside = id"
    "ou_connect demo_outside = (\<lambda>_. Dialled (scripted_remote []))" "ou_dial demo_outside = (\<lambda>_ _. Dial_Timeout)"
    by (simp_all add: demo_outside_def)
  have s: "cc_buffer_size (sv_conn_config demo_server) = 100" "sc_read demo_scripts = [id, id, id]"
    "sv_authenticate demo_server (tr_password demo_request) = Some 7"
    by (simp_all add: demo_server_def demo_scripts_def demo_request_def)
  have c: "tr_cmd demo_request = Connect" "tr_payload demo_request = [9]" "tr_addr demo_request = IPv4 [93, 184, 216, 34] 80"
    by (simp_all add: demo_request_def)
  have g: "register 7 cm_new = ((1, 0), snd (register 7 cm_new))"
    by (simp add: register_def take_id_def cm_new_def Let_def)
  show ?thesis
    unfolding process_connection_def Let_def o s demo_read prod.case read_outcome.case option.case
    by (subst g) (simp add: run_command_def o c demo_connect demo_shared_def stat_def, subst g, simp)
qed

lemma demo_outside_quiet: "outside_quiet demo_outside"
  using demo_scripts_quiet by (simp add: outside_quiet_def demo_outside_def)

text \<open>A UDP request brings its first packet; the resolver answers it, and the user is kicked.\<close>

definition demo_udp_request :: trojan_request where
  "demo_udp_request = \<lparr>tr_password = replicate 56 97, tr_cmd = UdpAssociate, tr_addr = IPv4 [0, 0, 0, 0] 0,
     tr_payload = [1, 8, 8, 8, 8, 0, 53, 0, 2, 13, 10, 1, 2]\<rparr>"

definition demo_udp_arrival :: "bytes io_result poll list recorded" where
  "demo_udp_arrival = scripted_remote
     [Ready (Inr (replicate 56 97)), Pending,
      Ready (Inr [13, 10, 3, 1, 0, 0, 0, 0, 0, 0, 13, 10, 1, 8, 8, 8, 8, 0, 53, 0, 2, 13, 10, 1, 2])]"

definition demo_dns_reply :: trojan_udp_packet where
  "demo_dns_reply = \<lparr>up_addr = IPv4 [8, 8, 8, 8] 53, up_payload = [5, 6, 7]\<rparr>"

definition demo_udp_events :: "(bytes io_result poll list recorded, nat) udp_event list" where
  "demo_udp_events =
     [Client id 8192, Datagram (Inr ([5, 6, 7], \<lparr>aa_host = ''8.8.8.8'', aa_port = 53, aa_resolve_info = None\<rparr>)) [id] [id] Suc, Kick]"

definition demo_udp_outside ::
    "(bytes io_result poll list recorded, bytes io_result poll list recorded, nat, nat) outside" where
  "demo_udp_outside = demo_outside\<lparr>ou_events := demo_udp_events\<rparr>"

lemma demo_udp_quiet: "outside_quiet demo_udp_outside"
  using demo_scripts_quiet by (simp add: outside_quiet_def demo_udp_outside_def demo_outside_def demo_udp_events_def)

lemma demo_udp_read:
  "fst (read_trojan_request (recorded_ops scripted_ops) (\<lambda>_. 100) 100 [id, id, id] demo_udp_arrival []) = Request demo_udp_request"
  by code_simp

lemma demo_udp_session:
  assumes "sh_dns sh = 0"
  shows "us_log (snd (snd (snd (handle_udp_associate demo_server (recorded_ops scripted_ops) demo_net [id] demo_udp_events 7
     [1, 8, 8, 8, 8, 0, 53, 0, 2, 13, 10, 1, 2] 0 sh a)))) =
   [Received demo_dns_packet, Sent default_direct_handler demo_dns_route demo_dns_packet 2, Replied demo_dns_reply]"
proof -
  have a: "up_addr demo_dns_packet = IPv4 [8, 8, 8, 8] 53" "up_payload demo_dns_packet = [1, 2]"
    "ur_outbound demo_dns_route = Direct None None"
    by (simp_all add: demo_dns_packet_def demo_dns_route_def)
  have n: "un_dial_udp demo_net default_direct_handler addr w = (Inr 0, Suc w)" "un_write_to demo_net c bs addr w = (Inr (length bs), Suc w)"
    for addr w c bs by (simp_all add: demo_net_def default_direct_handler_def)
  have reply: "acl_addr_to_address \<lparr>aa_host = ''8.8.8.8'', aa_port = 53, aa_resolve_info = None\<rparr> = IPv4 [8, 8, 8, 8] 53"
    by code_simp
  have w: "fst (write_reply (recorded_ops scripted_ops) [id] [id] bs s) = Written" if "bs \<noteq> []" for bs s
    using that by (cases bs) (simp_all add: write_reply_def recorded_sel)
  have e: "udp_encode (IPv4 [8, 8, 8, 8] 53) [5, 6, 7] \<noteq> []" by (simp add: udp_encode_def Let_def)
  obtain s where s: "write_reply (recorded_ops scripted_ops) [id] [id] (udp_encode (IPv4 [8, 8, 8, 8] 53) [5, 6, 7]) a = (Written, s)"
    using w [OF e, of a] by (metis prod.collapse)
  show ?thesis
    by (simp add: demo_udp_events_def handle_udp_associate_def udp_init_def poll_client_def client_arm_def process_packets.simps
        demo_dns_decode handle_packet_def lookup_route_def a assms demo_dns_routed open_direct_def n send_packet_def note_log_def
        udp_arm_def reply s close_client_def demo_dns_reply_def Let_def)
qed

lemma demo_udp_process:
  "case process_connection demo_server (recorded_ops scripted_ops) (recorded_ops scripted_ops) demo_udp_outside Tcp demo_shared demo_udp_arrival of
     (out, sh', a', b', us) \<Rightarrow> \<exists>st. us = Some st \<and>
       us_log st = [Received demo_dns_packet, Sent default_direct_handler demo_dns_route demo_dns_packet 2, Replied demo_dns_reply]"
proof -
  have o: "ou_spare demo_udp_outside = (\<lambda>_. 100)" "ou_scripts demo_udp_outside = demo_scripts" "ou_net demo_udp_outside = demo_net"
    "ou_events demo_udp_outside = demo_udp_events" "ou_world demo_udp_outside = 0" "sc_close demo_scripts = [id]"
    by (simp_all add: demo_udp_outside_def demo_outside_def demo_scripts_def)
  have s: "cc_buffer_size (sv_conn_config demo_server) = 100" "sc_read demo_scripts = [id, id, id]"
    "sv_authenticate demo_server (tr_password demo_udp_request) = Some 7"
    by (simp_all add: demo_server_def demo_scripts_def demo_udp_request_def)
  have c: "tr_cmd demo_udp_request = UdpAssociate" "tr_payload demo_udp_request = [1, 8, 8, 8, 8, 0, 53, 0, 2, 13, 10, 1, 2]"
    by (simp_all add: demo_udp_request_def)
  obtain a1 where r: "read_trojan_request (recorded_ops scripted_ops) (\<lambda>_. 100) 100 [id, id, id] demo_udp_arrival [] = (Request demo_udp_request, a1)"
    using demo_udp_read by (metis prod.collapse)
  have g: "register 7 cm_new = ((1, 0), snd (register 7 cm_new))"
    by (simp add: register_def take_id_def cm_new_def Let_def)
  let ?sh = "stat (Record_Request 7) (demo_shared\<lparr>sh_conn_manager := snd (register 7 cm_new)\<rparr>)"
  have "sh_dns ?sh = 0" by (simp add: stat_def demo_shared_def)
  note u = demo_udp_session [OF this, of a1]
  have m: "sh_conn_manager demo_shared = cm_new" by (simp add: demo_shared_def)
  show ?thesis
    unfolding process_connection_def Let_def o s r prod.case read_outcome.case option.case m
    by (subst g) (use u in \<open>auto simp: run_command_def o c split: prod.splits\<close>)
qed

text \<open>A stream that delivers a request once and then waits, and a session on it that is polled and kicked.\<close>

definition once_ops :: "bool stream_ops" where
  "once_ops =
     \<lparr>poll_read = (\<lambda>fresh n. if fresh then (Ready (Inr (take n demo_wire)), False) else (Pending, False)),
      poll_write = (\<lambda>fresh bs. (Ready (Inr (length bs)), fresh)),
      poll_flush = (\<lambda>fresh. (Ready (Inr ()), fresh)),
      poll_shutdown = (\<lambda>fresh. (Ready (Inr ()), fresh))\<rparr>"

lemma once_read: "read_trojan_request once_ops (\<lambda>_. 100) 100 [id] True [] = (Request demo_request, False)"
  by code_simp

lemma once_within: "reads_within 1 once_ops"
  unfolding reads_within_def bounded_reads_def
  by (rule exI [of _ "\<lambda>fresh. if fresh then 1 else 0"]) (auto simp: once_ops_def split: if_splits)

definition once_outside :: "(bool, bool, nat, nat) outside" where
  "once_outside =
     \<lparr>ou_spare = (\<lambda>_. 100),
      ou_scripts = \<lparr>sc_read = [id], sc_close = [id], sc_write = [id], sc_relay = [Poll 3 0 id id, Cancelled], sc_close_remote = [id], sc_start = 0\<rparr>,
      ou_connect = (\<lambda>_. Dialled True), ou_dial = (\<lambda>_ _. Dial_Timeout), ou_net = demo_net, ou_events = [Kick], ou_world = 0, ou_registry = id\<rparr>"

section \<open>Properties\<close>



text \<open>
  C6: A UDP connection from end to end.  The client's stream is a header of an authenticated user
  followed by packets, those handled in order and then a rest; what reaches the client are the encoded
  replies in order, then at most part of one more whose write failed; and the user is billed exactly
  the bytes the outbound accepted and the payloads of the replies.
\<close>

theorem udp_connection_end_to_end:
  assumes "process_connection sv (recorded_ops A) (recorded_ops B) ou ty sh a = (out, sh', a', b', Some st)"
    and "outside_quiet ou"
  shows "\<exists>pw target u part.
    rc_rx a' = rc_rx a @ header_bytes pw UdpAssociate target @ packets_bytes (received (us_log st)) @ us_read_buf st \<and>
    sv_authenticate sv pw = Some u \<and> b' = None \<and>
    rc_tx a' = rc_tx a @ packets_bytes (replied (us_log st)) @ part \<and> reply_part part \<and>
    uploaded u (sh_stats sh') = uploaded u (sh_stats sh) + sent_total (us_log st) \<and>
    downloaded u (sh_stats sh') = downloaded u (sh_stats sh) + replied_total (us_log st)"
  using assms by (rule process_connection_udp_flow)

theorem udp_connection_end_to_end_witness:
  "case process_connection demo_server (recorded_ops scripted_ops) (recorded_ops scripted_ops) demo_udp_outside Tcp demo_shared demo_udp_arrival of
     (out, sh', a', b', us) \<Rightarrow> \<exists>st part. us = Some st \<and> received (us_log st) = [demo_dns_packet] \<and>
       replied (us_log st) = [demo_dns_reply] \<and> rc_tx a' = udp_bytes demo_dns_reply @ part \<and>
       reply_part part \<and> downloaded 7 (sh_stats sh') = 3"
proof -
  obtain out sh' a' b' us where r: "process_connection demo_server (recorded_ops scripted_ops) (recorded_ops scripted_ops)
      demo_udp_outside Tcp demo_shared demo_udp_arrival = (out, sh', a', b', us)" by (metis prod_cases5)
  then obtain st where st: "us = Some st" "us_log st = [Received demo_dns_packet,
      Sent default_direct_handler demo_dns_route demo_dns_packet 2, Replied demo_dns_reply]"
    using demo_udp_process by auto
  have d: "rc_tx demo_udp_arrival = []" "sh_stats demo_shared = []" "sv_authenticate demo_server pw = Some u \<Longrightarrow> u = 7"
    "length (up_payload demo_dns_reply) = 3" for pw u
    by (simp_all add: demo_udp_arrival_def scripted_remote_def demo_shared_def demo_server_def demo_dns_reply_def split: if_splits)
  from udp_connection_end_to_end [OF r [unfolded st(1)] demo_udp_quiet]
  obtain u part where "rc_tx a' = packets_bytes [demo_dns_reply] @ part" "reply_part part" "downloaded u (sh_stats sh') = 3" "u = 7"
    using d(1,2,4) d(3) by (auto simp: st(2) log_defs)
  then show ?thesis unfolding r prod.case using st by (auto simp: log_defs)
qed

text \<open>
  A kick ends the connection.  Whatever the two streams do and in whatever order polls and events
  come, a connection whose token is cancelled returns and has closed its client: while it relays, and
  in a UDP session.  What this needs is that a stream cannot hand out data for ever without being
  waited for, and that the write of the payload that came with the request comes to an end, since
  the source awaits it outside the \<open>select!\<close>.
\<close>

lemma kicked_connection_ends:
  assumes "process_connection sv A B ou ty sh a = (out, sh', a', b', us)"
    and "Cancelled \<in> set (sc_relay (ou_scripts ou))" "Kick \<in> set (ou_events ou)"
    and "reads_within N A" "reads_within N B" "enough_rounds N (sc_relay (ou_scripts ou))"
    and "\<And>r a1 b. read_trojan_request A (ou_spare ou) (cc_buffer_size (sv_conn_config sv)) (sc_read (ou_scripts ou)) a [] = (Request r, a1) \<Longrightarrow>
      opened (ou_connect ou) (ou_dial ou) b \<Longrightarrow> fst (write_all B (sc_write (ou_scripts ou)) (tr_payload r) b) \<noteq> None"
  shows "(\<exists>res. out = Returned res) \<and> (\<exists>acts. sh_actions sh' = sh_actions sh @ acts \<and> Close_Client \<in> set acts)"
proof -
  have "out \<noteq> Running"
    using assms(1)
  proof (cases rule: process_connection_cases)
    case (panic a1)
    then show ?thesis using read_not_unreachable by (metis fst_conv)
  next
    case (session r a1 u c tok cm1 sh2)
    show ?thesis
    proof (cases "tr_cmd r")
      case Connect
      then have "handle_connect sv A B (ou_scripts ou) (ou_connect ou) (ou_dial ou) ty u (tr_payload r) (tr_addr r)
          (stat (Record_Request u) (sh\<lparr>sh_conn_manager := cm1\<rparr>)) a1 = (out, sh2, a', b')"
        using session(4) by (auto simp: run_command_def split: prod.splits)
      from handle_connect_ends [OF this assms(4,5,2,6) assms(7) [OF session(1)]] show ?thesis .
    next
      case UdpAssociate
      then obtain st where "handle_udp_associate sv A (ou_net ou) (sc_close (ou_scripts ou)) (ou_events ou) u (tr_payload r) (ou_world ou)
          (stat (Record_Request u) (sh\<lparr>sh_conn_manager := cm1\<rparr>)) a1 = (out, sh2, a', st)"
        using session(4) by (auto simp: run_command_def split: prod.splits)
      then show ?thesis
        by (rule handle_udp_associate_loop) (use udp_loop_ends [OF assms(3)] in \<open>metis fst_conv outcome.distinct(1)\<close>)
    qed
  qed simp
  moreover obtain acts where "sh_actions sh' = sh_actions sh @ acts" "count_list acts Close_Client = (if out = Running then 0 else 1)"
    "out \<noteq> Panicked"
    using process_connection_did [OF assms(1)] by blast
  ultimately show ?thesis by (metis count_notin One_nat_def outcome.exhaust zero_neq_one)
qed

text \<open>
  C10: Nothing without credentials.  Unless a complete request with the password of a user was read,
  the connection is closed with an error: no outbound is dialled, no UDP session is opened, nothing
  is registered and nothing is billed.
\<close>

theorem authentication_gate:
  assumes "process_connection sv A B ou ty sh a = (out, sh', a', b', us)"
    and "\<And>r a1. read_trojan_request A (ou_spare ou) (cc_buffer_size (sv_conn_config sv)) (sc_read (ou_scripts ou)) a [] = (Request r, a1)
      \<Longrightarrow> sv_authenticate sv (tr_password r) = None"
  shows "(\<exists>e. out = Returned (Inl e)) \<and> sh' = act Close_Client sh \<and> b' = None \<and> us = None"
  using assms(1)
proof (cases rule: process_connection_cases)
  case (panic a1)
  then show ?thesis using read_not_unreachable by (metis fst_conv)
next
  case (session r a1 u c tok cm1 sh2)
  then show ?thesis using assms(2) [OF session(1)] by simp
qed simp

theorem authentication_gate_witness:
  "fst (snd (process_connection (demo_server\<lparr>sv_authenticate := \<lambda>_. None\<rparr>) (recorded_ops scripted_ops) (recorded_ops scripted_ops)
     demo_outside Tcp demo_shared demo_arrival)) = act Close_Client demo_shared"
proof -
  obtain out sh' a' b' us where r: "process_connection (demo_server\<lparr>sv_authenticate := \<lambda>_. None\<rparr>) (recorded_ops scripted_ops)
      (recorded_ops scripted_ops) demo_outside Tcp demo_shared demo_arrival = (out, sh', a', b', us)" by (metis prod_cases5)
  show ?thesis using authentication_gate [OF r] by (simp add: r)
qed

text \<open>
  C11: The life of a connection.  It never panics; the client is closed exactly once when the handler
  returns; when it returns its identifier is gone from the registry whatever other tasks did in the
  meantime, and if they did nothing both maps of the registry are as they were before.
\<close>

theorem connection_lifecycle:
  assumes "process_connection sv A B ou ty sh a = (out, sh', a', b', us)"
    and "cm_wf (sh_conn_manager sh)"
    and "map_of (connections (sh_conn_manager sh)) (next_conn_id (sh_conn_manager sh)) = None"
    and "\<And>cm. cm_wf cm \<Longrightarrow> cm_wf (ou_registry ou cm)"
  shows "out \<noteq> Panicked \<and>
    (\<exists>acts. sh_actions sh' = sh_actions sh @ acts \<and> count_list acts Close_Client = (if out = Running then 0 else 1)) \<and>
    cm_wf (sh_conn_manager sh') \<and>
    (out \<noteq> Running \<longrightarrow> next_conn_id (sh_conn_manager sh) \<notin> dom (map_of (connections (sh_conn_manager sh')))) \<and>
    (out \<noteq> Running \<longrightarrow> ou_registry ou = id \<longrightarrow>
       map_of (connections (sh_conn_manager sh')) = map_of (connections (sh_conn_manager sh)) \<and>
       user_ids (sh_conn_manager sh') = user_ids (sh_conn_manager sh))"
  using assms(1)
proof (cases rule: process_connection_cases)
  case (panic a1)
  then show ?thesis using read_not_unreachable by (metis fst_conv)
next
  case (refused res a1 e)
  then show ?thesis using assms(2,3) by auto
next
  case (session r a1 u c tok cm1 sh2)
  let ?cm = "ou_registry ou cm1"
  have c: "c = next_conn_id (sh_conn_manager sh)" using register_eqs(1) [OF session(3)] by simp
  obtain acts where d: "did (stat (Record_Request u) (sh\<lparr>sh_conn_manager := cm1\<rparr>)) out sh2 acts"
    using run_command_did [OF session(4)] by blast
  then have cm: "sh_conn_manager sh' = (if out = Running then ?cm else unregister c ?cm)"
    by (simp add: session(5) did_def)
  have wf: "cm_wf cm1" "cm_wf ?cm" using register_wf [OF assms(2,3) session(3)] assms(4) by auto
  have "cm_wf (sh_conn_manager sh')" using wf(2) unregister_wf [OF wf(2)] by (simp add: cm)
  moreover have "c \<notin> dom (map_of (connections (unregister c ?cm)))" by (simp add: dom_def unregister_gone)
  moreover have "map_of (connections (unregister c cm1)) = map_of (connections (sh_conn_manager sh)) \<and>
      user_ids (unregister c cm1) = user_ids (sh_conn_manager sh)"
    using unregister_register [OF assms(2,3) session(3)] by simp
  ultimately show ?thesis using d by (auto simp: did_def session(5) cm c)
qed

theorem connection_lifecycle_witness:
  "1 \<notin> dom (map_of (connections (unregister 1 (snd (register 7 cm_new))))) \<and>
   user_ids (unregister 1 (snd (register 7 cm_new))) = user_ids cm_new"
proof -
  have w: "cm_wf (sh_conn_manager demo_shared)"
    "map_of (connections (sh_conn_manager demo_shared)) (next_conn_id (sh_conn_manager demo_shared)) = None"
    by (simp_all add: demo_shared_def cm_wf_def cm_new_def user_ids_def)
  have i: "cm_wf (ou_registry demo_outside cm)" if "cm_wf cm" for cm using that by (simp add: demo_outside_def)
  show ?thesis
    using connection_lifecycle [OF demo_process w i] by (simp add: demo_outside_def demo_shared_def cm_new_def)
qed

end
