(* ===== verification/Stream_Calls.thy ===== *)
theory Stream_Calls
  imports Transport
begin

text \<open>
  Sequences of calls on a stream, for properties of a transport that hold whoever calls it.  An
  invariant that every call keeps holds after every sequence of calls; one that only the calls
  without an error keep holds until the first error.
\<close>

section \<open>Shared lemmas\<close>

lemma take_drop_append: "take m p @ drop m p @ c = p @ c"
  by (metis append_assoc append_take_drop_id)

lemma drop_step_append: "take n (drop p b) @ drop (p + n) b @ c = drop p b @ c"
  by (metis add.commute drop_drop take_drop_append)

lemma next_cases [case_names pending finished failed got]:
  fixes q :: "('e + 'a) option poll"
  obtains "q = Pending" | "q = Ready None" | e where "q = Ready (Some (Inl e))" | m where "q = Ready (Some (Inr m))"
proof (cases q)
  case (Ready x)
  then show thesis using that by (cases x; cases "the x") auto
qed (use that in blast)

section \<open>Calls\<close>

datatype stream_call = Read_Call nat | Write_Call bytes | Flush_Call | Shutdown_Call

fun poll_failed :: "'a io_result poll \<Rightarrow> bool" where
  "poll_failed (Ready (Inl e)) \<longleftrightarrow> True"
| "poll_failed _ \<longleftrightarrow> False"

lemma poll_failed_simps [simp]: "\<not> poll_failed (Ready (Inr x))" "\<not> poll_failed Pending"
  by simp_all

text \<open>Whether a call returned an error, and the state after it.\<close>

fun call :: "'s stream_ops \<Rightarrow> stream_call \<Rightarrow> 's \<Rightarrow> bool \<times> 's" where
  "call ops (Read_Call n) s = apfst poll_failed (poll_read ops s n)"
| "call ops (Write_Call bs) s = apfst poll_failed (poll_write ops s bs)"
| "call ops Flush_Call s = apfst poll_failed (poll_flush ops s)"
| "call ops Shutdown_Call s = apfst poll_failed (poll_shutdown ops s)"

primrec calls :: "'s stream_ops \<Rightarrow> stream_call list \<Rightarrow> 's \<Rightarrow> 's" where
  "calls ops [] s = s"
| "calls ops (c # cs) s = calls ops cs (snd (call ops c s))"

text \<open>\<open>None\<close> once a call returned an error.\<close>

primrec clean_calls :: "'s stream_ops \<Rightarrow> stream_call list \<Rightarrow> 's \<Rightarrow> 's option" where
  "clean_calls ops [] s = Some s"
| "clean_calls ops (c # cs) s = (case call ops c s of (failed, s') \<Rightarrow> if failed then None else clean_calls ops cs s')"

locale clean_invariant =
  fixes ops :: "'s stream_ops" and I :: "'s \<Rightarrow> bool"
  assumes call_keeps: "I s \<Longrightarrow> call ops c s = (False, s') \<Longrightarrow> I s'"
begin

lemma clean_calls_keep: "clean_calls ops cs s = Some s' \<Longrightarrow> I s \<Longrightarrow> I s'"
  by (induction cs arbitrary: s) (auto split: prod.splits if_splits intro: call_keeps)

end

locale call_invariant =
  fixes ops :: "'s stream_ops" and I :: "'s \<Rightarrow> bool"
  assumes read_keeps: "I s \<Longrightarrow> poll_read ops s n = (r, s') \<Longrightarrow> I s'"
    and write_keeps: "I s \<Longrightarrow> poll_write ops s bs = (w, s') \<Longrightarrow> I s'"
    and flush_keeps: "I s \<Longrightarrow> poll_flush ops s = (f, s') \<Longrightarrow> I s'"
    and shutdown_keeps: "I s \<Longrightarrow> poll_shutdown ops s = (f, s') \<Longrightarrow> I s'"
begin

lemma any_call_keeps: "I s \<Longrightarrow> I (snd (call ops c s))"
  by (cases c)
     (auto simp: apfst_def map_prod_def split: prod.splits intro: read_keeps write_keeps flush_keeps shutdown_keeps)

lemma calls_keep: "I s \<Longrightarrow> I (calls ops cs s)"
  by (induction cs arbitrary: s) (auto intro: any_call_keeps)

end

sublocale call_invariant \<subseteq> clean_invariant
  by unfold_locales (metis any_call_keeps snd_conv)

end
