(* ===== verification/Client_Stream.thy ===== *)
theory Client_Stream
  imports Handler Stream_Calls
begin

text \<open>
  A transport under a connection.  What every poll of a transport keeps, a whole connection keeps:
  the reading of the request, the relay in both directions behind \<open>NoHalfClose\<close>, and the close.  With
  it an invariant of a transport, proved for single calls, speaks of \<open>process_connection\<close>.
\<close>

section \<open>A relay\<close>

interpretation any_calls: call_invariant ops "\<lambda>_. True" for ops :: "'s stream_ops"
  by unfold_locales simp_all

context call_invariant
begin

lemma no_half_close_keeps: "call_invariant (no_half_close_ops ops) (\<lambda>s. I (nh_inner s))"
  by unfold_locales
     (auto simp: no_half_close_ops_def split: prod.splits if_splits
       intro: read_keeps write_keeps flush_keeps shutdown_keeps)

lemma probe_read_keeps: "probe_read ops db s = (f, db', s') \<Longrightarrow> I s \<Longrightarrow> I s'"
  by (auto simp: probe_read_def Let_def split: if_splits prod.splits poll.splits sum.splits intro: read_keeps)

lemma read_step_keeps: "read_step ops db s = (f, db', s') \<Longrightarrow> I s \<Longrightarrow> I s'"
  by (auto simp: read_step_def Let_def split: if_splits prod.splits poll.splits sum.splits intro: read_keeps)

lemma flush_step_keeps: "flush_step ops db s = (f, db', s') \<Longrightarrow> I s \<Longrightarrow> I s'"
  by (auto simp: flush_step_def split: prod.splits poll.splits sum.splits intro: flush_keeps)

lemma shutdown_step_keeps: "shutdown_step ops db s = (f, db', s') \<Longrightarrow> I s \<Longrightarrow> I s'"
  by (auto simp: shutdown_step_def split: prod.splits poll.splits intro: shutdown_keeps)

end

locale invariant_pair = reader: call_invariant R IR + writer: call_invariant W IW
  for R :: "'r stream_ops" and IR and W :: "'w stream_ops" and IW
begin

lemma write_buffered_keeps:
  "write_buffered R W db sr sw = (f, db', sr', sw') \<Longrightarrow> IR sr \<Longrightarrow> IW sw \<Longrightarrow> IR sr' \<and> IW sw'"
proof (induction "db_cap db - db_pos db" arbitrary: db sw rule: less_induct)
  case less
  obtain q sw1 where q: "poll_write W sw (unwritten db) = (q, sw1)" by fastforce
  have w: "IW sw1" by (rule writer.write_keeps [OF less.prems(3) q])
  show ?case
  proof (cases "\<exists>i. 0 < i \<and> db_pos db < db_cap db \<and> q = Ready (Inr i)")
    case True
    then obtain i where i: "0 < i" "db_pos db < db_cap db" "q = Ready (Inr i)" by blast
    show ?thesis
      by (rule less.hyps [OF _ _ less.prems(2) w])
         (use less.prems(1) i q in \<open>auto simp: write_buffered.simps [of R W db]\<close>)
  next
    case False
    then have "q = Ready (Inr i) \<Longrightarrow> db_pos db < db_cap db \<Longrightarrow> i = 0" for i by auto
    then show ?thesis
      using less.prems q w
      by (auto simp: write_buffered.simps [of R W db] split: if_splits poll.splits sum.splits prod.splits
          dest: reader.probe_read_keeps)
  qed
qed

lemma copy_round_keeps:
  assumes "copy_round R W db sr sw = (f, db', sr', sw')" "IR sr" "IW sw"
  shows "IR sr' \<and> IW sw'"
proof -
  obtain f1 db1 sr1 sw1 where 1: "write_buffered R W db sr sw = (f1, db1, sr1, sw1)" by (metis prod_cases4)
  obtain f2 db2 sw2 where 2: "flush_step W db1 sw1 = (f2, db2, sw2)" by (metis prod_cases3)
  have k: "IR sr1" "IW sw1" "IW sw2"
    using write_buffered_keeps [OF 1] writer.flush_step_keeps [OF 2] assms(2,3) by auto
  show ?thesis
    using assms(1) 1 2 k
    by (auto simp: copy_round_def split: flow.splits if_splits prod.splits
        dest: writer.shutdown_step_keeps reader.read_step_keeps)
qed

lemma copy_loop_keeps:
  "copy_loop fuel R W db sr sw = Some (r, db', sr', sw') \<Longrightarrow> IR sr \<Longrightarrow> IW sw \<Longrightarrow> IR sr' \<and> IW sw'"
proof (induction fuel arbitrary: db sr sw)
  case (Suc fuel)
  obtain f db1 sr1 sw1 where 1: "copy_round R W db sr sw = (f, db1, sr1, sw1)" by (metis prod_cases4)
  then show ?case using Suc copy_round_keeps [OF 1] by (cases f) auto
qed simp

lemma poll_direction_keeps:
  "poll_direction fuel R W db sr sw = Some (r, db', sr', sw') \<Longrightarrow> IR sr \<Longrightarrow> IW sw \<Longrightarrow> IR sr' \<and> IW sw'"
  by (auto simp: poll_direction_def poll_copy_def split: if_splits dest: copy_loop_keeps)

end

text \<open>The two directions of a relay are a pair and its reverse.\<close>

sublocale invariant_pair \<subseteq> flipped: invariant_pair W IW R IR
  by unfold_locales

context invariant_pair
begin

lemma relay_poll_keeps:
  assumes "relay_poll fuel R W cfg now st a b = Some (r, st', a', b')" "IR a" "IW b"
  shows "IR a' \<and> IW b'"
proof -
  obtain ra ab a1 b1 where 1: "poll_direction fuel R W (rl_a_to_b st) a b = Some (ra, ab, a1, b1)"
    using assms(1) by (auto simp: relay_poll_def Let_def split: option.splits)
  note k1 = poll_direction_keeps [OF 1 assms(2,3)]
  show ?thesis
  proof (cases "\<exists>e. ra = Ready (Inl e)")
    case True
    then show ?thesis using assms(1) 1 k1 by (auto simp: relay_poll_def Let_def)
  next
    case False
    then obtain rb ba a2 b2 where 2: "poll_direction fuel W R (rl_b_to_a st) b1 a1 = Some (rb, ba, b2, a2)"
      using assms(1) 1 by (auto simp: relay_poll_def Let_def split: option.splits poll.splits sum.splits)
    have "a' = a2 \<and> b' = b2"
      using assms(1) 1 2 False by (auto simp: relay_poll_def Let_def split: poll.splits sum.splits prod.splits)
    then show ?thesis using flipped.poll_direction_keeps [OF 2] k1 by simp
  qed
qed

end

section \<open>A connection\<close>

text \<open>A change from outside that keeps an invariant of the stream.\<close>

definition keeps :: "('s \<Rightarrow> bool) \<Rightarrow> ('s \<Rightarrow> 's) list \<Rightarrow> bool" where
  "keeps I script \<longleftrightarrow> (\<forall>env \<in> set script. \<forall>s. I s \<longrightarrow> I (env s))"

definition relay_keeps :: "('a \<Rightarrow> bool) \<Rightarrow> ('a, 'b) relay_event list \<Rightarrow> bool" where
  "relay_keeps I evs \<longleftrightarrow> (\<forall>fuel now env_a env_b. Poll fuel now env_a env_b \<in> set evs \<longrightarrow> (\<forall>s. I s \<longrightarrow> I (env_a s)))"

definition client_keeps :: "('a \<Rightarrow> bool) \<Rightarrow> ('a, 'b) scripts \<Rightarrow> bool" where
  "client_keeps I sc \<longleftrightarrow> keeps I (sc_read sc) \<and> keeps I (sc_close sc) \<and> relay_keeps (\<lambda>s. I (nh_inner s)) (sc_relay sc)"

definition udp_keeps :: "('a \<Rightarrow> bool) \<Rightarrow> ('a, 'w) udp_event list \<Rightarrow> bool" where
  "udp_keeps I evs \<longleftrightarrow> (\<forall>e \<in> set evs. keeps I (client_scripts e))"

definition outside_keeps :: "('a \<Rightarrow> bool) \<Rightarrow> ('a, 'b, 'c, 'w) outside \<Rightarrow> bool" where
  "outside_keeps I ou \<longleftrightarrow> client_keeps I (ou_scripts ou) \<and> udp_keeps I (ou_events ou)"

lemma keeps_simps [simp]:
  "keeps I []" "keeps I (env # script) \<longleftrightarrow> (\<forall>s. I s \<longrightarrow> I (env s)) \<and> keeps I script"
  "keeps I (xs @ ys) \<longleftrightarrow> keeps I xs \<and> keeps I ys"
  by (auto simp: keeps_def)

lemma relay_keeps_simps [simp]:
  "relay_keeps I []" "relay_keeps I (Cancelled # evs) = relay_keeps I evs"
  "relay_keeps I (Poll fuel now env_a env_b # evs) \<longleftrightarrow> (\<forall>s. I s \<longrightarrow> I (env_a s)) \<and> relay_keeps I evs"
  unfolding relay_keeps_def list.set insert_iff by (blast+)

context call_invariant
begin

lemma await_shutdown_keeps: "keeps I script \<Longrightarrow> I s \<Longrightarrow> I (await_shutdown ops script s)"
  by (induction script arbitrary: s) (auto split: prod.splits poll.splits dest: shutdown_keeps)

lemma close_client_keeps: "close_client ops script (sh, s) = (sh', s') \<Longrightarrow> keeps I script \<Longrightarrow> I s \<Longrightarrow> I s'"
  by (auto simp: close_client_def await_shutdown_keeps)

lemma read_trojan_request_keeps:
  "read_trojan_request ops spare n script s buf = (res, s') \<Longrightarrow> keeps I script \<Longrightarrow> I s \<Longrightarrow> I s'"
proof (induction script arbitrary: s buf)
  case Nil
  then show ?case by (auto simp: read_trojan_request.simps [of ops spare n "[]"] split: option.splits)
next
  case (Cons env script)
  obtain q s1 where q: "poll_read ops (env s) (spare buf) = (q, s1)" by fastforce
  have "I s1" using Cons.prems by (auto intro: read_keeps [OF _ q])
  then show ?case
    using Cons q
    by (auto simp: read_trojan_request.simps [of ops spare n "env # script"] Let_def
        split: option.splits poll.splits sum.splits if_splits)
qed

lemma write_all_keeps: "write_all ops script bs s = (r, s') \<Longrightarrow> keeps I script \<Longrightarrow> I s \<Longrightarrow> I s'"
proof (induction script arbitrary: bs s)
  case Nil
  then show ?case by (cases bs) auto
next
  case (Cons env script)
  obtain q s1 where q: "poll_write ops (env s) bs = (q, s1)" by fastforce
  have "I s1" using Cons.prems(2,3) by (auto intro: write_keeps [OF _ q])
  then show ?case using Cons q by (cases bs) (auto split: poll.splits sum.splits if_splits)
qed

lemma await_flush_keeps: "await_flush ops script s = (r, s') \<Longrightarrow> keeps I script \<Longrightarrow> I s \<Longrightarrow> I s'"
  by (induction script arbitrary: s) (auto split: prod.splits poll.splits dest: flush_keeps)

lemma write_reply_keeps:
  "write_reply ops writes flushes bs s = (r, s') \<Longrightarrow> keeps I writes \<Longrightarrow> keeps I flushes \<Longrightarrow> I s \<Longrightarrow> I s'"
  by (auto simp: write_reply_def split: prod.splits option.splits sum.splits dest: write_all_keeps await_flush_keeps)

lemma udp_arm_keeps:
  assumes "udp_arm ops net u result writes flushes passed st s = (left, st', s')" "keeps I writes" "keeps I flushes" "I s"
  shows "I s'"
  using assms(1) by (cases rule: udp_arm_cases) (use assms(2-) write_reply_keeps in auto)

lemma udp_step_keeps:
  assumes "udp_step sv ops net u e st s = (left, st', s')" "keeps I (client_scripts e)" "I s"
  shows "I s'"
proof (cases e)
  case (Client env spare)
  have i: "I (env s)" using assms(2,3) Client by simp
  then have "I (snd (poll_client ops spare st (env s)))"
    by (auto simp: poll_client_def split: prod.splits poll.splits sum.splits dest: read_keeps)
  then show ?thesis using assms(1) Client by (auto split: prod.splits poll.splits)
next
  case (Datagram result writes flushes passed)
  then show ?thesis using udp_arm_keeps [of net u result writes flushes passed st s] assms by simp
qed (use assms in \<open>auto split: prod.splits\<close>)

lemma udp_loop_keeps:
  "udp_loop sv ops net u evs st s = (left, st', s') \<Longrightarrow> udp_keeps I evs \<Longrightarrow> I s \<Longrightarrow> I s'"
proof (induction evs arbitrary: st s)
  case (Cons e evs)
  obtain l st1 s1 where x: "udp_step sv ops net u e st s = (l, st1, s1)" by (metis prod_cases3)
  have "I s1" using udp_step_keeps [OF x] Cons.prems(2,3) by (simp add: udp_keeps_def)
  then show ?case using Cons x by (cases l) (auto simp: udp_keeps_def)
qed simp

lemma handle_udp_associate_keeps:
  assumes "handle_udp_associate sv ops net script evs u payload w sh s = (out, sh', s', st)"
    and "udp_keeps I evs" "keeps I script" "I s"
  shows "I s'"
  using assms(1)
proof (rule handle_udp_associate_loop)
  fix left a1
  assume l: "udp_loop sv ops net u evs (udp_init payload (sh_dns sh) (sh_stats sh) w) s = (left, st, a1)"
    and "s' = (if left then await_shutdown ops script a1 else a1)"
  then show "I s'" using udp_loop_keeps [OF l] await_shutdown_keeps assms(2-) by simp
qed

lemma drive_relay_keeps:
  "drive_relay ops B cfg evs st a b = (e, st', a', b') \<Longrightarrow> relay_keeps I evs \<Longrightarrow> I a \<Longrightarrow> I a'"
proof (induction evs arbitrary: st a b)
  case (Cons ev evs)
  have pair: "invariant_pair ops I B (\<lambda>_. True)" by unfold_locales
  show ?case
  proof (cases ev)
    case (Poll fuel now env_a env_b)
    have i: "I (env_a a)" using Cons.prems(2,3) Poll by simp
    from Cons.prems(1) [unfolded Poll] show ?thesis
    proof (cases rule: drive_relay_Poll)
      case (pend st1 a1 b1)
      then show ?thesis
        using Cons.IH [OF pend(2)] invariant_pair.relay_poll_keeps [OF pair pend(1) i] Cons.prems(2) Poll by simp
    next
      case (fin r st1)
      then show ?thesis using invariant_pair.relay_poll_keeps [OF pair fin(1) i] by simp
    qed (use i in simp)
  qed (use Cons.prems in simp)
qed simp

end

lemma ctx_relay_keeps:
  assumes "call_invariant A I" and "ctx_relay sv A B sc ty u payload sh a b = (out, sh', a', b')"
    and "client_keeps I sc" "I a"
  shows "I a'"
proof -
  note nhc = call_invariant.no_half_close_keeps [OF assms(1)]
  note close = call_invariant.await_shutdown_keeps [OF assms(1)]
  obtain w b1 where w: "write_all B (sc_write sc) payload b = (w, b1)" by fastforce
  let ?cfg = "relay_cfg (sv_conn_config sv) u"
  let ?sh = "if payload \<noteq> [] then stat (Record_Upload u (length payload)) sh else sh"
  obtain e st c b2 where d: "drive_relay (no_half_close_ops A) B ?cfg (sc_relay sc)
      (relay_init ?cfg (sc_start sc) (cc_buffer_size (sv_conn_config sv)) (sh_stats ?sh))
      \<lparr>nh_inner = a, nh_half_close = half_close ty\<rparr> b1 = (e, st, c, b2)" by (metis prod_cases4)
  have c: "I (nh_inner c)"
    using call_invariant.drive_relay_keeps [OF nhc d] assms(3,4) by (simp add: client_keeps_def)
  show ?thesis
    using assms(2-4) w d c close
    by (auto simp: ctx_relay_def close_client_def client_keeps_def Let_def
        split: option.splits sum.splits relay_end.splits if_splits)
qed

lemma relay_or_fail_keeps:
  assumes "call_invariant A I" and "relay_or_fail sv A B sc ty u payload remote sh a = (out, sh', a', b')"
    and "client_keeps I sc" "I a"
  shows "I a'"
proof (cases remote)
  case (Inl e)
  then show ?thesis
    using assms(2-) call_invariant.close_client_keeps [OF assms(1)]
    by (auto simp: relay_or_fail_def client_keeps_def split: prod.splits)
next
  case (Inr b)
  then show ?thesis using assms(2) ctx_relay_keeps [OF assms(1) _ assms(3,4)] by (auto simp: relay_or_fail_def split: prod.splits)
qed

lemma handle_connect_keeps:
  assumes "call_invariant A I" and "handle_connect sv A B sc connect dial ty u payload target sh a = (out, sh', a', b')"
    and "client_keeps I sc" "I a"
  shows "I a'"
  using assms(2)
proof (cases rule: handle_connect_cases)
  case rejected
  then show ?thesis using call_invariant.await_shutdown_keeps [OF assms(1)] assms(3,4) by (simp add: client_keeps_def)
next
  case (attempt remote sh1)
  show ?thesis by (rule relay_or_fail_keeps [OF assms(1) attempt(1) assms(3,4)])
qed

lemma process_connection_keeps:
  assumes "call_invariant A I" and "process_connection sv A B ou ty sh a = (out, sh', a', b', us)"
    and "outside_keeps I ou" "I a"
  shows "I a'"
  using assms(2)
proof (cases rule: process_connection_cases)
  case (panic a1)
  then show ?thesis using read_not_unreachable by (metis fst_conv)
next
  case (refused res a1 e)
  then show ?thesis
    using call_invariant.read_trojan_request_keeps [OF assms(1) refused(1)] call_invariant.await_shutdown_keeps [OF assms(1)] assms(3,4)
    by (simp add: outside_keeps_def client_keeps_def)
next
  case (session r a1 u c tok cm1 sh2)
  have a1: "I a1"
    using call_invariant.read_trojan_request_keeps [OF assms(1) session(1)] assms(3,4) by (simp add: outside_keeps_def client_keeps_def)
  show ?thesis
  proof (cases "tr_cmd r")
    case Connect
    then show ?thesis
      using session(4) handle_connect_keeps [OF assms(1) _ _ a1] assms(3) by (auto simp: run_command_def outside_keeps_def split: prod.splits)
  next
    case UdpAssociate
    then show ?thesis
      using session(4) call_invariant.handle_udp_associate_keeps [OF assms(1)] assms(3) a1
      by (auto simp: run_command_def outside_keeps_def client_keeps_def split: prod.splits)
  qed
qed

end
