(* ===== verification/Ws.thy ===== *)
theory Ws
  imports Stream_Calls
begin

text \<open>
  \<open>src/src/transport/ws.rs\<close>: the WebSocket transport and its handshake.

  The WebSocket library is the parameter \<open>tungstenite\<close>, a state with the four polls the transport
  makes.  What the peer and the network do is part of that state, so a theorem for every state and
  every such record holds for every behaviour of the peer.  The read loop, which skips messages
  without data, takes fuel: a poll that runs out of it has not returned.  The percent decoder, the
  base64 decoder and the header conversion of the handshake are parameters as well.
\<close>

section \<open>The library underneath\<close>

datatype ws_message = Text bytes | Binary bytes | Ping bytes | Pong bytes | Close | Frame bytes

datatype ws_error = ConnectionClosed | AlreadyClosed | Ws_Error string

record 't tungstenite =
  tg_poll_next :: "'t \<Rightarrow> (ws_error + ws_message) option poll \<times> 't"
  tg_poll_ready :: "'t \<Rightarrow> (ws_error + unit) poll \<times> 't"
  tg_start_send :: "'t \<Rightarrow> ws_message \<Rightarrow> (ws_error + unit) \<times> 't"
  tg_poll_flush :: "'t \<Rightarrow> (ws_error + unit) poll \<times> 't"

section \<open>The transport\<close>

record 't ws_transport =
  ws_stream :: 't
  ws_read_buffer :: bytes
  ws_read_pos :: nat
  ws_read_closed :: bool
  ws_write_closed :: bool

definition with_early_data :: "'t \<Rightarrow> bytes \<Rightarrow> 't ws_transport" where
  "with_early_data stream early =
     \<lparr>ws_stream = stream, ws_read_buffer = early, ws_read_pos = 0, ws_read_closed = False, ws_write_closed = False\<rparr>"

text \<open>The loop of \<open>poll_read\<close>; \<open>None\<close> while it goes round.\<close>

fun ws_read_loop ::
    "nat \<Rightarrow> 't tungstenite \<Rightarrow> 't ws_transport \<Rightarrow> nat \<Rightarrow> bytes io_result poll option \<times> 't ws_transport" where
  "ws_read_loop 0 T self remaining = (None, self)"
| "ws_read_loop (Suc fuel) T self remaining =
     (case tg_poll_next T (ws_stream self) of (r, t) \<Rightarrow>
        let self = self\<lparr>ws_stream := t\<rparr> in
        case r of
          Ready (Some (Inr (Binary data))) \<Rightarrow>
            if data = [] then ws_read_loop fuel T self remaining
            else
              let to_copy = min (length data) remaining in
              (Some (Ready (Inr (take to_copy data))),
               if to_copy < length data then self\<lparr>ws_read_buffer := drop to_copy data, ws_read_pos := 0\<rparr> else self)
        | Ready (Some (Inr Close)) \<Rightarrow> (Some (Ready (Inr [])), self\<lparr>ws_read_closed := True\<rparr>)
        | Ready (Some (Inl e)) \<Rightarrow>
            (Some (Ready
               (case e of
                  ConnectionClosed \<Rightarrow> Inr []
                | AlreadyClosed \<Rightarrow> Inr []
                | Ws_Error m \<Rightarrow> Inl (Io_Error ConnectionReset (''WebSocket read error: '' @ m)))),
             self\<lparr>ws_read_closed := True\<rparr>)
        | Ready (Some (Inr _)) \<Rightarrow> ws_read_loop fuel T self remaining
        | Ready None \<Rightarrow> (Some (Ready (Inr [])), self\<lparr>ws_read_closed := True\<rparr>)
        | Pending \<Rightarrow> (Some Pending, self))"

definition ws_poll_read ::
    "nat \<Rightarrow> 't tungstenite \<Rightarrow> 't ws_transport \<Rightarrow> nat \<Rightarrow> bytes io_result poll option \<times> 't ws_transport" where
  "ws_poll_read fuel T self remaining =
     (if ws_read_closed self then (Some (Ready (Inr [])), self)
      else if ws_read_pos self < length (ws_read_buffer self) then
        let rest = drop (ws_read_pos self) (ws_read_buffer self);
            to_copy = min (length rest) remaining;
            pos = ws_read_pos self + to_copy in
        (Some (Ready (Inr (take to_copy rest))),
         if pos \<ge> length (ws_read_buffer self) then self\<lparr>ws_read_buffer := [], ws_read_pos := 0\<rparr>
         else self\<lparr>ws_read_pos := pos\<rparr>)
      else ws_read_loop fuel T self remaining)"

definition ws_poll_write :: "'t tungstenite \<Rightarrow> 't ws_transport \<Rightarrow> bytes \<Rightarrow> nat io_result poll \<times> 't ws_transport" where
  "ws_poll_write T self buf =
     (if ws_write_closed self \<or> ws_read_closed self then (Ready (Inl (Io_Error BrokenPipe ''WebSocket closed'')), self)
      else
        (case tg_poll_ready T (ws_stream self) of
           (Ready (Inr _), t) \<Rightarrow>
             (case tg_start_send T t (Binary buf) of
                (Inl _, t) \<Rightarrow> (Ready (Inl (Io_Error BrokenPipe ''WebSocket send error'')), self\<lparr>ws_stream := t\<rparr>)
              | (Inr _, t) \<Rightarrow> (Ready (Inr (length buf)), self\<lparr>ws_stream := t\<rparr>))
         | (Ready (Inl _), t) \<Rightarrow> (Ready (Inl (Io_Error BrokenPipe ''WebSocket error'')), self\<lparr>ws_stream := t\<rparr>)
         | (Pending, t) \<Rightarrow> (Pending, self\<lparr>ws_stream := t\<rparr>)))"

definition ws_poll_flush :: "'t tungstenite \<Rightarrow> 't ws_transport \<Rightarrow> unit io_result poll \<times> 't ws_transport" where
  "ws_poll_flush T self =
     (case tg_poll_flush T (ws_stream self) of (r, t) \<Rightarrow>
        (case r of
           Ready (Inl ConnectionClosed) \<Rightarrow> Ready (Inr ())
         | Ready (Inl AlreadyClosed) \<Rightarrow> Ready (Inr ())
         | Ready (Inl (Ws_Error m)) \<Rightarrow> Ready (Inl (Io_Error BrokenPipe (''WebSocket flush error: '' @ m)))
         | Ready (Inr _) \<Rightarrow> Ready (Inr ())
         | Pending \<Rightarrow> Pending,
         self\<lparr>ws_stream := t\<rparr>))"

definition ws_poll_shutdown :: "'t tungstenite \<Rightarrow> 't ws_transport \<Rightarrow> unit io_result poll \<times> 't ws_transport" where
  "ws_poll_shutdown T self =
     (if ws_write_closed self then ws_poll_flush T self
      else
        (case tg_poll_ready T (ws_stream self) of
           (Ready (Inr _), t) \<Rightarrow>
             ws_poll_flush T (self\<lparr>ws_stream := snd (tg_start_send T t Close), ws_write_closed := True\<rparr>)
         | (Ready (Inl _), t) \<Rightarrow> ws_poll_flush T (self\<lparr>ws_stream := t, ws_write_closed := True\<rparr>)
         | (Pending, t) \<Rightarrow> (Pending, self\<lparr>ws_stream := t\<rparr>)))"

text \<open>The transport as a stream: a read that has not returned is not ready.\<close>

definition ws_ops :: "nat \<Rightarrow> 't tungstenite \<Rightarrow> 't ws_transport stream_ops" where
  "ws_ops fuel T =
     \<lparr>poll_read = (\<lambda>self n. case ws_poll_read fuel T self n of (Some r, self') \<Rightarrow> (r, self') | (None, self') \<Rightarrow> (Pending, self')),
      poll_write = ws_poll_write T, poll_flush = ws_poll_flush T, poll_shutdown = ws_poll_shutdown T\<rparr>"

section \<open>The handshake\<close>

definition MAX_EARLY_DATA :: nat where "MAX_EARLY_DATA = 16 * 1024"

record ws_request =
  wr_path :: string
  wr_protocol :: "bytes option"

datatype ws_handshake = Handshake_Reject nat | Handshake_Accept (hs_early: bytes) (hs_protocol: "bytes option")

text \<open>The callback of \<open>accept\<close>: the status of a rejection, or the early data and the header echoed.\<close>

definition ws_callback ::
    "(string \<Rightarrow> string) \<Rightarrow> (bytes \<Rightarrow> string option) \<Rightarrow> (string \<Rightarrow> bytes option) \<Rightarrow> string \<Rightarrow> ws_request \<Rightarrow> ws_handshake" where
  "ws_callback percent_decode to_str base64_decode expected req =
     (if percent_decode (wr_path req) \<noteq> expected then Handshake_Reject 404
      else
        (case wr_protocol req of
           None \<Rightarrow> Handshake_Accept [] None
         | Some proto \<Rightarrow>
             let decoded =
               (case to_str proto of
                  None \<Rightarrow> None
                | Some s \<Rightarrow>
                    if s = [] then None
                    else (case base64_decode s of None \<Rightarrow> None | Some b \<Rightarrow> if b = [] then None else Some b)) in
             (case decoded of
                None \<Rightarrow> Handshake_Accept [] None
              | Some bs \<Rightarrow>
                  if length bs > MAX_EARLY_DATA then Handshake_Reject 413 else Handshake_Accept bs (Some proto))))"

definition ws_accept ::
    "(string \<Rightarrow> string) \<Rightarrow> (bytes \<Rightarrow> string option) \<Rightarrow> (string \<Rightarrow> bytes option) \<Rightarrow> string \<Rightarrow> ws_request \<Rightarrow> 't \<Rightarrow> (nat + 't ws_transport)" where
  "ws_accept percent_decode to_str base64_decode expected_path req stream =
     (case ws_callback percent_decode to_str base64_decode expected_path req of
        Handshake_Reject status \<Rightarrow> Inl status
      | Handshake_Accept early _ \<Rightarrow> Inr (with_early_data stream early))"

section \<open>Histories\<close>

text \<open>The messages the library handed over and those it took, as a log around any library state.\<close>

record 't logged =
  lg_inner :: 't
  lg_received :: "ws_message list"
  lg_sent :: "ws_message list"

definition logged_ops :: "'t tungstenite \<Rightarrow> 't logged tungstenite" where
  "logged_ops T =
     \<lparr>tg_poll_next = (\<lambda>s. case tg_poll_next T (lg_inner s) of (r, i) \<Rightarrow>
          (r, s\<lparr>lg_inner := i,
               lg_received := lg_received s @ (case r of Ready (Some (Inr m)) \<Rightarrow> [m] | _ \<Rightarrow> [])\<rparr>)),
      tg_poll_ready = (\<lambda>s. case tg_poll_ready T (lg_inner s) of (r, i) \<Rightarrow> (r, s\<lparr>lg_inner := i\<rparr>)),
      tg_start_send = (\<lambda>s m. case tg_start_send T (lg_inner s) m of (r, i) \<Rightarrow>
          (r, s\<lparr>lg_inner := i, lg_sent := lg_sent s @ (case r of Inr _ \<Rightarrow> [m] | _ \<Rightarrow> [])\<rparr>)),
      tg_poll_flush = (\<lambda>s. case tg_poll_flush T (lg_inner s) of (r, i) \<Rightarrow> (r, s\<lparr>lg_inner := i\<rparr>))\<rparr>"

lemma logged_ops_sel:
  "tg_poll_next (logged_ops T) s = (case tg_poll_next T (lg_inner s) of (r, i) \<Rightarrow>
     (r, s\<lparr>lg_inner := i, lg_received := lg_received s @ (case r of Ready (Some (Inr m)) \<Rightarrow> [m] | _ \<Rightarrow> [])\<rparr>))"
  "tg_poll_ready (logged_ops T) s = (case tg_poll_ready T (lg_inner s) of (r, i) \<Rightarrow> (r, s\<lparr>lg_inner := i\<rparr>))"
  "tg_start_send (logged_ops T) s m = (case tg_start_send T (lg_inner s) m of (r, i) \<Rightarrow>
     (r, s\<lparr>lg_inner := i, lg_sent := lg_sent s @ (case r of Inr _ \<Rightarrow> [m] | _ \<Rightarrow> [])\<rparr>))"
  "tg_poll_flush (logged_ops T) s = (case tg_poll_flush T (lg_inner s) of (r, i) \<Rightarrow> (r, s\<lparr>lg_inner := i\<rparr>))"
  by (simp_all add: logged_ops_def)

fun ws_payload :: "ws_message \<Rightarrow> bytes" where
  "ws_payload (Binary d) = d"
| "ws_payload _ = []"

definition ws_data :: "ws_message list \<Rightarrow> bytes" where
  "ws_data ms = concat (map ws_payload ms)"

definition ws_rest :: "'t ws_transport \<Rightarrow> bytes" where
  "ws_rest s = drop (ws_read_pos s) (ws_read_buffer s)"

lemma ws_data_simps [simp]: "ws_data [] = []" "ws_data (ms @ ms') = ws_data ms @ ws_data ms'" "ws_data [m] = ws_payload m"
  by (simp_all add: ws_data_def)

text \<open>
  The invariant: what was handed out and what is still buffered are the early data and the data of
  the messages received; what was accepted is the data of the messages sent, which are data frames
  and after them at most one Close.
\<close>

definition frames_ok :: "bool \<Rightarrow> ws_message list \<Rightarrow> bool" where
  "frames_ok closed ms \<longleftrightarrow> (\<exists>ds. (ms = map Binary ds \<or> closed \<and> ms = map Binary ds @ [Close]))"

definition ws_inv :: "bytes \<Rightarrow> bytes \<Rightarrow> bytes \<Rightarrow> 't logged ws_transport \<Rightarrow> bool" where
  "ws_inv early rx tx s \<longleftrightarrow>
     rx @ ws_rest s = early @ ws_data (lg_received (ws_stream s)) \<and> tx = ws_data (lg_sent (ws_stream s)) \<and>
     frames_ok (ws_write_closed s) (lg_sent (ws_stream s)) \<and> (ws_read_closed s \<longrightarrow> ws_rest s = [])"

lemma frames_ok_simps [simp]: "frames_ok c []" "frames_ok False ms \<Longrightarrow> frames_ok False (ms @ [Binary d])"
  "frames_ok False ms \<Longrightarrow> frames_ok True (ms @ [Close])" "frames_ok c ms \<Longrightarrow> frames_ok True ms"
  unfolding frames_ok_def by (auto intro: exI [of _ "[]"]) (metis list.simps(8,9) map_append)


lemma ws_read_loop_inv:
  assumes "ws_read_loop fuel (logged_ops T) s n = (r, s')" and "ws_inv early rx tx s" and "ws_rest s = []" and "\<not> ws_read_closed s"
  shows "ws_inv early (rx @ (case r of Some (Ready (Inr d)) \<Rightarrow> d | _ \<Rightarrow> [])) tx s' \<and>
    (r = Some (Ready (Inr [])) \<longrightarrow> 0 < n \<longrightarrow> ws_read_closed s') \<and>
    (case r of Some (Ready (Inr d)) \<Rightarrow> length d \<le> n | _ \<Rightarrow> True)"
  using assms
proof (induction fuel arbitrary: s)
  case 0
  then show ?case by simp
next
  case (Suc fuel)
  obtain q i where q: "tg_poll_next T (lg_inner (ws_stream s)) = (q, i)" by fastforce
  let ?t = "\<lambda>m. (ws_stream s)\<lparr>lg_inner := i, lg_received := lg_received (ws_stream s) @ m\<rparr>"
  have skip: ?case if "q = Ready (Some (Inr m))" "ws_payload m = []" "ws_read_loop fuel (logged_ops T) (s\<lparr>ws_stream := ?t [m]\<rparr>) n = (r, s')" for m
    by (rule Suc.IH [OF that(3)]) (use Suc.prems that(2) in \<open>auto simp: ws_inv_def ws_rest_def\<close>)
  note eq = Suc.prems(1) [unfolded ws_read_loop.simps logged_ops_sel q prod.case Let_def]
  show ?case
  proof (cases q rule: next_cases)
    case (failed e)
    then show ?thesis using eq Suc.prems(2-) by (cases e) (auto simp: ws_inv_def ws_rest_def)
  next
    case (got m)
    show ?thesis
    proof (cases m)
      case (Binary d)
      show ?thesis
      proof (cases "d = []")
        case True
        then show ?thesis using eq got Binary by (intro skip [OF got]) auto
      next
        case False
        then show ?thesis
          using eq got Binary Suc.prems(2-) by (auto simp: ws_inv_def ws_rest_def min_def split: if_splits)
      qed
    next
      case Close
      then show ?thesis using eq got Suc.prems(2-) by (auto simp: ws_inv_def ws_rest_def)
    qed (use eq got in \<open>auto intro!: skip [OF got]\<close>)
  qed (use eq Suc.prems(2-) in \<open>auto simp: ws_inv_def ws_rest_def\<close>)
qed

lemma ws_poll_read_inv:
  assumes "ws_poll_read fuel (logged_ops T) s n = (r, s')" and "ws_inv early rx tx s"
  shows "ws_inv early (rx @ (case r of Some (Ready (Inr d)) \<Rightarrow> d | _ \<Rightarrow> [])) tx s' \<and>
    (r = Some (Ready (Inr [])) \<longrightarrow> 0 < n \<longrightarrow> ws_read_closed s') \<and>
    (case r of Some (Ready (Inr d)) \<Rightarrow> length d \<le> n | _ \<Rightarrow> True)"
proof (cases "ws_read_closed s \<or> ws_rest s \<noteq> []")
  case True
  then show ?thesis
    using assms
    by (auto simp: ws_poll_read_def ws_inv_def ws_rest_def Let_def min_def drop_step_append [where c = "[]", simplified] split: if_splits)
next
  case False
  then show ?thesis
    using ws_read_loop_inv [of fuel T s n r s'] assms by (auto simp: ws_poll_read_def ws_rest_def)
qed

lemma ws_poll_write_inv:
  assumes "ws_poll_write (logged_ops T) s bs = (r, s')" and "ws_inv early rx tx s"
  shows "ws_inv early rx (tx @ (case r of Ready (Inr k) \<Rightarrow> take k bs | _ \<Rightarrow> [])) s' \<and>
    (case r of Ready (Inr k) \<Rightarrow> k = length bs | _ \<Rightarrow> True)"
  using assms
  by (auto simp: ws_poll_write_def ws_inv_def ws_rest_def logged_ops_sel split: if_splits prod.splits poll.splits sum.splits)

lemma ws_poll_flush_inv:
  assumes "ws_poll_flush (logged_ops T) s = (r, s')" and "ws_inv early rx tx s"
  shows "ws_inv early rx tx s'"
  using assms by (auto simp: ws_poll_flush_def ws_inv_def ws_rest_def logged_ops_sel split: prod.splits)

lemma ws_poll_shutdown_inv:
  assumes "ws_poll_shutdown (logged_ops T) s = (r, s')" and "ws_inv early rx tx s"
  shows "ws_inv early rx tx s'"
proof -
  obtain q i where q: "tg_poll_ready T (lg_inner (ws_stream s)) = (q, i)" by fastforce
  show ?thesis
  proof (cases "ws_write_closed s")
    case True
    then show ?thesis using assms ws_poll_flush_inv by (auto simp: ws_poll_shutdown_def)
  next
    case False
    obtain x j where x: "tg_start_send T i Close = (x, j)" by fastforce
    have c: "ws_inv early rx tx (s\<lparr>ws_stream := (ws_stream s)\<lparr>lg_inner := k, lg_sent := lg_sent (ws_stream s) @ m\<rparr>, ws_write_closed := True\<rparr>)"
      if "m = [Close] \<or> m = []" for m k
      using that assms(2) False by (auto simp: ws_inv_def ws_rest_def)
    show ?thesis
      using assms False q x c [of "[Close]" j] c [of "[]" j] c [of "[]" i]
      by (cases x; auto simp: ws_poll_shutdown_def logged_ops_sel ws_inv_def ws_rest_def split: poll.splits sum.splits
          dest: ws_poll_flush_inv)
  qed
qed


interpretation ws_calls: call_invariant "recorded_ops (ws_ops fuel (logged_ops T))"
  "\<lambda>r. ws_inv early (rc_rx r) (rc_tx r) (rc_inner r)" for fuel early and T :: "'t tungstenite"
proof
  fix s :: "'t logged ws_transport recorded" and n r s'
  assume "ws_inv early (rc_rx s) (rc_tx s) (rc_inner s)" "poll_read (recorded_ops (ws_ops fuel (logged_ops T))) s n = (r, s')"
  moreover obtain q i where "ws_poll_read fuel (logged_ops T) (rc_inner s) n = (q, i)" by fastforce
  ultimately show "ws_inv early (rc_rx s') (rc_tx s') (rc_inner s')"
    using ws_poll_read_inv [of fuel T "rc_inner s" n q i]
    by (auto simp: recorded_ops_def ws_ops_def split: option.splits poll.splits sum.splits)
next
  fix s :: "'t logged ws_transport recorded" and bs r s'
  assume "ws_inv early (rc_rx s) (rc_tx s) (rc_inner s)" "poll_write (recorded_ops (ws_ops fuel (logged_ops T))) s bs = (r, s')"
  moreover obtain q i where "ws_poll_write (logged_ops T) (rc_inner s) bs = (q, i)" by fastforce
  ultimately show "ws_inv early (rc_rx s') (rc_tx s') (rc_inner s')"
    using ws_poll_write_inv [of T "rc_inner s" bs q i early "rc_rx s" "rc_tx s"]
    by (auto simp: recorded_ops_def ws_ops_def split: poll.splits sum.splits)
qed (auto simp: recorded_ops_def ws_ops_def split: prod.splits intro: ws_poll_flush_inv ws_poll_shutdown_inv)

text \<open>A transport fresh from the handshake, with empty histories.\<close>

definition ws_start :: "'t \<Rightarrow> bytes \<Rightarrow> 't logged ws_transport recorded" where
  "ws_start t early =
     \<lparr>rc_inner = with_early_data \<lparr>lg_inner = t, lg_received = [], lg_sent = []\<rparr> early, rc_rx = [], rc_tx = []\<rparr>"

lemma ws_start_inv: "ws_inv early (rc_rx (ws_start t early)) (rc_tx (ws_start t early)) (rc_inner (ws_start t early))"
  by (simp add: ws_start_def with_early_data_def ws_inv_def ws_rest_def)

section \<open>The read loop ends\<close>

text \<open>The library's next message carries nothing for the reader.\<close>

definition skippable :: "'t tungstenite \<Rightarrow> 't \<Rightarrow> bool" where
  "skippable T t \<longleftrightarrow> (\<exists>m. fst (tg_poll_next T t) = Ready (Some (Inr m)) \<and> m \<noteq> Close \<and> ws_payload m = [])"

lemma ws_read_loop_skip:
  "skippable T (ws_stream s) \<Longrightarrow>
     ws_read_loop (Suc fuel) T s n = ws_read_loop fuel T (s\<lparr>ws_stream := snd (tg_poll_next T (ws_stream s))\<rparr>) n"
  by (auto simp: skippable_def Let_def split: prod.splits ws_message.splits)

lemma ws_read_loop_last:
  assumes "\<not> skippable T (ws_stream s)"
  shows "\<exists>r s'. \<forall>fuel. ws_read_loop (Suc fuel) T s n = (Some r, s')"
proof -
  obtain q t where q: "tg_poll_next T (ws_stream s) = (q, t)" by fastforce
  have a: "\<not> (\<exists>m. q = Ready (Some (Inr m)) \<and> m \<noteq> Close \<and> ws_payload m = [])" using assms by (simp add: skippable_def q)
  show ?thesis
  proof (cases q rule: next_cases)
    case (got m)
    then have "m = Close \<or> (\<exists>d. m = Binary d \<and> d \<noteq> [])" using a by (cases m) auto
    then show ?thesis by (auto simp: q got Let_def)
  qed (auto simp: q Let_def)
qed

text \<open>A read returns once the library offers something else than a message without data, and more fuel does not change it.\<close>

lemma ws_read_returns:
  "\<not> skippable T (((\<lambda>t. snd (tg_poll_next T t)) ^^ k) (ws_stream s)) \<Longrightarrow>
     \<exists>r s'. \<forall>fuel. ws_read_loop (Suc k + fuel) T s n = (Some r, s')"
proof (induction k arbitrary: s)
  case 0
  then show ?case using ws_read_loop_last [of T s n] by simp
next
  case (Suc k)
  show ?case
  proof (cases "skippable T (ws_stream s)")
    case True
    then show ?thesis
      using Suc.IH [of "s\<lparr>ws_stream := snd (tg_poll_next T (ws_stream s))\<rparr>"] Suc.prems
      by (simp add: ws_read_loop_skip funpow_Suc_right del: ws_read_loop.simps funpow.simps)
  next
    case False
    then obtain r s' where "\<And>fuel. ws_read_loop (Suc fuel) T s n = (Some r, s')" using ws_read_loop_last by blast
    then show ?thesis by (metis add_Suc)
  qed
qed

section \<open>The handshake\<close>

text \<open>An accepted handshake has the configured path and bounded early data, and its header is echoed exactly when it carried some.\<close>

lemma ws_callback_accepts:
  "ws_callback percent_decode to_str base64_decode expected req = Handshake_Accept early proto \<Longrightarrow>
     percent_decode (wr_path req) = expected \<and> length early \<le> MAX_EARLY_DATA \<and>
     (if early = [] then proto = None else proto \<noteq> None \<and> proto = wr_protocol req)"
  unfolding ws_callback_def Let_def by (clarsimp split: if_splits option.splits) metis

section \<open>A concrete session\<close>

text \<open>A library that hands over a given list of results.\<close>

definition scripted_ws :: "(ws_error + ws_message) option poll list tungstenite" where
  "scripted_ws =
     \<lparr>tg_poll_next = (\<lambda>s. case s of [] \<Rightarrow> (Pending, []) | r # s' \<Rightarrow> (r, s')),
      tg_poll_ready = (\<lambda>s. (Ready (Inr ()), s)), tg_start_send = (\<lambda>s m. (Inr (), s)), tg_poll_flush = (\<lambda>s. (Ready (Inr ()), s))\<rparr>"

definition demo_ws :: "(ws_error + ws_message) option poll list logged ws_transport recorded" where
  "demo_ws = calls (recorded_ops (ws_ops 4 (logged_ops scripted_ws)))
     [Read_Call 8, Read_Call 2, Write_Call [5, 6], Read_Call 2, Shutdown_Call, Write_Call [7], Read_Call 2]
     (ws_start [Ready (Some (Inr (Binary [2, 3, 4]))), Ready (Some (Inr (Ping [1]))), Ready (Some (Inr (Binary []))),
        Ready (Some (Inr (Binary [8]))), Ready (Some (Inr Close))] [1])"

lemma demo_ws_eq:
  "rc_rx demo_ws = [1, 2, 3, 4, 8]" "rc_tx demo_ws = [5, 6]" "lg_sent (ws_stream (rc_inner demo_ws)) = [Binary [5, 6], Close]"
  by code_simp+

section \<open>Properties\<close>

text \<open>
  C18: The bytes of a WebSocket session.  After any sequence of calls on the transport, whatever the
  library and the peer do, the bytes handed to the reader followed by those still buffered are the
  early data of the handshake and the data of the binary messages received, in order; the bytes
  accepted from the writer are the data of the messages sent; no message follows a Close; and an
  empty read, which the relay takes for the end of the stream, comes only when the peer has closed
  and everything it sent has been handed out.
\<close>

theorem ws_bytes_preserved:
  assumes "r = calls (recorded_ops (ws_ops fuel (logged_ops T))) cs (ws_start t early)"
  shows "rc_rx r @ ws_rest (rc_inner r) = early @ ws_data (lg_received (ws_stream (rc_inner r))) \<and>
    rc_tx r = ws_data (lg_sent (ws_stream (rc_inner r))) \<and>
    (\<exists>ds. lg_sent (ws_stream (rc_inner r)) \<in> {map Binary ds, map Binary ds @ [Close]}) \<and>
    (\<forall>n r'. poll_read (recorded_ops (ws_ops fuel (logged_ops T))) r n = (Ready (Inr []), r') \<longrightarrow> 0 < n \<longrightarrow>
      ws_read_closed (rc_inner r') \<and> rc_rx r' = early @ ws_data (lg_received (ws_stream (rc_inner r'))))"
proof -
  have I: "ws_inv early (rc_rx r) (rc_tx r) (rc_inner r)"
    unfolding assms by (rule ws_calls.calls_keep [OF ws_start_inv])
  have "ws_read_closed (rc_inner r') \<and> rc_rx r' = early @ ws_data (lg_received (ws_stream (rc_inner r')))"
    if p: "poll_read (recorded_ops (ws_ops fuel (logged_ops T))) r n = (Ready (Inr []), r')" "0 < n" for n r'
  proof -
    obtain q i where q: "ws_poll_read fuel (logged_ops T) (rc_inner r) n = (q, i)" by fastforce
    have "q = Some (Ready (Inr []))" "rc_inner r' = i"
      using p q ws_poll_read_inv [OF q I]
      by (auto simp: recorded_ops_def ws_ops_def split: option.splits poll.splits sum.splits)
    moreover have "ws_inv early (rc_rx r') (rc_tx r') (rc_inner r')" by (rule ws_calls.read_keeps [OF I p(1)])
    ultimately show ?thesis using ws_poll_read_inv [OF q I] p(2) by (auto simp: ws_inv_def)
  qed
  then show ?thesis using I by (auto simp: ws_inv_def frames_ok_def)
qed

theorem ws_bytes_preserved_witness:
  "[1, 2, 3, 4, 8] @ ws_rest (rc_inner demo_ws) = [1] @ ws_data (lg_received (ws_stream (rc_inner demo_ws))) \<and>
   ws_data [Binary [5, 6], Close] = [5, 6]"
  using ws_bytes_preserved [OF demo_ws_def] demo_ws_eq by simp

end
