(* ===== verification/Grpc_Codec.thy ===== *)
theory Grpc_Codec
  imports Net_Addr
begin

text \<open>
  \<open>src/src/transport/grpc/codec.rs\<close>: the gRPC message framing of the v2ray transport.

  A Rust index or slice out of range panics, and a panic aborts the process.  The parser is
  therefore modelled with panicking accesses: a result \<open>None\<close> stands for a panic, \<open>Some\<close> for a
  return.  Lengths are \<open>usize\<close> of a 64-bit target; the checked addition of the source is written
  out.  The parser takes the buffer by mutable reference and returns the buffer that is left.
\<close>

section \<open>Panicking accesses\<close>

definition index :: "'a list \<Rightarrow> nat \<Rightarrow> 'a option" where
  "index xs i = (if i < length xs then Some (xs ! i) else None)"

definition slice :: "'a list \<Rightarrow> nat \<Rightarrow> nat \<Rightarrow> 'a list option" where
  "slice xs s e = (if s \<le> e \<and> e \<le> length xs then Some (take (e - s) (drop s xs)) else None)"

definition checked_add :: "nat \<Rightarrow> nat \<Rightarrow> nat option" where
  "checked_add a b = (if a + b < 2 ^ 64 then Some (a + b) else None)"

section \<open>Variable-length integers\<close>

fun bit_len :: "nat \<Rightarrow> nat" where
  "bit_len n = (if n = 0 then 0 else Suc (bit_len (n div 2)))"

declare bit_len.simps [simp del]

text \<open>\<open>u64::leading_zeros\<close> and \<open>usize::div_ceil\<close>.\<close>

definition leading_zeros :: "u64 \<Rightarrow> nat" where
  "leading_zeros v = 64 - bit_len (unat v)"

definition div_ceil :: "nat \<Rightarrow> nat \<Rightarrow> nat" where
  "div_ceil a b = (if a mod b = 0 then a div b else a div b + 1)"

definition varint_len :: "u64 \<Rightarrow> nat" where
  "varint_len value =
     (if value = 0 then 1
      else let bits = 64 - leading_zeros value in div_ceil bits 7)"

function encode_varint :: "u64 \<Rightarrow> bytes \<Rightarrow> bytes" where
  "encode_varint value buf =
     (let byte = (ucast (value AND 0x7F) :: u8);
          value = drop_bit 7 value;
          byte = (if value \<noteq> 0 then byte OR 0x80 else byte);
          buf = buf @ [byte]
      in if value = 0 then buf else encode_varint value buf)"
  by auto

lemma unat_shift7: "unat (drop_bit 7 (v :: u64)) = unat v div 128"
  using unat_drop_bit_eq [of 7 v] by (simp add: drop_bit_eq_div [of 7 "unat v"])

lemma drop_bit_less: "drop_bit 7 v \<noteq> 0 \<Longrightarrow> unat (drop_bit 7 (v :: u64)) < unat v"
  unfolding word_unat_eq_iff unat_shift7 by simp

termination encode_varint
  by (relation "measure (\<lambda>(v, _). unat v)") (auto simp: drop_bit_less)

declare encode_varint.simps [simp del]

text \<open>The loop of \<open>decode_varint\<close> with its index, shift and accumulated result.\<close>

fun decode_varint_loop :: "nat \<Rightarrow> nat \<Rightarrow> u64 \<Rightarrow> bytes \<Rightarrow> (u64 \<times> nat) io_result" where
  "decode_varint_loop i shift result [] = Inl (Io_Error UnexpectedEof ''incomplete varint'')"
| "decode_varint_loop i shift result (byte # data) =
     (if i \<ge> 10 then Inl (Io_Error InvalidData ''varint too long'')
      else
        let result = result OR push_bit shift (ucast (byte AND 0x7F)) in
        if byte AND 0x80 = 0 then Inr (result, i + 1)
        else decode_varint_loop (i + 1) (shift + 7) result data)"

definition decode_varint :: "bytes \<Rightarrow> (u64 \<times> nat) io_result" where
  "decode_varint data = decode_varint_loop 0 0 0 data"

section \<open>Frames\<close>

definition declared_frame_len :: "bytes \<Rightarrow> nat option" where
  "declared_frame_len buf =
     (if length buf < 5 then None
      else Some (unat (u32_from_be_bytes (buf ! 1) (buf ! 2) (buf ! 3) (buf ! 4))))"

definition hex_upper :: "nat \<Rightarrow> char" where
  "hex_upper d = (if d < 10 then char_of (d + 48) else char_of (d + 55))"

definition tag_error :: "u8 \<Rightarrow> io_error" where
  "tag_error b = Io_Error InvalidData
     (''unexpected protobuf tag: 0x'' @ [hex_upper (unat b div 16), hex_upper (unat b mod 16)]
      @ '', expected 0x0A'')"

definition length_error :: "u64 \<Rightarrow> nat \<Rightarrow> io_error" where
  "length_error len frame_len = Io_Error InvalidData
     (''payload length '' @ show_nat (unat len) @ '' exceeds gRPC frame length '' @ show_nat frame_len)"

text \<open>
  The walk over the protobuf fields: \<open>first\<close> is the first range, \<open>ranges\<close> all ranges once there is
  a second.  Indices are checked, so the walk can panic; it stops because every field moves \<open>pos\<close>
  forward.
\<close>

lemma decode_varint_loop_pos: "decode_varint_loop i sh r data = Inr (v, n) \<Longrightarrow> i < n \<and> n \<le> i + length data"
  by (induction i sh r data arbitrary: v n rule: decode_varint_loop.induct)
     (fastforce simp: Let_def split: if_splits)+

lemma decode_varint_pos: "decode_varint data = Inr (v, n) \<Longrightarrow> 0 < n \<and> n \<le> length data"
  using decode_varint_loop_pos [of 0 0 0 data v n] by (simp add: decode_varint_def)

type_synonym range = "nat \<times> nat"

function walk_fields ::
    "bytes \<Rightarrow> nat \<Rightarrow> nat \<Rightarrow> nat \<Rightarrow> range option \<Rightarrow> range list \<Rightarrow> (range option \<times> range list) io_result option" where
  "walk_fields buf frame_len consumed pos first ranges =
     (if \<not> pos < consumed then Some (Inr (first, ranges))
      else
        (case index buf pos of
           None \<Rightarrow> None
         | Some tag \<Rightarrow>
             if tag \<noteq> 0x0A then Some (Inl (tag_error tag))
             else
               (case slice buf (pos + 1) consumed of
                  None \<Rightarrow> None
                | Some data \<Rightarrow>
                    (case decode_varint data of
                       Inl e \<Rightarrow> Some (Inl e)
                     | Inr (len_u64, varint_bytes) \<Rightarrow>
                         let data_start = pos + 1 + varint_bytes in
                         (case checked_add data_start (unat len_u64) of
                            None \<Rightarrow> Some (Inl (length_error len_u64 frame_len))
                          | Some data_end \<Rightarrow>
                              if \<not> data_end \<le> consumed then Some (Inl (length_error len_u64 frame_len))
                              else
                                let (first, ranges) =
                                  (case first of
                                     None \<Rightarrow> (Some (data_start, data_end), ranges)
                                   | Some f \<Rightarrow>
                                       (first, (if ranges = [] then [f] else ranges) @ [(data_start, data_end)]))
                                in walk_fields buf frame_len consumed data_end first ranges)))))"
  by pat_completeness auto

termination walk_fields
  by (relation "measure (\<lambda>(_, _, consumed, pos, _, _). consumed - pos)")
     (auto simp: checked_add_def split: if_splits)

declare walk_fields.simps [simp del]

text \<open>Gathering the ranges out of the frame that was split off.\<close>

fun gather :: "bytes \<Rightarrow> range list \<Rightarrow> bytes \<Rightarrow> bytes option" where
  "gather frame [] out = Some out"
| "gather frame ((s, e) # ranges) out =
     (case slice frame s e of None \<Rightarrow> None | Some d \<Rightarrow> gather frame ranges (out @ d))"

definition parse_grpc_message_zerocopy ::
    "bytes \<Rightarrow> ((bytes \<times> nat) option io_result \<times> bytes) option" where
  "parse_grpc_message_zerocopy buf =
     (if length buf < 5 then Some (Inr None, buf)
      else if buf ! 0 \<noteq> 0 then Some (Inl (Io_Error InvalidData ''compressed gRPC not supported''), buf)
      else
        let grpc_frame_len = unat (u32_from_be_bytes (buf ! 1) (buf ! 2) (buf ! 3) (buf ! 4));
            consumed = 5 + grpc_frame_len in
        if length buf < consumed then Some (Inr None, buf)
        else
          (case walk_fields buf grpc_frame_len consumed 5 None [] of
             None \<Rightarrow> None
           | Some (Inl e) \<Rightarrow> Some (Inl e, buf)
           | Some (Inr (first, ranges)) \<Rightarrow>
               let frame = take consumed buf; buf' = drop consumed buf in
               (case (if ranges \<noteq> [] then gather frame ranges []
                      else (case first of Some (s, e) \<Rightarrow> slice frame s e | None \<Rightarrow> Some [])) of
                  None \<Rightarrow> None
                | Some payload \<Rightarrow> Some (Inr (Some (payload, consumed)), buf'))))"

definition encode_grpc_message :: "bytes \<Rightarrow> bytes" where
  "encode_grpc_message payload =
     (let varint_bytes = varint_len (of_nat (length payload));
          proto_len = 1 + varint_bytes + length payload;
          buf = [0x00] @ u32_to_be_bytes (of_nat proto_len) @ [0x0A];
          buf = encode_varint (of_nat (length payload)) buf
      in buf @ payload)"

section \<open>Integers: round trip and length\<close>

text \<open>The bytes that \<open>encode_varint\<close> appends.\<close>

definition varint :: "u64 \<Rightarrow> bytes" where
  "varint v = encode_varint v []"

lemma encode_varint_append: "encode_varint v (xs @ buf) = xs @ encode_varint v buf"
proof (induction v buf rule: encode_varint.induct)
  case (1 v buf)
  then show ?case
    by (subst (1 2) encode_varint.simps) (simp add: Let_def)
qed

lemma encode_varint_eq: "encode_varint v buf = buf @ varint v"
  using encode_varint_append [of v buf "[]"] by (simp add: varint_def)

lemma varint_simps:
  "varint v = (if drop_bit 7 v = 0 then [ucast (v AND 0x7F)]
               else (ucast (v AND 0x7F) OR 0x80) # varint (drop_bit 7 v))"
  unfolding varint_def [of v]
  by (subst encode_varint.simps) (simp add: Let_def encode_varint_eq)

lemma bit_7F: "bit (0x7F :: int) n \<longleftrightarrow> n < 7"
proof -
  have "(0x7F :: int) = mask 7" by (simp add: mask_eq_exp_minus_1)
  then show ?thesis by (simp only: bit_mask_iff) simp
qed

lemma bit_80: "bit (0x80 :: int) n \<longleftrightarrow> n = 7"
proof -
  have "(0x80 :: int) = 2 ^ 7" by simp
  then show ?thesis by (simp only: bit_exp_iff) auto
qed

lemma varint_byte:
  fixes v :: u64
  defines "b \<equiv> (ucast (v AND 0x7F) :: u8)"
  shows "ucast (b AND 0x7F) = v AND 0x7F" "ucast ((b OR 0x80) AND 0x7F) = v AND 0x7F"
    "b AND 0x80 = 0" "(b OR 0x80) AND 0x80 \<noteq> 0"
proof -
  show "ucast (b AND 0x7F) = v AND 0x7F" "ucast ((b OR 0x80) AND 0x7F) = v AND 0x7F" "b AND 0x80 = 0"
    unfolding b_def by (rule bit_word_eqI; auto simp: bit_simps bit_7F bit_80)+
  have "bit ((b OR 0x80) AND 0x80) 7" by (simp add: bit_simps bit_80)
  then show "(b OR 0x80) AND 0x80 \<noteq> 0" by (rule contrapos_pn) simp
qed

lemma split_low7: "(v AND 0x7F) OR push_bit 7 (drop_bit 7 v) = (v :: u64)"
proof (rule bit_word_eqI)
  fix n
  assume "n < LENGTH(64)"
  then show "bit ((v AND 0x7F) OR push_bit 7 (drop_bit 7 v)) n = bit v n"
    by (cases "n < 7") (simp_all add: bit_simps bit_7F)
qed

text \<open>Decoding in the middle of the loop: the value is shifted into place.\<close>

lemma decode_varint_loop_varint:
  "i + length (varint v) \<le> 10 \<Longrightarrow>
   decode_varint_loop i (7 * i) r (varint v @ rest) = Inr (r OR push_bit (7 * i) v, i + length (varint v))"
proof (induction "unat v" arbitrary: i r v rule: less_induct)
  case less
  show ?case
  proof (cases "drop_bit 7 v = 0")
    case True
    then have "v AND 0x7F = v" using split_low7 [of v] by simp
    with True show ?thesis using less.prems varint_byte [of v]
      by (simp add: varint_simps [of v] Let_def)
  next
    case False
    define w where "w = drop_bit 7 v"
    obtain b where b: "varint v = b # varint w" "ucast (b AND 0x7F) = v AND 0x7F" "b AND 0x80 \<noteq> 0"
      using varint_simps [of v] varint_byte(2,4) [of v] False unfolding w_def by auto
    obtain m where m: "ucast (b AND 0x7F) = m" "v = m OR push_bit 7 w"
      using b(2) split_low7 [of v] unfolding w_def by metis
    have l: "Suc i + length (varint w) \<le> 10" "i < 10" using less.prems b(1) by auto
    have "(r OR push_bit (7 * i) m) OR push_bit (7 * Suc i) w = r OR push_bit (7 * i) v"
      by (simp add: m(2) or.assoc add.commute)
    then show ?thesis
      using less.hyps [OF drop_bit_less [OF False, folded w_def] l(1), of "r OR push_bit (7 * i) m"] l(2) b(1,3)
      by (simp add: m(1) Let_def add.commute)
  qed
qed

lemma length_varint_le: "unat v < 2 ^ (7 * n) \<Longrightarrow> 0 < n \<Longrightarrow> length (varint v) \<le> n"
proof (induction n arbitrary: v)
  case (Suc n)
  show ?case
  proof (cases "drop_bit 7 v = 0")
    case False
    then have "unat v div 128 \<noteq> 0" using unat_shift7 [of v] by (simp add: word_unat_eq_iff)
    then have "0 < n" using Suc.prems by (cases n) auto
    moreover have "unat (drop_bit 7 v) < 2 ^ (7 * n)"
      unfolding unat_shift7 using Suc.prems(1) by (simp add: power_add less_mult_imp_div_less mult.commute)
    ultimately show ?thesis using Suc.IH varint_simps [of v] False by simp
  qed (simp add: varint_simps [of v])
qed simp

lemma length_varint: "0 < length (varint v)" "length (varint v) \<le> 10"
proof -
  show "0 < length (varint v)" using varint_simps [of v] by (auto split: if_splits)
  have "unat v < 2 ^ 64" using unsigned_less [of v, where ?'a = nat] by simp
  also have "(2::nat) ^ 64 \<le> 2 ^ (7 * 10)" by simp
  finally show "length (varint v) \<le> 10" by (rule length_varint_le) simp
qed

lemma decode_varint_varint: "decode_varint (varint v @ rest) = Inr (v, length (varint v))"
  using decode_varint_loop_varint [of 0 v 0 rest] length_varint(2) [of v] by (simp add: decode_varint_def)

text \<open>The length function agrees with the encoder.\<close>

lemma bit_len_div: "128 \<le> n \<Longrightarrow> bit_len n = 7 + bit_len (n div 128)"
proof -
  have step: "0 < m \<Longrightarrow> bit_len m = Suc (bit_len (m div 2))" for m by (subst bit_len.simps) simp
  assume "128 \<le> n"
  then have "0 < n" "0 < n div 2" "0 < n div 2 div 2" "0 < n div 2 div 2 div 2" "0 < n div 2 div 2 div 2 div 2"
    "0 < n div 2 div 2 div 2 div 2 div 2" "0 < n div 2 div 2 div 2 div 2 div 2 div 2"
    by (simp_all add: div_mult2_eq [symmetric] div_greater_zero_iff)
  then show ?thesis by (simp add: step div_mult2_eq [symmetric])
qed

lemma bit_len_le: "n < 2 ^ k \<Longrightarrow> bit_len n \<le> k"
proof (induction k arbitrary: n)
  case (Suc k)
  then show ?case by (subst bit_len.simps) (simp add: less_mult_imp_div_less mult.commute)
qed (simp add: bit_len.simps)

lemma bit_len_pos: "0 < n \<Longrightarrow> 0 < bit_len n"
  by (subst bit_len.simps) simp

lemma div_ceil_7: "div_ceil a 7 = (a + 6) div 7"
  unfolding div_ceil_def by presburger

lemma length_varint_bits: "v \<noteq> 0 \<Longrightarrow> length (varint v) = (bit_len (unat v) + 6) div 7"
proof (induction "unat v" arbitrary: v rule: less_induct)
  case less
  show ?case
  proof (cases "drop_bit 7 v = 0")
    case True
    then have "unat v < 2 ^ 7" using unat_shift7 [of v] by (simp add: word_unat_eq_iff)
    then have "bit_len (unat v) \<le> 7" by (rule bit_len_le)
    moreover have "0 < bit_len (unat v)" using less.prems by (simp add: bit_len_pos word_unat_eq_iff)
    ultimately show ?thesis using True varint_simps [of v] by simp
  next
    case False
    then have "128 \<le> unat v" using unat_shift7 [of v] by (simp add: word_unat_eq_iff)
    then have "bit_len (unat v) = 7 + bit_len (unat (drop_bit 7 v))"
      using unat_shift7 [of v] by (simp add: bit_len_div)
    then show ?thesis using less.hyps [OF drop_bit_less [OF False] False] varint_simps [of v] False by simp
  qed
qed

lemma varint_len_eq: "varint_len v = length (varint v)"
proof (cases "v = 0")
  case True
  then show ?thesis by (simp add: varint_len_def varint_simps)
next
  case False
  have "unat v < 2 ^ 64" using unsigned_less [of v, where ?'a = nat] by simp
  then have "bit_len (unat v) \<le> 64" by (rule bit_len_le)
  then show ?thesis using False
    by (simp add: varint_len_def leading_zeros_def div_ceil_7 length_varint_bits)
qed

section \<open>Frames: round trip and safety\<close>

text \<open>A field of a message, a message of several fields, and its frame.\<close>

definition field :: "bytes \<Rightarrow> bytes" where
  "field p = 0x0A # varint (of_nat (length p)) @ p"

definition message :: "bytes list \<Rightarrow> bytes" where
  "message ps = concat (map field ps)"

definition frame :: "bytes list \<Rightarrow> bytes" where
  "frame ps = [0x00] @ u32_to_be_bytes (of_nat (length (message ps))) @ message ps"

text \<open>The ranges that the walk records: all of them, in the shape the source keeps.\<close>

fun ranges_of :: "nat \<Rightarrow> bytes list \<Rightarrow> range list" where
  "ranges_of pos [] = []"
| "ranges_of pos (p # ps) =
     (let s = pos + 1 + length (varint (of_nat (length p))) in (s, s + length p) # ranges_of (s + length p) ps)"

fun record_ranges :: "range list \<Rightarrow> range option \<times> range list \<Rightarrow> range option \<times> range list" where
  "record_ranges [] acc = acc"
| "record_ranges (r # rs) (None, fs) = record_ranges rs (Some r, fs)"
| "record_ranges (r # rs) (Some f, fs) = record_ranges rs (Some f, (if fs = [] then [f] else fs) @ [r])"

lemma slice_Some [simp]: "s \<le> e \<Longrightarrow> e \<le> length xs \<Longrightarrow> slice xs s e = Some (take (e - s) (drop s xs))"
  by (simp add: slice_def)

lemma length_field: "length (field p) = 1 + length (varint (of_nat (length p))) + length p"
  by (simp add: field_def)

lemma walk_fields_message:
  assumes "pos = length pre" "consumed = pos + length (message ps)" "consumed < 2 ^ 64"
  shows "walk_fields (pre @ message ps @ rest) n consumed pos f fs = Some (Inr (record_ranges (ranges_of pos ps) (f, fs)))"
  using assms
proof (induction ps arbitrary: pos pre f fs)
  case Nil
  then show ?case by (subst walk_fields.simps) (simp add: message_def)
next
  case (Cons p ps)
  let ?v = "varint (of_nat (length p))" and ?buf = "pre @ message (p # ps) @ rest"
  have msg: "message (p # ps) = field p @ message ps" by (simp add: message_def)
  have lp: "unat (of_nat (length p) :: u64) = length p"
    using Cons.prems by (simp add: msg length_field unat_of_nat)
  have i: "index ?buf pos = Some 0x0A" using Cons.prems(1) by (simp add: index_def msg field_def)
  have sl: "slice ?buf (pos + 1) consumed = Some (?v @ p @ message ps)"
    using Cons.prems(1,2) by (simp add: slice_def msg field_def)
  have ca: "checked_add (pos + 1 + length ?v) (length p) = Some (pos + length (field p))"
    using Cons.prems by (simp add: checked_add_def msg length_field)
  have le: "pos < consumed" "pos + length (field p) \<le> consumed"
    using Cons.prems(2) by (simp_all add: msg length_field)
  have "walk_fields ?buf n consumed (pos + length (field p)) f' fs' =
      Some (Inr (record_ranges (ranges_of (pos + length (field p)) ps) (f', fs')))" for f' fs'
    using Cons.IH [of "pos + length (field p)" "pre @ field p" f' fs'] Cons.prems by (simp add: msg)
  then show ?case
    unfolding walk_fields.simps [of ?buf n consumed pos f fs] i sl
    using le ca lp by (cases f) (simp_all add: decode_varint_varint Let_def length_field add.assoc)
qed

lemma gather_ranges:
  "gather (pre @ message ps) (ranges_of (length pre) ps) out = Some (out @ concat ps)"
proof (induction ps arbitrary: pre out)
  case (Cons p ps)
  have m: "message (p # ps) = field p @ message ps" by (simp add: message_def)
  let ?s = "length pre + 1 + length (varint (of_nat (length p)))"
  have "slice (pre @ message (p # ps)) ?s (?s + length p) = Some p"
    by (simp add: m field_def slice_def)
  then show ?case
    using Cons.IH [of "pre @ field p" "out @ p"] by (simp add: Let_def m length_field add.assoc)
qed simp

text \<open>The ranges recorded by a walk, in order.\<close>

definition recorded :: "range option \<times> range list \<Rightarrow> range list" where
  "recorded acc = (if snd acc \<noteq> [] then snd acc else (case fst acc of Some r \<Rightarrow> [r] | None \<Rightarrow> []))"

lemma recorded_record_Some:
  "recorded (record_ranges rs (Some f, fs)) = recorded (Some f, fs) @ rs"
  by (induction rs arbitrary: fs) (auto simp: recorded_def)

lemma recorded_record: "recorded (record_ranges rs (None, [])) = rs"
  by (cases rs) (simp_all add: recorded_record_Some, simp_all add: recorded_def)

text \<open>What the parser hands out, in terms of the recorded ranges.\<close>

lemma payload_recorded:
  "(if ranges \<noteq> [] then gather fr ranges []
    else (case first of Some (s, e) \<Rightarrow> slice fr s e | None \<Rightarrow> Some [])) = gather fr (recorded (first, ranges)) []"
  by (auto simp: recorded_def split: option.split)

lemma length_frame: "length (frame ps) = 5 + length (message ps)"
  by (simp add: frame_def)

lemma frame_nth:
  "(frame ps @ rest) ! 0 = 0"
  "u32_from_be_bytes ((frame ps @ rest) ! 1) ((frame ps @ rest) ! 2) ((frame ps @ rest) ! 3) ((frame ps @ rest) ! 4)
     = of_nat (length (message ps))"
  by (simp_all add: frame_def u32_to_be_bytes_def nth_append)

lemma unat_of_nat_u32: "n < 2 ^ 32 \<Longrightarrow> unat (of_nat n :: u32) = n"
  by (simp add: unat_of_nat)

lemma parse_frame:
  assumes "length (message ps) < 2 ^ 32"
  shows "parse_grpc_message_zerocopy (frame ps @ rest) = Some (Inr (Some (concat ps, length (frame ps))), rest)"
proof -
  let ?pre = "[0x00] @ u32_to_be_bytes (of_nat (length (message ps)))"
  have fr: "frame ps = ?pre @ message ps" by (simp add: frame_def)
  have "walk_fields (?pre @ message ps @ rest) n (5 + length (message ps)) 5 None [] =
      Some (Inr (record_ranges (ranges_of 5 ps) (None, [])))" for n
    by (rule walk_fields_message) (use assms in simp_all)
  then have w: "walk_fields (frame ps @ rest) n (5 + length (message ps)) 5 None [] =
      Some (Inr (record_ranges (ranges_of 5 ps) (None, [])))" for n
    by (simp add: fr)
  have g: "gather (frame ps) (ranges_of 5 ps) [] = Some (concat ps)"
    using gather_ranges [of ?pre ps "[]"] by (simp add: fr)
  obtain first ranges where rr: "record_ranges (ranges_of 5 ps) (None, []) = (first, ranges)" by fastforce
  then have "recorded (first, ranges) = ranges_of 5 ps" using recorded_record by metis
  then show ?thesis
    unfolding parse_grpc_message_zerocopy_def frame_nth Let_def unat_of_nat_u32 [OF assms] w rr
    by (simp add: length_frame payload_recorded g)
qed

lemma encode_grpc_frame: "encode_grpc_message p = frame [p]"
  by (simp add: encode_grpc_message_def frame_def message_def field_def encode_varint_eq varint_len_eq Let_def)

lemma parse_short:
  assumes "length (message ps) < 2 ^ 32" "k < length (frame ps)"
  shows "parse_grpc_message_zerocopy (take k (frame ps)) = Some (Inr None, take k (frame ps))"
proof (cases "k < 5")
  case False
  have "take k (frame ps) ! i = (frame ps @ []) ! i" if "i < 5" for i using that False by simp
  then have n: "take k (frame ps) ! 0 = 0"
    "u32_from_be_bytes (take k (frame ps) ! 1) (take k (frame ps) ! 2) (take k (frame ps) ! 3) (take k (frame ps) ! 4)
     = of_nat (length (message ps))"
    using frame_nth [of ps "[]"] by simp_all
  then show ?thesis
    using assms False unfolding parse_grpc_message_zerocopy_def n unat_of_nat_u32 [OF assms(1)] Let_def
    by (simp add: length_frame)
qed (use assms in \<open>simp add: parse_grpc_message_zerocopy_def\<close>)

text \<open>The walk never leaves the frame.\<close>

definition ranges_ok :: "nat \<Rightarrow> range option \<times> range list \<Rightarrow> bool" where
  "ranges_ok pos acc \<longleftrightarrow>
     (\<forall>(s, e) \<in> set (recorded acc). s \<le> e \<and> e \<le> pos) \<and>
     5 + sum_list (map (\<lambda>(s, e). e - s) (recorded acc)) \<le> pos \<and>
     (snd acc \<noteq> [] \<longrightarrow> fst acc \<noteq> None)"

lemma ranges_ok_push:
  assumes "ranges_ok pos (first, ranges)" "pos < s" "s \<le> e"
  shows "ranges_ok e (case first of None \<Rightarrow> (Some (s, e), ranges)
           | Some f \<Rightarrow> (first, (if ranges = [] then [f] else ranges) @ [(s, e)]))"
proof -
  have mono: "\<forall>(s', e') \<in> set (recorded (first, ranges)). s' \<le> e' \<and> e' \<le> e"
    using assms by (fastforce simp: ranges_ok_def)
  then show ?thesis
    using assms by (auto simp: ranges_ok_def recorded_def split: option.splits)
qed

lemma walk_fields_safe:
  assumes "ranges_ok pos (first, ranges)" "consumed \<le> length buf" "pos \<le> consumed"
  shows "\<exists>r. walk_fields buf n consumed pos first ranges = Some r \<and>
    (case r of Inl e \<Rightarrow> True | Inr acc \<Rightarrow> ranges_ok consumed acc)"
  using assms
proof (induction "consumed - pos" arbitrary: pos first ranges rule: less_induct)
  case less
  show ?case
  proof (cases "pos < consumed \<and> buf ! pos = 0x0A")
    case False
    then show ?thesis using less.prems
      by (subst walk_fields.simps) (auto simp: index_def)
  next
    case True
    then have i: "index buf pos = Some 0x0A" using less.prems by (simp add: index_def)
    obtain data where sl: "slice buf (pos + 1) consumed = Some data" using True less.prems(2) by simp
    show ?thesis
    proof (cases "decode_varint data")
      case (Inl e)
      then show ?thesis using True i sl by (subst walk_fields.simps) simp
    next
      case (Inr vn)
      obtain v k where vn: "vn = (v, k)" by fastforce
      let ?s = "Suc (pos + k)" and ?e = "Suc (pos + k + unat v)"
      show ?thesis
      proof (cases "?e < 2 ^ 64 \<and> ?e \<le> consumed")
        case False
        then show ?thesis using True i sl Inr vn
          by (subst walk_fields.simps) (auto simp: checked_add_def Let_def)
      next
        case e: True
        let ?acc = "case first of None \<Rightarrow> (Some (?s, ?e), ranges)
           | Some f \<Rightarrow> (first, (if ranges = [] then [f] else ranges) @ [(?s, ?e)])"
        obtain first' ranges' where acc: "?acc = (first', ranges')" by fastforce
        have ok: "ranges_ok ?e (first', ranges')"
          using ranges_ok_push [OF less.prems(1), of ?s ?e] acc by simp
        have ca: "checked_add ?s (unat v) = Some ?e" using e by (simp add: checked_add_def)
        have "walk_fields buf n consumed pos first ranges = walk_fields buf n consumed ?e first' ranges'"
          unfolding walk_fields.simps [of buf n consumed pos first ranges] i sl
          using True Inr vn ca e acc by (simp add: Let_def)
        moreover have "consumed - ?e < consumed - pos"
          using conjunct1 [OF True] conjunct2 [OF e] by linarith
        ultimately show ?thesis
          using less.hyps [OF _ ok less.prems(2)] e by simp
      qed
    qed
  qed
qed

lemma gather_length:
  assumes "\<forall>(s, e) \<in> set rs. s \<le> e \<and> e \<le> length fr"
  shows "\<exists>d. gather fr rs out = Some d \<and> length d = length out + sum_list (map (\<lambda>(s, e). e - s) rs)"
  using assms
proof (induction rs arbitrary: out)
  case (Cons r rs)
  obtain s e where r: "r = (s, e)" by fastforce
  then show ?case using Cons.IH [of "out @ take (e - s) (drop s fr)"] Cons.prems by auto
qed simp

lemma parse_declared:
  assumes "declared_frame_len buf = Some n" "buf ! 0 = 0"
  shows "parse_grpc_message_zerocopy buf =
    (if length buf < 5 + n then Some (Inr None, buf)
     else
       (case walk_fields buf n (5 + n) 5 None [] of
          None \<Rightarrow> None
        | Some (Inl e) \<Rightarrow> Some (Inl e, buf)
        | Some (Inr acc) \<Rightarrow>
            (case gather (take (5 + n) buf) (recorded acc) [] of
               None \<Rightarrow> None
             | Some payload \<Rightarrow> Some (Inr (Some (payload, 5 + n)), drop (5 + n) buf))))"
proof -
  have "\<not> length buf < 5" "n = unat (u32_from_be_bytes (buf ! 1) (buf ! 2) (buf ! 3) (buf ! 4))"
    using assms(1) by (auto simp: declared_frame_len_def split: if_splits)
  then show ?thesis
    using assms(2) unfolding parse_grpc_message_zerocopy_def
    by (simp add: Let_def payload_recorded split: option.split sum.split prod.split del: One_nat_def)
qed

lemma parse_safe:
  "\<exists>r buf'. parse_grpc_message_zerocopy buf = Some (r, buf') \<and>
     (case r of
        Inl e \<Rightarrow> buf' = buf
      | Inr None \<Rightarrow> buf' = buf \<and>
          (case declared_frame_len buf of None \<Rightarrow> True | Some n \<Rightarrow> length buf < 5 + n)
      | Inr (Some (payload, n)) \<Rightarrow>
          declared_frame_len buf = Some (n - 5) \<and> 5 \<le> n \<and> n \<le> length buf \<and>
          buf' = drop n buf \<and> length payload \<le> n - 5)"
proof (cases "length buf < 5 \<or> buf ! 0 \<noteq> 0")
  case True
  then show ?thesis by (auto simp: parse_grpc_message_zerocopy_def declared_frame_len_def)
next
  case False
  then obtain n where d: "declared_frame_len buf = Some n" by (auto simp: declared_frame_len_def)
  note parse = parse_declared [OF d]
  show ?thesis
  proof (cases "length buf < 5 + n")
    case True
    then show ?thesis using False d by (simp add: parse)
  next
    case len: False
    have "ranges_ok 5 (None, [])" by (simp add: ranges_ok_def recorded_def)
    then obtain r where w: "walk_fields buf n (5 + n) 5 None [] = Some r"
      and r: "case r of Inl e \<Rightarrow> True | Inr acc \<Rightarrow> ranges_ok (5 + n) acc"
      using walk_fields_safe [of 5 None "[]" "5 + n" buf n] len by auto
    show ?thesis
    proof (cases r)
      case (Inl e)
      then show ?thesis using w False len by (simp add: parse)
    next
      case (Inr acc)
      have ok: "ranges_ok (5 + n) acc" using r Inr by simp
      then have "\<forall>(s, e) \<in> set (recorded acc). s \<le> e \<and> e \<le> length (take (5 + n) buf)"
        using len by (auto simp: ranges_ok_def)
      from gather_length [OF this, of "[]"] obtain p where
        p: "gather (take (5 + n) buf) (recorded acc) [] = Some p" "length p \<le> n"
        using ok by (auto simp: ranges_ok_def)
      show ?thesis using w Inr p False d len by (simp add: parse)
    qed
  qed
qed

lemma length_message_single:
  assumes "length p \<le> 2 ^ 32 - 7"
  shows "length (message [p]) < 2 ^ 32"
proof -
  have "unat (of_nat (length p) :: u64) = length p" using assms by (simp add: unat_of_nat)
  then have "unat (of_nat (length p) :: u64) < 2 ^ (7 * 5)" using assms by simp
  then have "length (varint (of_nat (length p))) \<le> 5" by (rule length_varint_le) simp
  then show ?thesis using assms by (simp add: message_def length_field)
qed

section \<open>Properties\<close>

text \<open>
  C32: A message that \<open>encode_grpc_message\<close> wrote is parsed back to its payload, using exactly its
  own bytes and leaving what follows, and every proper prefix of it is answered with ``more data''
  and left in the buffer.  The bound on the payload is that of the 32-bit frame length.
\<close>

theorem grpc_roundtrip:
  assumes "length p \<le> 2 ^ 32 - 7"
  shows "parse_grpc_message_zerocopy (encode_grpc_message p @ rest) =
      Some (Inr (Some (p, length (encode_grpc_message p))), rest) \<and>
    (\<forall>k < length (encode_grpc_message p).
       parse_grpc_message_zerocopy (take k (encode_grpc_message p)) =
         Some (Inr None, take k (encode_grpc_message p)))"
  using parse_frame [OF length_message_single [OF assms], of rest] parse_short [OF length_message_single [OF assms]]
  by (simp add: encode_grpc_frame)

theorem grpc_roundtrip_witness:
  "parse_grpc_message_zerocopy (encode_grpc_message [1, 2, 3] @ [9]) =
     Some (Inr (Some ([1, 2, 3], length (encode_grpc_message [1, 2, 3]))), [9])"
  using grpc_roundtrip [of "[1, 2, 3]" "[9]"] by simp

text \<open>
  A frame of any number of protobuf fields (\<open>Hunk\<close> or \<open>MultiHunk\<close>, the empty message
  included) is parsed to the concatenation of the fields, in order.
\<close>

lemma grpc_multihunk:
  assumes "length (concat (map (\<lambda>p. 0x0A # encode_varint (of_nat (length p)) [] @ p) ps)) < 2 ^ 32"
  shows "parse_grpc_message_zerocopy
      ([0x00] @ u32_to_be_bytes (of_nat (length (concat (map (\<lambda>p. 0x0A # encode_varint (of_nat (length p)) [] @ p) ps))))
        @ concat (map (\<lambda>p. 0x0A # encode_varint (of_nat (length p)) [] @ p) ps) @ rest) =
    Some (Inr (Some (concat ps, 5 + length (concat (map (\<lambda>p. 0x0A # encode_varint (of_nat (length p)) [] @ p) ps)))), rest)"
proof -
  have f: "(\<lambda>p. 0x0A # encode_varint (of_nat (length p)) [] @ p) = field"
    by (simp add: fun_eq_iff field_def varint_def)
  show ?thesis
    using parse_frame [of ps rest] assms unfolding f message_def [symmetric]
    by (simp add: frame_def)
qed

text \<open>
  C31: Whatever bytes the peer sends, the parser returns and never panics.  An error leaves the
  buffer alone; ``more data'' is answered only while the declared frame has not arrived; and a
  message consumes exactly the declared frame, leaves the rest, and yields at most as many bytes
  as the frame holds.
\<close>

theorem grpc_parse_total:
  "\<exists>r buf'. parse_grpc_message_zerocopy buf = Some (r, buf') \<and>
     (case r of
        Inl e \<Rightarrow> buf' = buf
      | Inr None \<Rightarrow> buf' = buf \<and>
          (case declared_frame_len buf of None \<Rightarrow> True | Some n \<Rightarrow> length buf < 5 + n)
      | Inr (Some (payload, n)) \<Rightarrow>
          declared_frame_len buf = Some (n - 5) \<and> 5 \<le> n \<and> n \<le> length buf \<and>
          buf' = drop n buf \<and> length payload \<le> n - 5)"
  by (rule parse_safe)

text \<open>
  \<open>decode_varint\<close> inverts \<open>encode_varint\<close> on every 64-bit value, and \<open>varint_len\<close>, with
  which the encoder computes the frame length in advance, is the number of bytes written, at most
  ten.
\<close>

lemma varint_roundtrip:
  "encode_varint v buf = buf @ encode_varint v [] \<and>
   decode_varint (encode_varint v [] @ rest) = Inr (v, varint_len v) \<and>
   varint_len v = length (encode_varint v []) \<and> 1 \<le> varint_len v \<and> varint_len v \<le> 10"
  using decode_varint_varint [of v rest] length_varint [of v] encode_varint_eq [of v buf]
  by (simp add: varint_len_eq varint_def Suc_le_eq)

end
