(* ===== verification/Grpc_Transport.thy ===== *)
theory Grpc_Transport
  imports Grpc_Codec Stream_Calls
begin

text \<open>
  \<open>src/src/transport/grpc/transport.rs\<close>: a gRPC stream as a byte stream.

  The two halves of the HTTP/2 stream are the parameter \<open>h2\<close>, a state with the calls the transport
  makes; what the peer does is part of that state.  The loops take fuel: a poll is \<open>Done\<close> when it
  returned, \<open>Looping\<close> when the fuel ended first, and \<open>Panics\<close> when the codec would.  The capacity of
  the read buffer is left out, except for the function that computes its growth.
\<close>

section \<open>The HTTP/2 stream underneath\<close>

datatype reason = NO_ERROR | CANCEL | Other_Reason nat

datatype h2_error = H2_Error (he_reason: "reason option") (he_remote: bool) (he_io: bool) (he_msg: string)

type_synonym headers = "(string \<times> string) list"

record 'h h2 =
  h2_poll_data :: "'h \<Rightarrow> (h2_error + bytes) option poll \<times> 'h"
  h2_release_capacity :: "'h \<Rightarrow> nat \<Rightarrow> 'h"
  h2_send_response :: "'h \<Rightarrow> headers \<Rightarrow> bool \<Rightarrow> (h2_error + unit) \<times> 'h"
  h2_capacity :: "'h \<Rightarrow> nat"
  h2_reserve_capacity :: "'h \<Rightarrow> nat \<Rightarrow> 'h"
  h2_poll_capacity :: "'h \<Rightarrow> (h2_error + nat) option poll \<times> 'h"
  h2_send_data :: "'h \<Rightarrow> bytes \<Rightarrow> (h2_error + unit) \<times> 'h"
  h2_send_trailers :: "'h \<Rightarrow> headers \<Rightarrow> (h2_error + unit) \<times> 'h"

section \<open>The transport\<close>

definition INITIAL_READ_BUFFER_SIZE :: nat where "INITIAL_READ_BUFFER_SIZE = 8 * 1024"
definition MAX_READ_BUFFER_SIZE :: nat where "MAX_READ_BUFFER_SIZE = 128 * 1024"
definition MAX_INBOUND_FRAME_LEN :: nat where "MAX_INBOUND_FRAME_LEN = 256 * 1024"
definition MAX_FRAME_SIZE :: nat where "MAX_FRAME_SIZE = 64 * 1024"
definition DEFAULT_GRPC_MAX_MESSAGE_SIZE :: nat where "DEFAULT_GRPC_MAX_MESSAGE_SIZE = 32 * 1024"
definition MAX_SEND_QUEUE_BYTES :: nat where "MAX_SEND_QUEUE_BYTES = 128 * 1024"

text \<open>\<open>gt_open\<close> says that the responder is \<open>Open\<close>; the activity flag is there when a heartbeat shares it.\<close>

record 'h grpc_transport =
  gt_h2 :: 'h
  gt_open :: bool
  gt_read_pending :: bytes
  gt_read_buf :: bytes
  gt_read_pos :: nat
  gt_pending_release_capacity :: nat
  gt_send_queue :: "bytes list"
  gt_send_queue_bytes :: nat
  gt_current_frame :: "bytes option"
  gt_current_frame_offset :: nat
  gt_max_message_size :: nat
  gt_activity :: "bool option"
  gt_read_closed :: bool
  gt_write_closed :: bool

definition with_activity :: "'h \<Rightarrow> nat \<Rightarrow> bool option \<Rightarrow> 'h grpc_transport" where
  "with_activity h max_message_size activity =
     \<lparr>gt_h2 = h, gt_open = False, gt_read_pending = [], gt_read_buf = [], gt_read_pos = 0, gt_pending_release_capacity = 0,
      gt_send_queue = [], gt_send_queue_bytes = 0, gt_current_frame = None, gt_current_frame_offset = 0,
      gt_max_message_size = (if max_message_size = 0 then DEFAULT_GRPC_MAX_MESSAGE_SIZE else max_message_size),
      gt_activity = activity, gt_read_closed = False, gt_write_closed = False\<rparr>"

definition read_buffer_reserve :: "nat \<Rightarrow> nat \<Rightarrow> nat \<Rightarrow> nat" where
  "read_buffer_reserve len capacity additional =
     (let needed = len + additional in
      if capacity \<ge> needed then 0
      else max needed (min (capacity * 2) MAX_READ_BUFFER_SIZE) - len)"

fun is_normal_stream_close :: "h2_error \<Rightarrow> bool" where
  "is_normal_stream_close e = (case he_reason e of Some r \<Rightarrow> r = NO_ERROR \<or> r = CANCEL | None \<Rightarrow> False)"

datatype 'a polled = Done 'a | Looping | Panics

section \<open>Reading\<close>

definition note_activity :: "'h grpc_transport \<Rightarrow> 'h grpc_transport" where
  "note_activity self = self\<lparr>gt_activity := map_option (\<lambda>_. True) (gt_activity self)\<rparr>"

definition release_capacity :: "'h h2 \<Rightarrow> nat \<Rightarrow> 'h grpc_transport \<Rightarrow> 'h grpc_transport" where
  "release_capacity H consumed self =
     (let to_release = min (gt_pending_release_capacity self) consumed in
      if to_release > 0 then
        self\<lparr>gt_h2 := h2_release_capacity H (gt_h2 self) to_release,
            gt_pending_release_capacity := gt_pending_release_capacity self - to_release\<rparr>
      else self)"

text \<open>A round of the loop: \<open>None\<close> is \<open>continue\<close>.  First the data of the stream, then a round that tries to parse.\<close>

definition gt_receive :: "'h h2 \<Rightarrow> 'h grpc_transport \<Rightarrow> bytes io_result poll polled option \<times> 'h grpc_transport" where
  "gt_receive H self =
     (case h2_poll_data H (gt_h2 self) of (r, h) \<Rightarrow>
        let self = self\<lparr>gt_h2 := h\<rparr> in
        case r of
          Ready (Some (Inr chunk)) \<Rightarrow>
            let self = note_activity self in
            (None, self\<lparr>gt_read_pending := gt_read_pending self @ chunk,
                       gt_pending_release_capacity := gt_pending_release_capacity self + length chunk\<rparr>)
        | Ready (Some (Inl e)) \<Rightarrow>
            (Some (Done (Ready
               (if is_normal_stream_close e \<and> gt_read_pending self = [] then Inr []
                else if is_normal_stream_close e then Inl (Io_Error UnexpectedEof ''gRPC stream closed mid-frame'')
                else Inl (Io_Error OtherKind (''gRPC recv error: '' @ he_msg e))))),
             self\<lparr>gt_read_closed := True\<rparr>)
        | Ready None \<Rightarrow>
            (Some (Done (Ready
               (if gt_read_pending self \<noteq> [] then Inl (Io_Error UnexpectedEof ''gRPC stream ended mid-frame'')
                else Inr []))),
             self\<lparr>gt_read_closed := True\<rparr>)
        | Pending \<Rightarrow> (Some (Done Pending), self))"

definition frame_too_long :: "bytes \<Rightarrow> nat option" where
  "frame_too_long buf =
     (case declared_frame_len buf of
        Some declared \<Rightarrow> if declared > MAX_INBOUND_FRAME_LEN then Some declared else None
      | None \<Rightarrow> None)"

definition gt_round :: "'h h2 \<Rightarrow> 'h grpc_transport \<Rightarrow> nat \<Rightarrow> bytes io_result poll polled option \<times> 'h grpc_transport" where
  "gt_round H self remaining =
     (case frame_too_long (gt_read_pending self) of
        Some declared \<Rightarrow>
          (Some (Done (Ready (Inl (Io_Error InvalidData
             (''gRPC frame length '' @ show_nat declared @ '' exceeds limit '' @ show_nat MAX_INBOUND_FRAME_LEN))))),
           self\<lparr>gt_read_closed := True\<rparr>)
      | None \<Rightarrow>
          (case parse_grpc_message_zerocopy (gt_read_pending self) of
             None \<Rightarrow> (Some Panics, self)
           | Some (Inl e, buf) \<Rightarrow> (Some (Done (Ready (Inl e))), self\<lparr>gt_read_pending := buf\<rparr>)
           | Some (Inr None, buf) \<Rightarrow> gt_receive H (self\<lparr>gt_read_pending := buf\<rparr>)
           | Some (Inr (Some (payload, consumed)), buf) \<Rightarrow>
               let self = release_capacity H consumed (self\<lparr>gt_read_pending := buf\<rparr>) in
               if payload = [] then (None, self)
               else
                 let to_copy = min (length payload) remaining in
                 (Some (Done (Ready (Inr (take to_copy payload)))),
                  if to_copy < length payload then self\<lparr>gt_read_buf := drop to_copy payload, gt_read_pos := 0\<rparr> else self)))"

fun gt_read_loop :: "nat \<Rightarrow> 'h h2 \<Rightarrow> 'h grpc_transport \<Rightarrow> nat \<Rightarrow> bytes io_result poll polled \<times> 'h grpc_transport" where
  "gt_read_loop 0 H self remaining = (Looping, self)"
| "gt_read_loop (Suc fuel) H self remaining =
     (case gt_round H self remaining of
        (Some r, self') \<Rightarrow> (r, self')
      | (None, self') \<Rightarrow> gt_read_loop fuel H self' remaining)"

definition gt_poll_read :: "nat \<Rightarrow> 'h h2 \<Rightarrow> 'h grpc_transport \<Rightarrow> nat \<Rightarrow> bytes io_result poll polled \<times> 'h grpc_transport" where
  "gt_poll_read fuel H self remaining =
     (if gt_read_closed self then (Done (Ready (Inr [])), self)
      else if gt_read_pos self < length (gt_read_buf self) then
        let rest = drop (gt_read_pos self) (gt_read_buf self);
            to_copy = min (length rest) remaining;
            pos = gt_read_pos self + to_copy in
        (Done (Ready (Inr (take to_copy rest))),
         if pos \<ge> length (gt_read_buf self) then self\<lparr>gt_read_buf := [], gt_read_pos := 0\<rparr>
         else self\<lparr>gt_read_pos := pos\<rparr>)
      else gt_read_loop fuel H self remaining)"

section \<open>Writing\<close>

definition response_headers :: headers where
  "response_headers =
     [('':status'', ''200''), (''content-type'', ''application/grpc''), (''grpc-accept-encoding'', ''identity,deflate,gzip'')]"

definition open_stream :: "'h h2 \<Rightarrow> 'h grpc_transport \<Rightarrow> unit io_result \<times> 'h grpc_transport" where
  "open_stream H self =
     (if gt_open self then (Inr (), self)
      else
        (case h2_send_response H (gt_h2 self) response_headers False of
           (Inl e, h) \<Rightarrow> (Inl (Io_Error BrokenPipe (''gRPC send response error: '' @ he_msg e)), self\<lparr>gt_h2 := h\<rparr>)
         | (Inr _, h) \<Rightarrow> (Inr (), self\<lparr>gt_h2 := h, gt_open := True\<rparr>)))"

text \<open>The loop of \<open>poll_send_current_frame\<close> with its local offset.\<close>

fun gt_send_loop :: "nat \<Rightarrow> 'h h2 \<Rightarrow> bytes \<Rightarrow> nat \<Rightarrow> 'h grpc_transport \<Rightarrow> unit io_result poll polled \<times> 'h grpc_transport" where
  "gt_send_loop 0 H data offset self = (Looping, self)"
| "gt_send_loop (Suc fuel) H data offset self =
     (let remaining = length data - offset in
      if remaining = 0 then (Done (Ready (Inr ())), self\<lparr>gt_current_frame_offset := offset\<rparr>)
      else if h2_capacity H (gt_h2 self) = 0 then
        (case h2_poll_capacity H (h2_reserve_capacity H (gt_h2 self) (min remaining MAX_FRAME_SIZE)) of (r, h) \<Rightarrow>
           let self = self\<lparr>gt_h2 := h\<rparr> in
           case r of
             Ready (Some (Inr _)) \<Rightarrow> gt_send_loop fuel H data offset self
           | Ready (Some (Inl e)) \<Rightarrow> (Done (Ready (Inl (Io_Error OtherKind (''gRPC capacity error: '' @ he_msg e)))), self)
           | Ready None \<Rightarrow> (Done (Ready (Inl (Io_Error BrokenPipe ''gRPC stream closed''))), self)
           | Pending \<Rightarrow> (Done Pending, self\<lparr>gt_current_frame_offset := offset\<rparr>))
      else
        let send_size = min remaining (h2_capacity H (gt_h2 self)) in
        (case h2_send_data H (gt_h2 self) (take send_size (drop offset data)) of
           (Inl e, h) \<Rightarrow> (Done (Ready (Inl (Io_Error BrokenPipe (''gRPC send error: '' @ he_msg e)))), self\<lparr>gt_h2 := h\<rparr>)
         | (Inr _, h) \<Rightarrow>
             let self = self\<lparr>gt_h2 := h\<rparr>; offset = offset + send_size in
             if offset \<ge> length data then (Done (Ready (Inr ())), self\<lparr>gt_current_frame_offset := offset\<rparr>)
             else gt_send_loop fuel H data offset self))"

definition poll_send_current_frame ::
    "nat \<Rightarrow> 'h h2 \<Rightarrow> 'h grpc_transport \<Rightarrow> unit io_result poll polled \<times> 'h grpc_transport" where
  "poll_send_current_frame fuel H self =
     (case gt_current_frame self of
        None \<Rightarrow> (Done (Ready (Inr ())), self)
      | Some data \<Rightarrow>
          (case open_stream H self of
             (Inl e, self') \<Rightarrow> (Done (Ready (Inl e)), self')
           | (Inr _, self') \<Rightarrow> gt_send_loop fuel H data (gt_current_frame_offset self) self'))"

text \<open>The first half of a round of \<open>poll_send_queued\<close>: finish the current frame, if there is one.\<close>

definition gt_finish_current ::
    "nat \<Rightarrow> 'h h2 \<Rightarrow> 'h grpc_transport \<Rightarrow> unit io_result poll polled \<times> 'h grpc_transport" where
  "gt_finish_current fuel H self =
     (case gt_current_frame self of
        None \<Rightarrow> (Done (Ready (Inr ())), self)
      | Some data \<Rightarrow>
          if length data - gt_current_frame_offset self > 0 then
            (case poll_send_current_frame fuel H self of
               (Done (Ready (Inr _)), self') \<Rightarrow>
                 (Done (Ready (Inr ())),
                  self'\<lparr>gt_send_queue_bytes := gt_send_queue_bytes self' - length data,
                       gt_current_frame := None, gt_current_frame_offset := 0\<rparr>)
             | (r, self') \<Rightarrow> (r, self'))
          else (Done (Ready (Inr ())), self\<lparr>gt_current_frame := None, gt_current_frame_offset := 0\<rparr>))"

fun poll_send_queued :: "nat \<Rightarrow> 'h h2 \<Rightarrow> 'h grpc_transport \<Rightarrow> unit io_result poll polled \<times> 'h grpc_transport" where
  "poll_send_queued 0 H self = (Looping, self)"
| "poll_send_queued (Suc fuel) H self =
     (case gt_finish_current fuel H self of
        (Done (Ready (Inr _)), self) \<Rightarrow>
          (case gt_send_queue self of
             q # qs \<Rightarrow>
               poll_send_queued fuel H (self\<lparr>gt_send_queue := qs, gt_current_frame := Some q, gt_current_frame_offset := 0\<rparr>)
           | [] \<Rightarrow> (Done (Ready (Inr ())), self))
      | (r, self) \<Rightarrow> (r, self))"

text \<open>\<open>poll_write\<close> drops the outcome of the sends unless it is an error.\<close>

definition gt_poll_write :: "nat \<Rightarrow> 'h h2 \<Rightarrow> 'h grpc_transport \<Rightarrow> bytes \<Rightarrow> nat io_result poll polled \<times> 'h grpc_transport" where
  "gt_poll_write fuel H self buf =
     (if gt_write_closed self then (Done (Ready (Inl (Io_Error BrokenPipe ''transport closed''))), self)
      else
        (case poll_send_queued fuel H self of
           (Looping, self) \<Rightarrow> (Looping, self)
         | (Panics, self) \<Rightarrow> (Panics, self)
         | (Done (Ready (Inl e)), self) \<Rightarrow> (Done (Ready (Inl e)), self)
         | (Done _, self) \<Rightarrow>
             if gt_send_queue_bytes self \<ge> MAX_SEND_QUEUE_BYTES then (Done Pending, self)
             else
               let to_write = min (length buf) (gt_max_message_size self);
                   data = encode_grpc_message (take to_write buf);
                   self = self\<lparr>gt_send_queue := gt_send_queue self @ [data],
                               gt_send_queue_bytes := gt_send_queue_bytes self + length data\<rparr> in
               (case poll_send_queued fuel H self of
                  (Looping, self) \<Rightarrow> (Looping, self)
                | (Panics, self) \<Rightarrow> (Panics, self)
                | (Done (Ready (Inl e)), self) \<Rightarrow> (Done (Ready (Inl e)), self)
                | (Done _, self) \<Rightarrow> (Done (Ready (Inr to_write)), self))))"

definition gt_poll_flush :: "nat \<Rightarrow> 'h h2 \<Rightarrow> 'h grpc_transport \<Rightarrow> unit io_result poll polled \<times> 'h grpc_transport" where
  "gt_poll_flush fuel H self = poll_send_queued fuel H self"

definition send_end :: "'h h2 \<Rightarrow> 'h grpc_transport \<Rightarrow> unit io_result \<times> 'h grpc_transport" where
  "send_end H self =
     (case (if gt_open self then h2_send_trailers H (gt_h2 self) [(''grpc-status'', ''0'')]
            else h2_send_response H (gt_h2 self) (response_headers @ [(''grpc-status'', ''0'')]) True) of
        (Inr _, h) \<Rightarrow> (Inr (), self\<lparr>gt_h2 := h\<rparr>)
      | (Inl e, h) \<Rightarrow>
          (if he_remote e \<or> he_io e then Inr ()
           else Inl (Io_Error OtherKind (''gRPC send trailers error: '' @ he_msg e)), self\<lparr>gt_h2 := h\<rparr>))"

definition gt_poll_shutdown :: "nat \<Rightarrow> 'h h2 \<Rightarrow> 'h grpc_transport \<Rightarrow> unit io_result poll polled \<times> 'h grpc_transport" where
  "gt_poll_shutdown fuel H self =
     (if gt_write_closed self \<and> gt_send_queue self = [] \<and> gt_current_frame self = None then (Done (Ready (Inr ())), self)
      else
        (case gt_poll_flush fuel H (self\<lparr>gt_write_closed := True\<rparr>) of
           (Done (Ready (Inr _)), self) \<Rightarrow> (case send_end H self of (r, self) \<Rightarrow> (Done (Ready r), self))
         | (r, self) \<Rightarrow> (r, self)))"

text \<open>
  The transport as a stream.  Nothing is called after a poll that has not returned, which is
  therefore given as an error: a sequence of calls without error is one of calls that returned.
\<close>

fun settled :: "'a io_result poll polled \<Rightarrow> 'a io_result poll" where
  "settled (Done r) = r"
| "settled Looping = Ready (Inl (Io_Error OtherKind ''the poll has not returned''))"
| "settled Panics = Ready (Inl (Io_Error OtherKind ''panic''))"

definition grpc_ops :: "nat \<Rightarrow> 'h h2 \<Rightarrow> 'h grpc_transport stream_ops" where
  "grpc_ops fuel H =
     \<lparr>poll_read = (\<lambda>self n. apfst settled (gt_poll_read fuel H self n)),
      poll_write = (\<lambda>self buf. apfst settled (gt_poll_write fuel H self buf)),
      poll_flush = (\<lambda>self. apfst settled (gt_poll_flush fuel H self)),
      poll_shutdown = (\<lambda>self. apfst settled (gt_poll_shutdown fuel H self))\<rparr>"


section \<open>The frames of a stream\<close>

lemma walk_fields_append:
  "consumed \<le> length buf \<Longrightarrow> walk_fields (buf @ b) n consumed pos first rs = walk_fields buf n consumed pos first rs"
proof (induction buf n consumed pos first rs rule: walk_fields.induct)
  case (1 buf n consumed pos first rs)
  have i: "pos < consumed \<Longrightarrow> index (buf @ b) pos = index buf pos" "pos < consumed \<Longrightarrow> slice (buf @ b) (pos + 1) consumed = slice buf (pos + 1) consumed"
    using "1.prems" by (simp_all add: index_def nth_append slice_def)
  show ?case
    unfolding walk_fields.simps [of "buf @ b" n consumed pos] walk_fields.simps [of buf n consumed pos]
    using 1 i by (auto simp: Let_def split: option.splits sum.splits if_splits prod.splits)
qed

lemma parse_append:
  assumes "parse_grpc_message_zerocopy buf = Some (Inr (Some (p, n)), rest)"
  shows "parse_grpc_message_zerocopy (buf @ b) = Some (Inr (Some (p, n)), rest @ b)"
proof -
  define m where "m = n - 5"
  have m: "declared_frame_len buf = Some m" "5 + m \<le> length buf" "n = 5 + m"
    using parse_safe [of buf] assms by (auto simp: m_def)
  have z: "buf ! 0 = 0" using assms by (auto simp: parse_grpc_message_zerocopy_def split: if_splits)
  have "declared_frame_len (buf @ b) = Some m" "(buf @ b) ! 0 = 0"
    using m z by (auto simp: declared_frame_len_def nth_append split: if_splits)
  then show ?thesis
    using assms m z by (auto simp: parse_declared walk_fields_append split: option.splits sum.splits)
qed

text \<open>The payloads of the complete messages at the front of a stream, and what is left.\<close>

function deframe :: "bytes \<Rightarrow> bytes \<times> bytes" where
  "deframe buf =
     (case parse_grpc_message_zerocopy buf of
        Some (Inr (Some (p, n)), rest) \<Rightarrow> (case deframe rest of (ps, r) \<Rightarrow> (p @ ps, r))
      | _ \<Rightarrow> ([], buf))"
  by auto
termination deframe
proof (relation "measure length")
  fix buf :: bytes and x2 a rest x2a x2b p n
  assume "parse_grpc_message_zerocopy buf = Some x2" "(a, rest) = x2" "a = Inr x2a" "x2a = Some x2b" "(p, n) = x2b"
  then show "(rest, buf) \<in> measure length" using parse_safe [of buf] by auto
qed simp

declare deframe.simps [simp del]

lemma deframe_message:
  "parse_grpc_message_zerocopy buf = Some (Inr (Some (p, n)), rest) \<Longrightarrow> deframe buf = (p @ fst (deframe rest), snd (deframe rest))"
  by (simp add: deframe.simps [of buf] split: prod.splits)

lemma deframe_other:
  "(\<And>p n rest. parse_grpc_message_zerocopy buf \<noteq> Some (Inr (Some (p, n)), rest)) \<Longrightarrow> deframe buf = ([], buf)"
  by (subst deframe.simps) (auto split: option.splits sum.splits prod.splits)

lemma deframe_append:
  "deframe (a @ b) = (fst (deframe a) @ fst (deframe (snd (deframe a) @ b)), snd (deframe (snd (deframe a) @ b)))"
proof (induction a rule: deframe.induct)
  case (1 a)
  show ?case
  proof (cases "\<exists>p n rest. parse_grpc_message_zerocopy a = Some (Inr (Some (p, n)), rest)")
    case True
    then obtain p n rest where a: "parse_grpc_message_zerocopy a = Some (Inr (Some (p, n)), rest)" by blast
    show ?thesis
      unfolding deframe_message [OF a] deframe_message [OF parse_append [OF a]]
      using "1.IH" [OF a refl refl refl refl] by simp
  next
    case False
    then show ?thesis by (subst (2 3 4) deframe_other) auto
  qed
qed

section \<open>Histories\<close>

text \<open>What the HTTP/2 stream delivered, released and took, as a log around any stream.\<close>

datatype h2_sent = Sent_Headers headers bool | Sent_Data bytes | Sent_Trailers headers

record 'h h2_logged =
  hl_inner :: 'h
  hl_received :: bytes
  hl_released :: nat
  hl_sent :: "h2_sent list"

definition hl_took :: "'h \<Rightarrow> (h2_error + unit) \<Rightarrow> h2_sent \<Rightarrow> 'h h2_logged \<Rightarrow> (h2_error + unit) \<times> 'h h2_logged" where
  "hl_took i r x s = (r, s\<lparr>hl_inner := i, hl_sent := hl_sent s @ (case r of Inr _ \<Rightarrow> [x] | Inl _ \<Rightarrow> [])\<rparr>)"

definition h2_logged_ops :: "'h h2 \<Rightarrow> 'h h2_logged h2" where
  "h2_logged_ops H =
     \<lparr>h2_poll_data = (\<lambda>s. case h2_poll_data H (hl_inner s) of (r, i) \<Rightarrow>
          (r, s\<lparr>hl_inner := i, hl_received := hl_received s @ (case r of Ready (Some (Inr c)) \<Rightarrow> c | _ \<Rightarrow> [])\<rparr>)),
      h2_release_capacity = (\<lambda>s n. s\<lparr>hl_inner := h2_release_capacity H (hl_inner s) n, hl_released := hl_released s + n\<rparr>),
      h2_send_response = (\<lambda>s hs fin. case h2_send_response H (hl_inner s) hs fin of (r, i) \<Rightarrow> hl_took i r (Sent_Headers hs fin) s),
      h2_capacity = (\<lambda>s. h2_capacity H (hl_inner s)),
      h2_reserve_capacity = (\<lambda>s n. s\<lparr>hl_inner := h2_reserve_capacity H (hl_inner s) n\<rparr>),
      h2_poll_capacity = (\<lambda>s. case h2_poll_capacity H (hl_inner s) of (r, i) \<Rightarrow> (r, s\<lparr>hl_inner := i\<rparr>)),
      h2_send_data = (\<lambda>s d. case h2_send_data H (hl_inner s) d of (r, i) \<Rightarrow> hl_took i r (Sent_Data d) s),
      h2_send_trailers = (\<lambda>s hs. case h2_send_trailers H (hl_inner s) hs of (r, i) \<Rightarrow> hl_took i r (Sent_Trailers hs) s)\<rparr>"

lemma h2_logged_sel:
  "h2_poll_data (h2_logged_ops H) s = (case h2_poll_data H (hl_inner s) of (r, i) \<Rightarrow>
     (r, s\<lparr>hl_inner := i, hl_received := hl_received s @ (case r of Ready (Some (Inr c)) \<Rightarrow> c | _ \<Rightarrow> [])\<rparr>))"
  "h2_release_capacity (h2_logged_ops H) s n = s\<lparr>hl_inner := h2_release_capacity H (hl_inner s) n, hl_released := hl_released s + n\<rparr>"
  "h2_send_response (h2_logged_ops H) s hs fin =
     (case h2_send_response H (hl_inner s) hs fin of (r, i) \<Rightarrow> hl_took i r (Sent_Headers hs fin) s)"
  "h2_capacity (h2_logged_ops H) s = h2_capacity H (hl_inner s)"
  "h2_reserve_capacity (h2_logged_ops H) s n = s\<lparr>hl_inner := h2_reserve_capacity H (hl_inner s) n\<rparr>"
  "h2_poll_capacity (h2_logged_ops H) s = (case h2_poll_capacity H (hl_inner s) of (q, i) \<Rightarrow> (q, s\<lparr>hl_inner := i\<rparr>))"
  "h2_send_data (h2_logged_ops H) s d = (case h2_send_data H (hl_inner s) d of (r, i) \<Rightarrow> hl_took i r (Sent_Data d) s)"
  "h2_send_trailers (h2_logged_ops H) s hs = (case h2_send_trailers H (hl_inner s) hs of (r, i) \<Rightarrow> hl_took i r (Sent_Trailers hs) s)"
  by (simp_all add: h2_logged_ops_def)

section \<open>Reading: invariant\<close>

definition gt_rest :: "'h grpc_transport \<Rightarrow> bytes" where
  "gt_rest s = drop (gt_read_pos s) (gt_read_buf s)"

text \<open>An HTTP/2 stream never delivers more than the advertised frame size at once.\<close>

definition chunks_bounded :: "'h h2 \<Rightarrow> bool" where
  "chunks_bounded H \<longleftrightarrow> (\<forall>h c h'. h2_poll_data H h = (Ready (Some (Inr c)), h') \<longrightarrow> length c \<le> MAX_FRAME_SIZE)"

text \<open>
  The read side: what was handed out, what is buffered and the complete messages still in
  \<open>read_pending\<close> are the messages of the stream received; every byte received is either released to
  the peer's window or still pending; and the pending bytes are bounded.
\<close>

definition read_inv :: "'h h2 \<Rightarrow> bytes \<Rightarrow> 'h h2_logged grpc_transport \<Rightarrow> bool" where
  "read_inv H rx s \<longleftrightarrow>
     rx @ gt_rest s @ fst (deframe (gt_read_pending s)) = fst (deframe (hl_received (gt_h2 s))) \<and>
     snd (deframe (gt_read_pending s)) = snd (deframe (hl_received (gt_h2 s))) \<and>
     gt_pending_release_capacity s = length (gt_read_pending s) \<and>
     hl_released (gt_h2 s) + length (gt_read_pending s) = length (hl_received (gt_h2 s)) \<and>
     (chunks_bounded H \<longrightarrow> length (gt_read_pending s) < 5 + MAX_INBOUND_FRAME_LEN + MAX_FRAME_SIZE) \<and>
     (gt_read_closed s \<longrightarrow> gt_rest s = [])"

text \<open>What only the write side changes.\<close>

definition write_view :: "'h h2_logged grpc_transport \<Rightarrow> _" where
  "write_view s =
     (gt_open s, gt_send_queue s, gt_send_queue_bytes s, gt_current_frame s, gt_current_frame_offset s, gt_max_message_size s,
      gt_write_closed s, hl_sent (gt_h2 s))"

lemma parse_cases [case_names failed incomplete message]:
  obtains
    (failed) e where "parse_grpc_message_zerocopy buf = Some (Inl e, buf)" "deframe buf = ([], buf)"
  | (incomplete) "parse_grpc_message_zerocopy buf = Some (Inr None, buf)" "deframe buf = ([], buf)"
      "frame_too_long buf = None \<longrightarrow> length buf < 5 + MAX_INBOUND_FRAME_LEN"
  | (message) p n where "parse_grpc_message_zerocopy buf = Some (Inr (Some (p, n)), drop n buf)" "n \<le> length buf"
      "deframe buf = (p @ fst (deframe (drop n buf)), snd (deframe (drop n buf)))"
proof -
  obtain r buf' where r: "parse_grpc_message_zerocopy buf = Some (r, buf')"
    "case r of
        Inl e \<Rightarrow> buf' = buf
      | Inr None \<Rightarrow> buf' = buf \<and>
          (case declared_frame_len buf of None \<Rightarrow> True | Some n \<Rightarrow> length buf < 5 + n)
      | Inr (Some (payload, n)) \<Rightarrow>
          declared_frame_len buf = Some (n - 5) \<and> 5 \<le> n \<and> n \<le> length buf \<and>
          buf' = drop n buf \<and> length payload \<le> n - 5" using parse_safe [of buf] by blast
  show thesis
  proof (cases r)
    case (Inl e)
    then show thesis using r by (intro failed [of e]) (auto intro: deframe_other)
  next
    case (Inr x)
    show thesis
    proof (cases x)
      case None
      then show thesis
        using r Inr
        by (intro incomplete)
           (auto intro: deframe_other simp: frame_too_long_def declared_frame_len_def split: option.splits if_splits)
    next
      case (Some pn)
      obtain p n where pn: "pn = (p, n)" by fastforce
      then show thesis using r Inr Some by (intro message [of p n]) (auto dest: deframe_message)
    qed
  qed
qed

lemma gt_receive_inv:
  assumes "gt_receive (h2_logged_ops H) s = (r, s')" and "read_inv H rx s" and "gt_rest s = []"
    and "deframe (gt_read_pending s) = ([], gt_read_pending s)" and "length (gt_read_pending s) < 5 + MAX_INBOUND_FRAME_LEN"
  shows "read_inv H rx s' \<and> gt_rest s' = [] \<and> write_view s' = write_view s \<and>
    (r = None \<and> gt_read_closed s' = gt_read_closed s \<or> (\<exists>x. r = Some (Done x) \<and> (\<forall>d. x = Ready (Inr d) \<longrightarrow> d = [] \<and> gt_read_closed s' \<and> gt_read_pending s' = []) \<and>
        (x = Pending \<longrightarrow> gt_read_closed s' = gt_read_closed s)))"
proof -
  obtain q i where q: "h2_poll_data H (hl_inner (gt_h2 s)) = (q, i)" by fastforce
  note defs = gt_receive_def h2_logged_sel q note_activity_def read_inv_def gt_rest_def write_view_def Let_def
  show ?thesis
  proof (cases "\<exists>c. q = Ready (Some (Inr c))")
    case True
    then obtain c where c: "q = Ready (Some (Inr c))" by blast
    have "chunks_bounded H \<Longrightarrow> length c \<le> MAX_FRAME_SIZE" using q c by (auto simp: chunks_bounded_def)
    moreover have "deframe (hl_received (gt_h2 s) @ c) =
        (fst (deframe (hl_received (gt_h2 s))) @ fst (deframe (gt_read_pending s @ c)), snd (deframe (gt_read_pending s @ c)))"
      using assms(2,4) deframe_append [of "hl_received (gt_h2 s)" c] by (simp add: read_inv_def)
    ultimately show ?thesis using assms by (auto simp: defs c)
  next
    case False
    define s1 where "s1 = s\<lparr>gt_h2 := (gt_h2 s)\<lparr>hl_inner := i\<rparr>\<rparr>"
    define s2 where "s2 = s1\<lparr>gt_read_closed := True\<rparr>"
    note eq = assms(1) [unfolded gt_receive_def h2_logged_sel q prod.case Let_def]
    have t: "read_inv H rx s1" "gt_rest s1 = []" "write_view s1 = write_view s" "gt_read_closed s1 = gt_read_closed s"
      "read_inv H rx s2" "gt_rest s2 = []" "write_view s2 = write_view s" "gt_read_closed s2" "gt_read_pending s2 = gt_read_pending s"
      using assms(2,3) by (simp_all add: s2_def s1_def read_inv_def gt_rest_def write_view_def)
    show ?thesis
    proof (cases q rule: next_cases)
      case pending
      then have "r = Some (Done Pending)" "s' = s1" using eq by (simp_all add: s1_def)
      then show ?thesis using t by simp
    next
      case finished
      then have "\<exists>x. r = Some (Done (Ready x)) \<and> (\<forall>d. x = Inr d \<longrightarrow> d = [] \<and> gt_read_pending s = [])" "s' = s2"
        using eq by (auto simp: s1_def s2_def)
      then show ?thesis using t by auto
    next
      case (failed e)
      then have "\<exists>x. r = Some (Done (Ready x)) \<and> (\<forall>d. x = Inr d \<longrightarrow> d = [] \<and> gt_read_pending s = [])" "s' = s2"
        using eq by (auto simp: s1_def s2_def)
      then show ?thesis using t by auto
    qed (use False in blast)
  qed
qed

lemma release_capacity_eq:
  "n \<le> gt_pending_release_capacity s \<Longrightarrow> 0 < n \<Longrightarrow>
     release_capacity (h2_logged_ops H) n s =
       s\<lparr>gt_h2 := (gt_h2 s)\<lparr>hl_inner := h2_release_capacity H (hl_inner (gt_h2 s)) n, hl_released := hl_released (gt_h2 s) + n\<rparr>,
         gt_pending_release_capacity := gt_pending_release_capacity s - n\<rparr>"
  by (simp add: release_capacity_def h2_logged_sel)

text \<open>The outcome of a read: what it says of the bytes handed out.\<close>

definition read_post ::
    "'h h2 \<Rightarrow> bytes \<Rightarrow> nat \<Rightarrow> 'h h2_logged grpc_transport \<Rightarrow> bytes io_result poll \<Rightarrow> 'h h2_logged grpc_transport \<Rightarrow> bool" where
  "read_post H rx n s x s' \<longleftrightarrow>
     read_inv H (rx @ (case x of Ready (Inr d) \<Rightarrow> d | _ \<Rightarrow> [])) s' \<and> write_view s' = write_view s \<and>
     (case x of Ready (Inr d) \<Rightarrow> length d \<le> n | _ \<Rightarrow> True) \<and> (x = Ready (Inr []) \<longrightarrow> 0 < n \<longrightarrow> gt_read_closed s') \<and>
     ((gt_read_closed s \<longrightarrow> gt_read_pending s = []) \<longrightarrow> \<not> poll_failed x \<longrightarrow> gt_read_closed s' \<longrightarrow> gt_read_pending s' = [])"

lemma read_inv_buffer:
  assumes "read_inv H (rx @ p) s" "gt_rest s = []" "\<not> gt_read_closed s"
  shows "read_inv H (rx @ take m p) (s\<lparr>gt_read_buf := drop m p, gt_read_pos := 0\<rparr>)"
  using assms by (simp add: read_inv_def gt_rest_def take_drop_append)

lemma gt_round_inv:
  assumes "gt_round (h2_logged_ops H) s n = (r, s')" and I: "read_inv H rx s" and rest: "gt_rest s = []" "\<not> gt_read_closed s"
  shows "case r of
      None \<Rightarrow> read_inv H rx s' \<and> gt_rest s' = [] \<and> \<not> gt_read_closed s' \<and> write_view s' = write_view s
    | Some x \<Rightarrow> \<exists>y. x = Done y \<and> read_post H rx n s y s'"
proof (cases "frame_too_long (gt_read_pending s)")
  case (Some d)
  then show ?thesis
    using assms by (auto simp: gt_round_def read_post_def read_inv_def gt_rest_def write_view_def)
next
  case None
  note eq = assms(1) [unfolded gt_round_def None option.case]
  show ?thesis
  proof (cases "gt_read_pending s" rule: parse_cases)
    case (failed e)
    then show ?thesis
      using eq I rest by (auto simp: read_post_def read_inv_def gt_rest_def write_view_def)
  next
    case incomplete
    then have "gt_receive (h2_logged_ops H) s = (r, s')" using eq by simp
    from gt_receive_inv [OF this I rest(1)] incomplete None rest(2) show ?thesis
      by (cases r) (auto simp: read_post_def split: poll.splits sum.splits)
  next
    case (message p k)
    let ?s = "release_capacity (h2_logged_ops H) k (s\<lparr>gt_read_pending := drop k (gt_read_pending s)\<rparr>)"
    have k: "k \<le> gt_pending_release_capacity s" "0 < k"
      using I message(1,2) parse_safe [of "gt_read_pending s"] by (auto simp: read_inv_def)
    have J: "read_inv H (rx @ p) ?s" "gt_rest ?s = []" "write_view ?s = write_view s" "\<not> gt_read_closed ?s"
      using I rest k message by (auto simp: release_capacity_eq read_inv_def gt_rest_def write_view_def)
    have b: "read_inv H (rx @ take m p) (?s\<lparr>gt_read_buf := drop m p, gt_read_pos := 0\<rparr>) \<and>
        write_view (?s\<lparr>gt_read_buf := drop m p, gt_read_pos := 0\<rparr>) = write_view s" for m
      using J(3) read_inv_buffer [OF J(1,2,4), of m] by (simp add: write_view_def)
    show ?thesis
      using eq message(1) J b [of n] by (auto simp: Let_def read_post_def min_def split: if_splits)
  qed
qed

lemma gt_read_loop_inv:
  assumes "gt_read_loop fuel (h2_logged_ops H) s n = (x, s')" and "read_inv H rx s" and "gt_rest s = []" "\<not> gt_read_closed s"
  shows "x \<noteq> Panics \<and> (\<forall>y. x = Done y \<longrightarrow> read_post H rx n s y s')"
  using assms
proof (induction fuel arbitrary: s)
  case 0
  then show ?case by simp
next
  case (Suc fuel)
  obtain r s1 where r: "gt_round (h2_logged_ops H) s n = (r, s1)" by fastforce
  note post = gt_round_inv [OF r Suc.prems(2-4)]
  show ?case
  proof (cases r)
    case None
    then show ?thesis using Suc.IH [of s1] Suc.prems(1) r post by (auto simp: read_post_def)
  next
    case (Some y)
    then show ?thesis using Suc.prems(1) r post by auto
  qed
qed

lemma gt_poll_read_inv:
  assumes "gt_poll_read fuel (h2_logged_ops H) s n = (x, s')" and "read_inv H rx s"
  shows "x \<noteq> Panics \<and> (\<forall>y. x = Done y \<longrightarrow> read_post H rx n s y s')"
proof (cases "gt_read_closed s \<or> gt_rest s \<noteq> []")
  case True
  then show ?thesis
    using assms
    by (auto simp: gt_poll_read_def read_post_def read_inv_def gt_rest_def write_view_def Let_def min_def drop_step_append
        split: if_splits)
next
  case False
  then show ?thesis using gt_read_loop_inv [of fuel H s n x s' rx] assms by (auto simp: gt_poll_read_def gt_rest_def)
qed


section \<open>Writing: invariant\<close>

fun sent_payload :: "h2_sent \<Rightarrow> bytes" where
  "sent_payload (Sent_Data d) = d"
| "sent_payload _ = []"

definition sent_data :: "h2_sent list \<Rightarrow> bytes" where
  "sent_data xs = concat (map sent_payload xs)"

lemma sent_data_simps [simp]:
  "sent_data [] = []" "sent_data (xs @ ys) = sent_data xs @ sent_data ys" "sent_data (x # xs) = sent_payload x @ sent_data xs"
  "sent_data (map Sent_Data ds) = concat ds"
  by (simp_all add: sent_data_def comp_def)

definition unsent :: "'h grpc_transport \<Rightarrow> bytes" where
  "unsent s = (case gt_current_frame s of None \<Rightarrow> [] | Some d \<Rightarrow> drop (gt_current_frame_offset s) d) @ concat (gt_send_queue s)"

text \<open>The queue accounts for every frame that is not sent whole, and an unfinished frame has bytes left.\<close>

definition queue_ok :: "'h grpc_transport \<Rightarrow> bool" where
  "queue_ok s \<longleftrightarrow>
     gt_send_queue_bytes s = (case gt_current_frame s of None \<Rightarrow> 0 | Some d \<Rightarrow> length d) + sum_list (map length (gt_send_queue s)) \<and>
     (\<forall>q \<in> set (gt_send_queue s). q \<noteq> []) \<and> (\<forall>d. gt_current_frame s = Some d \<longrightarrow> gt_current_frame_offset s < length d)"

text \<open>The response: headers and data, and at most one end, after which nothing is left to send; \<open>e\<close> says whether it may have ended.\<close>

definition opened_log :: "bool \<Rightarrow> bytes list \<Rightarrow> h2_sent list" where
  "opened_log opn ds = (if opn then Sent_Headers response_headers False # map Sent_Data ds else [])"

definition end_event :: "bool \<Rightarrow> h2_sent" where
  "end_event opn =
     (if opn then Sent_Trailers [(''grpc-status'', ''0'')]
      else Sent_Headers (response_headers @ [(''grpc-status'', ''0'')]) True)"

definition order_ok :: "bool \<Rightarrow> 'h h2_logged grpc_transport \<Rightarrow> bool" where
  "order_ok e s \<longleftrightarrow>
     (\<exists>ds. hl_sent (gt_h2 s) = opened_log (gt_open s) ds \<or>
        e \<and> gt_write_closed s \<and> gt_send_queue s = [] \<and> gt_current_frame s = None \<and>
        hl_sent (gt_h2 s) = opened_log (gt_open s) ds @ [end_event (gt_open s)])"

definition send_inv :: "bool \<Rightarrow> bytes \<Rightarrow> nat \<Rightarrow> 'h h2_logged grpc_transport \<Rightarrow> bool" where
  "send_inv e out cap s \<longleftrightarrow>
     sent_data (hl_sent (gt_h2 s)) @ unsent s = out \<and> queue_ok s \<and> gt_send_queue_bytes s \<le> cap \<and> order_ok e s"

text \<open>What the write side leaves alone.\<close>

definition read_view :: "'h h2_logged grpc_transport \<Rightarrow> _" where
  "read_view s =
     (gt_read_pending s, gt_read_buf s, gt_read_pos s, gt_pending_release_capacity s, gt_read_closed s,
      hl_received (gt_h2 s), hl_released (gt_h2 s), gt_max_message_size s)"

text \<open>What a loop over a frame did from an offset: it took data up to \<open>off'\<close>, the end or a wait for capacity.\<close>

definition frame_sent ::
    "bytes \<Rightarrow> nat \<Rightarrow> 'h h2_logged grpc_transport \<Rightarrow> unit io_result poll \<Rightarrow> 'h h2_logged grpc_transport \<Rightarrow> bool" where
  "frame_sent data off s y s' \<longleftrightarrow>
     (\<exists>off' ds h. s' = s\<lparr>gt_h2 := h, gt_current_frame_offset := off'\<rparr> \<and> off' \<le> length data \<and>
        hl_sent h = hl_sent (gt_h2 s) @ map Sent_Data ds \<and> concat ds @ drop off' data = drop off data \<and>
        hl_received h = hl_received (gt_h2 s) \<and> hl_released h = hl_released (gt_h2 s) \<and>
        (y = Ready (Inr ()) \<and> off' = length data \<or> y = Pending \<and> off' < length data))"

lemma frame_sentI:
  "off \<le> length data \<Longrightarrow> s' = s\<lparr>gt_h2 := h, gt_current_frame_offset := off\<rparr> \<Longrightarrow> hl_sent h = hl_sent (gt_h2 s) \<Longrightarrow>
     hl_received h = hl_received (gt_h2 s) \<Longrightarrow> hl_released h = hl_released (gt_h2 s) \<Longrightarrow>
     y = Ready (Inr ()) \<and> off = length data \<or> y = Pending \<and> off < length data \<Longrightarrow> frame_sent data off s y s'"
  unfolding frame_sent_def by (intro exI [of _ off] exI [of _ "[]"] exI [of _ h]) simp

lemma frame_sent_more:
  assumes "frame_sent data (off + n) (s\<lparr>gt_h2 := h\<rparr>) y s'" and "take n (drop off data) @ drop (off + n) data = drop off data"
    and "hl_sent h = hl_sent (gt_h2 s) @ [Sent_Data (take n (drop off data))]" "hl_received h = hl_received (gt_h2 s)"
    "hl_released h = hl_released (gt_h2 s)"
  shows "frame_sent data off s y s'"
proof -
  obtain off' ds h' where r: "s' = s\<lparr>gt_h2 := h', gt_current_frame_offset := off'\<rparr>" "off' \<le> length data"
    "hl_sent h' = hl_sent (gt_h2 s) @ Sent_Data (take n (drop off data)) # map Sent_Data ds"
    "concat ds @ drop off' data = drop (off + n) data"
    "hl_received h' = hl_received (gt_h2 s)" "hl_released h' = hl_released (gt_h2 s)"
    "y = Ready (Inr ()) \<and> off' = length data \<or> y = Pending \<and> off' < length data"
    using assms(1,3-) by (auto simp: frame_sent_def)
  show ?thesis
    unfolding frame_sent_def using r assms(2)
    by (intro exI [of _ off'] exI [of _ "take n (drop off data) # ds"] exI [of _ h']) auto
qed

lemma gt_send_loop_spec:
  assumes "gt_send_loop fuel (h2_logged_ops H) data off s = (Done y, s')" and "\<not> poll_failed y" and "off \<le> length data"
  shows "frame_sent data off s y s'"
  using assms
proof (induction fuel arbitrary: off s)
  case (Suc fuel)
  let ?n = "min (length data - off) (h2_capacity H (hl_inner (gt_h2 s)))"
  let ?d = "take ?n (drop off data)"
  let ?h = "(gt_h2 s)\<lparr>hl_inner := h2_reserve_capacity H (hl_inner (gt_h2 s)) (min (length data - off) MAX_FRAME_SIZE)\<rparr>"
  obtain q i where q: "h2_poll_capacity H (hl_inner ?h) = (q, i)" by fastforce
  obtain x j where x: "h2_send_data H (hl_inner (gt_h2 s)) ?d = (x, j)" by fastforce
  let ?w = "s\<lparr>gt_h2 := ?h\<lparr>hl_inner := i\<rparr>\<rparr>"
  let ?t = "s\<lparr>gt_h2 := (gt_h2 s)\<lparr>hl_inner := j, hl_sent := hl_sent (gt_h2 s) @ [Sent_Data ?d]\<rparr>\<rparr>"
  have cut: "?d @ drop (off + ?n) data = drop off data" by (metis add.commute append_take_drop_id drop_drop)
  note eq = Suc.prems(1) [unfolded gt_send_loop.simps Let_def h2_logged_sel q x prod.case hl_took_def]
  consider (complete) "length data - off = 0" | (wait) "length data - off \<noteq> 0" "h2_capacity H (hl_inner (gt_h2 s)) = 0"
    | (send) "length data - off \<noteq> 0" "h2_capacity H (hl_inner (gt_h2 s)) \<noteq> 0" by blast
  then show ?case
  proof cases
    case complete
    then show ?thesis using eq Suc.prems(3) by (intro frame_sentI [where h = "gt_h2 s"]) auto
  next
    case wait
    have "(\<exists>k. q = Ready (Some (Inr k)) \<and> gt_send_loop fuel (h2_logged_ops H) data off ?w = (Done y, s')) \<or>
        y = Pending \<and> s' = ?w\<lparr>gt_current_frame_offset := off\<rparr>"
      using eq wait q Suc.prems(2) by (auto split: poll.splits option.splits sum.splits)
    moreover have "frame_sent data off ?w y s' \<Longrightarrow> frame_sent data off s y s'" by (simp add: frame_sent_def)
    ultimately show ?thesis
      using Suc.IH [of off ?w] Suc.prems(2,3) wait frame_sentI [of off data s' "gt_h2 ?w" s y] by auto
  next
    case send
    have "off + ?n \<ge> length data \<and> y = Ready (Inr ()) \<and> s' = ?t\<lparr>gt_current_frame_offset := off + ?n\<rparr> \<or>
        off + ?n < length data \<and> gt_send_loop fuel (h2_logged_ops H) data (off + ?n) ?t = (Done y, s')"
      using eq send x Suc.prems(2) by (auto split: sum.splits if_splits)
    then have "frame_sent data (off + ?n) ?t y s'"
      using Suc.IH [of "off + ?n" ?t] Suc.prems(2,3) frame_sentI [of "off + ?n" data s' "gt_h2 ?t" ?t y] by auto
    then show ?thesis by (rule frame_sent_more [OF _ cut]) simp_all
  qed
qed simp

lemma gt_send_loop_no_panic: "fst (gt_send_loop fuel H data off s) \<noteq> Panics"
  by (induction fuel arbitrary: off s) (auto simp: Let_def split: prod.splits poll.splits option.splits sum.splits)


lemma order_okI: "hl_sent (gt_h2 s) = opened_log (gt_open s) ds \<Longrightarrow> order_ok e s"
  by (auto simp: order_ok_def)

lemma order_ok_open:
  "order_ok e s \<Longrightarrow> gt_current_frame s \<noteq> None \<Longrightarrow> \<exists>ds. hl_sent (gt_h2 s) = opened_log (gt_open s) ds"
  by (auto simp: order_ok_def)

lemma opened_log_append: "opened_log True ds @ map Sent_Data ds' = opened_log True (ds @ ds')"
  by (simp add: opened_log_def)

lemma open_stream_spec:
  assumes "open_stream (h2_logged_ops H) s = (Inr u, s')" and "hl_sent (gt_h2 s) = opened_log (gt_open s) ds"
  shows "\<exists>h ds. s' = s\<lparr>gt_h2 := h, gt_open := True\<rparr> \<and> hl_sent h = opened_log True ds \<and> sent_data (hl_sent h) = sent_data (hl_sent (gt_h2 s)) \<and>
    hl_received h = hl_received (gt_h2 s) \<and> hl_released h = hl_released (gt_h2 s)"
proof (cases "gt_open s")
  case True
  then show ?thesis using assms by (intro exI [of _ "gt_h2 s"] exI [of _ ds]) (simp add: open_stream_def)
next
  case False
  obtain r i where r: "h2_send_response H (hl_inner (gt_h2 s)) response_headers False = (r, i)" by fastforce
  then show ?thesis
    using assms False
    by (intro exI [of _ "(gt_h2 s)\<lparr>hl_inner := i, hl_sent := [Sent_Headers response_headers False]\<rparr>"] exI [of _ "[]"])
       (auto simp: open_stream_def h2_logged_sel hl_took_def opened_log_def split: sum.splits)
qed

lemma gt_finish_current_inv:
  assumes "gt_finish_current fuel (h2_logged_ops H) s = (Done y, s')" and "\<not> poll_failed y" and I: "send_inv e out cap s"
  shows "send_inv e out cap s' \<and> read_view s' = read_view s \<and> gt_write_closed s' = gt_write_closed s \<and>
    (y = Pending \<or> y = Ready (Inr ()) \<and> gt_current_frame s' = None)"
proof (cases "gt_current_frame s")
  case None
  then show ?thesis using assms by (simp add: gt_finish_current_def)
next
  case (Some data)
  have off: "gt_current_frame_offset s < length data" using I Some by (simp add: send_inv_def queue_ok_def)
  obtain ds where ds: "hl_sent (gt_h2 s) = opened_log (gt_open s) ds" using order_ok_open [of e s] I Some by (auto simp: send_inv_def)
  obtain r s1 where r: "open_stream (h2_logged_ops H) s = (r, s1)" by fastforce
  then obtain x where "r = Inr x"
    using assms(1,2) off by (cases r) (auto simp: gt_finish_current_def poll_send_current_frame_def Some)
  then obtain h ds1 where s1: "s1 = s\<lparr>gt_h2 := h, gt_open := True\<rparr>" "hl_sent h = opened_log True ds1"
      "sent_data (hl_sent h) = sent_data (hl_sent (gt_h2 s))" "hl_received h = hl_received (gt_h2 s)" "hl_released h = hl_released (gt_h2 s)"
    using open_stream_spec [OF _ ds] r by blast
  obtain z s2 where z: "gt_send_loop fuel (h2_logged_ops H) data (gt_current_frame_offset s) s1 = (Done z, s2)" "\<not> poll_failed z"
    "y = (case z of Ready _ \<Rightarrow> Ready (Inr ()) | Pending \<Rightarrow> Pending)"
    "s' = (if z = Pending then s2 else s2\<lparr>gt_send_queue_bytes := gt_send_queue_bytes s2 - length data,
                       gt_current_frame := None, gt_current_frame_offset := 0\<rparr>)"
    using assms(1,2) off r \<open>r = Inr x\<close>
    by (auto simp: gt_finish_current_def poll_send_current_frame_def Some split: polled.splits poll.splits sum.splits prod.splits)
  have "gt_current_frame_offset s \<le> length data" using off by simp
  from gt_send_loop_spec [OF z(1,2) this, unfolded frame_sent_def] obtain off' es h' where l: "s2 = s1\<lparr>gt_h2 := h', gt_current_frame_offset := off'\<rparr>"
      "hl_sent h' = hl_sent h @ map Sent_Data es" "concat es @ drop off' data = drop (gt_current_frame_offset s) data"
      "hl_received h' = hl_received h" "hl_released h' = hl_released h"
      "z = Ready (Inr ()) \<and> off' = length data \<or> z = Pending \<and> off' < length data" using s1(1) by auto
  have "hl_sent h' = opened_log True (ds1 @ es)" using l(2) s1(2) opened_log_append by simp
  moreover have "gt_h2 s' = h'" "gt_open s'" using z(4) l(1) s1(1) by auto
  ultimately have ord: "order_ok e s'" by (auto intro: order_okI)
  show ?thesis
    using l(6)
  proof (elim disjE conjE)
    assume "z = Ready (Inr ())" "off' = length data"
    then show ?thesis
      using I Some l(1-5) s1 z(3,4) ord by (auto simp: send_inv_def unsent_def queue_ok_def read_view_def)
  next
    assume "z = Pending" "off' < length data"
    then show ?thesis
      using I Some l(1-5) s1 z(3,4) ord by (auto simp: send_inv_def unsent_def queue_ok_def read_view_def)
  qed
qed

lemma poll_send_queued_inv:
  assumes "poll_send_queued fuel (h2_logged_ops H) s = (Done y, s')" and "\<not> poll_failed y" and "send_inv e out cap s"
  shows "send_inv e out cap s' \<and> read_view s' = read_view s \<and> gt_write_closed s' = gt_write_closed s \<and>
    (y = Pending \<or> y = Ready (Inr ()) \<and> gt_current_frame s' = None \<and> gt_send_queue s' = [])"
  using assms
proof (induction fuel arbitrary: s)
  case 0
  then show ?case by simp
next
  case (Suc fuel)
  obtain x s1 where x: "gt_finish_current fuel (h2_logged_ops H) s = (x, s1)" by fastforce
  then obtain z where z: "x = Done z" "\<not> poll_failed z" using Suc.prems(1,2)
    by (auto split: polled.splits poll.splits sum.splits)
  note f = gt_finish_current_inv [OF x [unfolded z(1)] z(2) Suc.prems(3)]
  show ?case
  proof (cases "z = Pending")
    case True
    then show ?thesis using f x z Suc.prems(1) by auto
  next
    case False
    then have r: "z = Ready (Inr ())" "gt_current_frame s1 = None" using f by auto
    show ?thesis
    proof (cases "gt_send_queue s1")
      case Nil
      then show ?thesis using f x z r Suc.prems(1) by auto
    next
      case (Cons q qs)
      let ?s = "s1\<lparr>gt_send_queue := qs, gt_current_frame := Some q, gt_current_frame_offset := 0\<rparr>"
      have "send_inv e out cap ?s"
        using f r Cons by (auto simp: send_inv_def unsent_def queue_ok_def order_ok_def)
      moreover have "poll_send_queued fuel (h2_logged_ops H) ?s = (Done y, s')" using Suc.prems(1) x z r Cons by simp
      ultimately show ?thesis using Suc.IH [of ?s] Suc.prems(2) f by (auto simp: read_view_def)
    qed
  qed
qed

text \<open>The bytes accepted so far, cut into messages whose encodings are what is sent and still to be sent.\<close>

definition write_inv :: "bytes \<Rightarrow> 'h h2_logged grpc_transport \<Rightarrow> bool" where
  "write_inv tx s \<longleftrightarrow>
     (\<exists>ps. concat ps = tx \<and> (\<forall>p \<in> set ps. length p \<le> gt_max_message_size s) \<and>
        send_inv True (concat (map encode_grpc_message ps)) (MAX_SEND_QUEUE_BYTES + gt_max_message_size s + 16) s)"

lemma length_encode_grpc: "5 \<le> length (encode_grpc_message p)" "length (encode_grpc_message p) \<le> length p + 16"
  using length_varint [of "of_nat (length p)"] by (simp_all add: encode_grpc_frame length_frame message_def length_field)

lemma gt_poll_write_inv:
  assumes "gt_poll_write fuel (h2_logged_ops H) s bs = (Done y, s')" and "\<not> poll_failed y" and "write_inv tx s"
  shows "write_inv (tx @ (case y of Ready (Inr k) \<Rightarrow> take k bs | _ \<Rightarrow> [])) s' \<and> read_view s' = read_view s \<and>
    (case y of Ready (Inr k) \<Rightarrow> k \<le> length bs | _ \<Rightarrow> True)"
proof -
  obtain ps where ps: "concat ps = tx" "\<forall>p \<in> set ps. length p \<le> gt_max_message_size s"
    "send_inv True (concat (map encode_grpc_message ps)) (MAX_SEND_QUEUE_BYTES + gt_max_message_size s + 16) s"
    using assms(3) by (auto simp: write_inv_def)
  obtain x s1 where x: "poll_send_queued fuel (h2_logged_ops H) s = (x, s1)" by fastforce
  then obtain z where z: "x = Done z" "\<not> poll_failed z" "\<not> gt_write_closed s" using assms(1,2)
    by (auto simp: gt_poll_write_def split: polled.splits poll.splits sum.splits if_splits)
  note f = poll_send_queued_inv [OF x [unfolded z(1)] z(2) ps(3)]
  have m: "gt_max_message_size s1 = gt_max_message_size s" using f by (simp add: read_view_def)
  show ?thesis
  proof (cases "gt_send_queue_bytes s1 \<ge> MAX_SEND_QUEUE_BYTES")
    case True
    then have "y = Pending" "s' = s1" using assms(1) x z by (auto simp: gt_poll_write_def split: poll.splits sum.splits)
    then show ?thesis using f ps m by (auto simp: write_inv_def)
  next
    case False
    let ?k = "min (length bs) (gt_max_message_size s)"
    let ?p = "take ?k bs"
    let ?d = "encode_grpc_message ?p"
    let ?s = "s1\<lparr>gt_send_queue := gt_send_queue s1 @ [?d], gt_send_queue_bytes := gt_send_queue_bytes s1 + length ?d\<rparr>"
    have "send_inv True (concat (map encode_grpc_message (ps @ [?p]))) (MAX_SEND_QUEUE_BYTES + gt_max_message_size s + 16) ?s"
      using f z(3) False length_encode_grpc [of ?p]
      by (auto simp: send_inv_def unsent_def queue_ok_def order_ok_def split: option.splits)
    moreover obtain w where w: "poll_send_queued fuel (h2_logged_ops H) ?s = (Done w, s')" "\<not> poll_failed w" "y = Ready (Inr ?k)"
      using assms(1,2) x z False m
      by (auto simp: gt_poll_write_def Let_def split: polled.splits poll.splits sum.splits prod.splits)
    ultimately have g: "send_inv True (concat (map encode_grpc_message (ps @ [?p]))) (MAX_SEND_QUEUE_BYTES + gt_max_message_size s + 16) s'"
      "read_view s' = read_view s" using poll_send_queued_inv [OF w(1,2)] f by (auto simp: read_view_def)
    then have "write_inv (tx @ ?p) s'"
      unfolding write_inv_def using ps m by (intro exI [of _ "ps @ [?p]"]) (auto simp: read_view_def)
    then show ?thesis using w(3) g(2) by simp
  qed
qed


lemma send_end_inv:
  assumes "send_end (h2_logged_ops H) s = (r, s')" and "send_inv False out cap s" and "gt_write_closed s"
    and "gt_current_frame s = None" "gt_send_queue s = []"
  shows "send_inv True out cap s' \<and> read_view s' = read_view s"
proof -
  obtain ds where ds: "hl_sent (gt_h2 s) = opened_log (gt_open s) ds" using assms(2) by (auto simp: send_inv_def order_ok_def)
  obtain q i where q: "(if gt_open s then h2_send_trailers H (hl_inner (gt_h2 s)) [(''grpc-status'', ''0'')]
      else h2_send_response H (hl_inner (gt_h2 s)) (response_headers @ [(''grpc-status'', ''0'')]) True) = (q, i)" by fastforce
  define m where "m = (case q of Inr _ \<Rightarrow> [end_event (gt_open s)] | Inl _ \<Rightarrow> [])"
  have s': "s' = s\<lparr>gt_h2 := (gt_h2 s)\<lparr>hl_inner := i, hl_sent := hl_sent (gt_h2 s) @ m\<rparr>\<rparr>" "m = [] \<or> m = [end_event (gt_open s)]"
    using assms(1) q
    by (auto simp: send_end_def h2_logged_sel hl_took_def end_event_def m_def split: sum.splits if_splits)
  have "order_ok True s'" using s' ds assms(3-5) by (auto simp: order_ok_def)
  moreover have "sent_data m = []" using s'(2) by (auto simp: end_event_def)
  ultimately show ?thesis using assms(2,4,5) s'(1) by (auto simp: send_inv_def unsent_def queue_ok_def read_view_def)
qed

lemma gt_poll_shutdown_inv:
  assumes "gt_poll_shutdown fuel (h2_logged_ops H) s = (Done y, s')" and "\<not> poll_failed y" and "write_inv tx s"
  shows "write_inv tx s' \<and> read_view s' = read_view s"
proof (cases "gt_write_closed s \<and> gt_send_queue s = [] \<and> gt_current_frame s = None")
  case True
  then show ?thesis using assms by (simp add: gt_poll_shutdown_def)
next
  case False
  let ?s = "s\<lparr>gt_write_closed := True\<rparr>"
  obtain ps where ps: "concat ps = tx" "\<forall>p \<in> set ps. length p \<le> gt_max_message_size s"
    "send_inv True (concat (map encode_grpc_message ps)) (MAX_SEND_QUEUE_BYTES + gt_max_message_size s + 16) s"
    using assms(3) by (auto simp: write_inv_def)
  have I: "send_inv False (concat (map encode_grpc_message ps)) (MAX_SEND_QUEUE_BYTES + gt_max_message_size s + 16) ?s"
    using ps(3) False by (auto simp: send_inv_def unsent_def queue_ok_def order_ok_def cong: option.case_cong)
  obtain x s1 where x: "poll_send_queued fuel (h2_logged_ops H) ?s = (x, s1)" by fastforce
  then obtain z where z: "x = Done z" "\<not> poll_failed z" using assms(1,2) False
    by (auto simp: gt_poll_shutdown_def gt_poll_flush_def split: polled.splits poll.splits sum.splits)
  note f = poll_send_queued_inv [OF x [unfolded z(1)] z(2) I]
  have "send_inv True (concat (map encode_grpc_message ps)) (MAX_SEND_QUEUE_BYTES + gt_max_message_size s + 16) s' \<and>
      read_view s' = read_view s"
  proof (cases "z = Pending")
    case True
    then show ?thesis
      using f x z False assms(1) by (auto simp: gt_poll_shutdown_def gt_poll_flush_def send_inv_def order_ok_def read_view_def)
  next
    case rd: False
    then have "\<exists>r. send_end (h2_logged_ops H) s1 = (r, s')"
      using f x z False assms(1) by (auto simp: gt_poll_shutdown_def gt_poll_flush_def split: prod.splits)
    then show ?thesis using send_end_inv [of H s1] f rd by (auto simp: read_view_def)
  qed
  then show ?thesis using ps(1,2) by (auto simp: write_inv_def read_view_def)
qed

lemma gt_poll_flush_inv:
  assumes "gt_poll_flush fuel (h2_logged_ops H) s = (Done y, s')" and "\<not> poll_failed y" and "write_inv tx s"
  shows "write_inv tx s' \<and> read_view s' = read_view s"
  using poll_send_queued_inv [OF assms(1) [unfolded gt_poll_flush_def] assms(2)] assms(3)
  by (auto simp: write_inv_def read_view_def)

lemma write_inv_view:
  assumes "write_view s' = write_view s"
  shows "write_inv tx s' \<longleftrightarrow> write_inv tx s"
proof -
  have e: "gt_open s' = gt_open s" "gt_send_queue s' = gt_send_queue s" "gt_send_queue_bytes s' = gt_send_queue_bytes s"
    "gt_current_frame s' = gt_current_frame s" "gt_current_frame_offset s' = gt_current_frame_offset s"
    "gt_max_message_size s' = gt_max_message_size s" "gt_write_closed s' = gt_write_closed s" "hl_sent (gt_h2 s') = hl_sent (gt_h2 s)"
    using assms by (simp_all add: write_view_def)
  show ?thesis unfolding write_inv_def send_inv_def unsent_def queue_ok_def order_ok_def e by (rule refl)
qed

lemma read_inv_view: "read_view s' = read_view s \<Longrightarrow> read_inv H rx s' \<longleftrightarrow> read_inv H rx s"
  by (simp add: read_view_def read_inv_def gt_rest_def)

definition grpc_inv :: "'h h2 \<Rightarrow> 'h h2_logged grpc_transport recorded \<Rightarrow> bool" where
  "grpc_inv H r \<longleftrightarrow> read_inv H (rc_rx r) (rc_inner r) \<and> write_inv (rc_tx r) (rc_inner r) \<and>
     (gt_read_closed (rc_inner r) \<longrightarrow> gt_read_pending (rc_inner r) = [])"


lemma grpc_call_keeps:
  assumes "grpc_inv H r" and "call (recorded_ops (grpc_ops fuel (h2_logged_ops H))) c r = (False, r')"
  shows "grpc_inv H r'"
proof (cases c)
  case (Read_Call n)
  obtain x i where x: "gt_poll_read fuel (h2_logged_ops H) (rc_inner r) n = (x, i)" by fastforce
  with assms Read_Call obtain y where y: "x = Done y" "\<not> poll_failed y"
    by (cases x) (auto simp: recorded_ops_def grpc_ops_def split: poll.splits sum.splits)
  have "read_post H (rc_rx r) n (rc_inner r) y i" using gt_poll_read_inv [OF x] assms(1) y by (auto simp: grpc_inv_def)
  then show ?thesis
    using assms x y Read_Call write_inv_view [of i "rc_inner r"]
    by (cases y) (auto simp: recorded_ops_def grpc_ops_def read_post_def grpc_inv_def split: sum.splits)
next
  case (Write_Call bs)
  obtain x i where x: "gt_poll_write fuel (h2_logged_ops H) (rc_inner r) bs = (x, i)" by fastforce
  with assms Write_Call obtain y where y: "x = Done y" "\<not> poll_failed y"
    by (cases x) (auto simp: recorded_ops_def grpc_ops_def split: poll.splits sum.splits)
  note post = gt_poll_write_inv [OF x [unfolded y(1)] y(2), of "rc_tx r"]
  then show ?thesis
    using assms x y Write_Call read_inv_view [of i "rc_inner r"]
    by (cases y) (auto simp: recorded_ops_def grpc_ops_def grpc_inv_def read_view_def split: sum.splits)
next
  case Flush_Call
  obtain x i where x: "gt_poll_flush fuel (h2_logged_ops H) (rc_inner r) = (x, i)" by fastforce
  with assms Flush_Call obtain y where y: "x = Done y" "\<not> poll_failed y"
    by (cases x) (auto simp: recorded_ops_def grpc_ops_def)
  then show ?thesis
    using gt_poll_flush_inv [OF x [unfolded y(1)] y(2), of "rc_tx r"] assms x Flush_Call read_inv_view [of i "rc_inner r"]
    by (auto simp: recorded_ops_def grpc_ops_def grpc_inv_def read_view_def)
next
  case Shutdown_Call
  obtain x i where x: "gt_poll_shutdown fuel (h2_logged_ops H) (rc_inner r) = (x, i)" by fastforce
  with assms Shutdown_Call obtain y where y: "x = Done y" "\<not> poll_failed y"
    by (cases x) (auto simp: recorded_ops_def grpc_ops_def)
  then show ?thesis
    using gt_poll_shutdown_inv [OF x [unfolded y(1)] y(2), of "rc_tx r"] assms x Shutdown_Call read_inv_view [of i "rc_inner r"]
    by (auto simp: recorded_ops_def grpc_ops_def grpc_inv_def read_view_def)
qed

interpretation grpc_calls: clean_invariant "recorded_ops (grpc_ops fuel (h2_logged_ops H))" "grpc_inv H"
  for fuel and H :: "'h h2"
  by unfold_locales (rule grpc_call_keeps)

text \<open>The write side never touches the read side, whatever its calls return.\<close>

lemma open_stream_read_view: "open_stream (h2_logged_ops H) s = (r, s') \<Longrightarrow> read_view s' = read_view s"
  by (auto simp: open_stream_def read_view_def h2_logged_sel hl_took_def split: if_splits prod.splits sum.splits)

lemma gt_send_loop_read_view:
  "gt_send_loop fuel (h2_logged_ops H) data off s = (x, s') \<Longrightarrow> read_view s' = read_view s"
proof (induction fuel arbitrary: off s)
  case (Suc fuel)
  have v: "read_view (s\<lparr>gt_h2 := h\<rparr>) = read_view s"
    if "hl_received h = hl_received (gt_h2 s)" "hl_released h = hl_released (gt_h2 s)" for h
    using that by (simp add: read_view_def)
  show ?case
    using Suc.prems
    by (auto simp: h2_logged_sel hl_took_def v Let_def split: if_splits prod.splits poll.splits sum.splits option.splits
        dest!: Suc.IH) (auto simp: read_view_def)
qed simp

lemma gt_finish_current_read_view:
  "gt_finish_current fuel (h2_logged_ops H) s = (x, s') \<Longrightarrow> read_view s' = read_view s"
  by (auto simp: gt_finish_current_def poll_send_current_frame_def
      split: option.splits if_splits prod.splits sum.splits polled.splits poll.splits
      dest!: gt_send_loop_read_view open_stream_read_view) (auto simp: read_view_def)

lemma poll_send_queued_read_view:
  "poll_send_queued fuel (h2_logged_ops H) s = (x, s') \<Longrightarrow> read_view s' = read_view s"
proof (induction fuel arbitrary: s)
  case (Suc fuel)
  obtain y s1 where y: "gt_finish_current fuel (h2_logged_ops H) s = (y, s1)" by fastforce
  have v: "read_view (s1\<lparr>gt_send_queue := qs, gt_current_frame := f, gt_current_frame_offset := k\<rparr>) = read_view s" for qs f k
    using gt_finish_current_read_view [OF y] by (simp add: read_view_def)
  then show ?case
    using Suc.prems y gt_finish_current_read_view [OF y]
    by (auto simp: v split: polled.splits poll.splits sum.splits list.splits dest!: Suc.IH)
qed simp

lemma gt_poll_write_read_view:
  assumes "gt_poll_write fuel (h2_logged_ops H) s bs = (x, s')"
  shows "read_view s' = read_view s"
proof -
  obtain y s1 where y: "poll_send_queued fuel (h2_logged_ops H) s = (y, s1)" by fastforce
  have v: "read_view (s1\<lparr>gt_send_queue := q, gt_send_queue_bytes := k\<rparr>) = read_view s" for q k
    using poll_send_queued_read_view [OF y] by (simp add: read_view_def)
  show ?thesis
    using assms y poll_send_queued_read_view [OF y]
    by (auto simp: gt_poll_write_def v Let_def split: if_splits prod.splits polled.splits poll.splits sum.splits
        dest!: poll_send_queued_read_view)
qed

lemma send_end_read_view: "send_end (h2_logged_ops H) s = (r, s') \<Longrightarrow> read_view s' = read_view s"
  by (auto simp: send_end_def read_view_def h2_logged_sel hl_took_def split: if_splits prod.splits sum.splits)

lemma gt_poll_shutdown_read_view:
  assumes "gt_poll_shutdown fuel (h2_logged_ops H) s = (x, s')"
  shows "read_view s' = read_view s"
proof -
  obtain y s1 where y: "poll_send_queued fuel (h2_logged_ops H) (s\<lparr>gt_write_closed := True\<rparr>) = (y, s1)" by fastforce
  have "read_view s1 = read_view s" using poll_send_queued_read_view [OF y] by (simp add: read_view_def)
  then show ?thesis
    using assms y
    by (auto simp: gt_poll_shutdown_def gt_poll_flush_def split: if_splits prod.splits polled.splits poll.splits sum.splits
        dest!: send_end_read_view)
qed

lemma gt_read_loop_stopped:
  "gt_read_loop fuel (h2_logged_ops H) s n = (Looping, s') \<Longrightarrow> read_inv H rx s \<Longrightarrow> gt_rest s = [] \<Longrightarrow>
     \<not> gt_read_closed s \<Longrightarrow> read_inv H rx s'"
proof (induction fuel arbitrary: s)
  case (Suc fuel)
  obtain r s1 where r: "gt_round (h2_logged_ops H) s n = (r, s1)" by fastforce
  then show ?case using Suc gt_round_inv [OF r Suc.prems(2-4)] by (cases r) auto
qed simp

lemma gt_poll_read_stopped:
  "gt_poll_read fuel (h2_logged_ops H) s n = (Looping, s') \<Longrightarrow> read_inv H rx s \<Longrightarrow> read_inv H rx s'"
  by (auto simp: gt_poll_read_def gt_rest_def Let_def split: if_splits intro: gt_read_loop_stopped)

text \<open>The read side keeps its invariant through every call, failed or not.\<close>

interpretation grpc_reads: call_invariant "recorded_ops (grpc_ops fuel (h2_logged_ops H))"
  "\<lambda>r. read_inv H (rc_rx r) (rc_inner r)" for fuel and H :: "'h h2"
proof
  fix s :: "'h h2_logged grpc_transport recorded" and n r s'
  assume I: "read_inv H (rc_rx s) (rc_inner s)" and p: "poll_read (recorded_ops (grpc_ops fuel (h2_logged_ops H))) s n = (r, s')"
  obtain x i where x: "gt_poll_read fuel (h2_logged_ops H) (rc_inner s) n = (x, i)" by fastforce
  note post = gt_poll_read_inv [OF x I]
  show "read_inv H (rc_rx s') (rc_inner s')"
  proof (cases x)
    case (Done y)
    then show ?thesis
      using p x post by (auto simp: recorded_ops_def grpc_ops_def read_post_def split: poll.splits sum.splits)
  next
    case Looping
    then show ?thesis using p x gt_poll_read_stopped [OF x [unfolded Looping] I] by (auto simp: recorded_ops_def grpc_ops_def)
  qed (use post in simp)
next
  fix s :: "'h h2_logged grpc_transport recorded" and bs w s'
  assume I: "read_inv H (rc_rx s) (rc_inner s)" and p: "poll_write (recorded_ops (grpc_ops fuel (h2_logged_ops H))) s bs = (w, s')"
  obtain x i where x: "gt_poll_write fuel (h2_logged_ops H) (rc_inner s) bs = (x, i)" by fastforce
  have "rc_inner s' = i \<and> rc_rx s' = rc_rx s"
    using p x by (auto simp: recorded_ops_def grpc_ops_def split: poll.splits sum.splits)
  then show "read_inv H (rc_rx s') (rc_inner s')" using I read_inv_view [OF gt_poll_write_read_view [OF x]] by simp
next
  fix s :: "'h h2_logged grpc_transport recorded" and f s'
  assume I: "read_inv H (rc_rx s) (rc_inner s)" and p: "poll_flush (recorded_ops (grpc_ops fuel (h2_logged_ops H))) s = (f, s')"
  obtain x i where x: "gt_poll_flush fuel (h2_logged_ops H) (rc_inner s) = (x, i)" by fastforce
  then show "read_inv H (rc_rx s') (rc_inner s')"
    using I p read_inv_view [OF poll_send_queued_read_view [OF x [unfolded gt_poll_flush_def]]]
    by (auto simp: recorded_ops_def grpc_ops_def)
next
  fix s :: "'h h2_logged grpc_transport recorded" and f s'
  assume I: "read_inv H (rc_rx s) (rc_inner s)" and p: "poll_shutdown (recorded_ops (grpc_ops fuel (h2_logged_ops H))) s = (f, s')"
  obtain x i where x: "gt_poll_shutdown fuel (h2_logged_ops H) (rc_inner s) = (x, i)" by fastforce
  then show "read_inv H (rc_rx s') (rc_inner s')"
    using I p read_inv_view [OF gt_poll_shutdown_read_view [OF x]] by (auto simp: recorded_ops_def grpc_ops_def)
qed

text \<open>A stream just accepted, with empty histories.\<close>

definition grpc_start :: "'h \<Rightarrow> nat \<Rightarrow> bool option \<Rightarrow> 'h h2_logged grpc_transport recorded" where
  "grpc_start h max_message_size activity =
     \<lparr>rc_inner = with_activity \<lparr>hl_inner = h, hl_received = [], hl_released = 0, hl_sent = []\<rparr> max_message_size activity,
      rc_rx = [], rc_tx = []\<rparr>"

lemma deframe_Nil [simp]: "deframe [] = ([], [])"
  by (rule deframe_other) (simp add: parse_grpc_message_zerocopy_def)

lemma grpc_start_inv: "grpc_inv H (grpc_start h m act)"
proof -
  have "write_inv [] (rc_inner (grpc_start h m act))"
    unfolding write_inv_def
    by (intro exI [of _ "[]"]) (auto simp: grpc_start_def with_activity_def send_inv_def unsent_def queue_ok_def order_ok_def opened_log_def)
  then show ?thesis
    by (auto simp: grpc_inv_def grpc_start_def with_activity_def read_inv_def gt_rest_def MAX_INBOUND_FRAME_LEN_def)
qed


lemma deframe_encode:
  assumes "\<forall>p \<in> set ps. length p \<le> 2 ^ 32 - 7"
  shows "deframe (concat (map encode_grpc_message ps)) = (concat ps, [])"
  using assms
proof (induction ps)
  case (Cons p ps)
  have "length (message [p]) < 2 ^ 32" using Cons.prems by (intro length_message_single) simp
  then have "parse_grpc_message_zerocopy (encode_grpc_message p @ concat (map encode_grpc_message ps)) =
      Some (Inr (Some (p, length (encode_grpc_message p))), concat (map encode_grpc_message ps))"
    using parse_frame [of "[p]"] by (simp add: encode_grpc_frame length_frame)
  from deframe_message [OF this] show ?case using Cons by simp
qed simp

section \<open>The polls return\<close>

text \<open>
  A bound on what the HTTP/2 layer still has to give: every chunk of data and every grant of capacity
  uses some of it, and no call of the transport adds to it.
\<close>

definition h2_bounded :: "'h h2 \<Rightarrow> ('h \<Rightarrow> nat) \<Rightarrow> bool" where
  "h2_bounded H left \<longleftrightarrow>
     (\<forall>h c h'. h2_poll_data H h = (Ready (Some (Inr c)), h') \<longrightarrow> left h' + length c < left h) \<and>
     (\<forall>h n. left (h2_release_capacity H h n) \<le> left h) \<and>
     (\<forall>h n k h'. h2_poll_capacity H (h2_reserve_capacity H h n) = (Ready (Some (Inr k)), h') \<longrightarrow> left h' < left h) \<and>
     (\<forall>h n r h'. h2_poll_capacity H (h2_reserve_capacity H h n) = (r, h') \<longrightarrow> left h' \<le> left h) \<and>
     (\<forall>h hs fin r h'. h2_send_response H h hs fin = (r, h') \<longrightarrow> left h' \<le> left h) \<and>
     (\<forall>h d r h'. h2_send_data H h d = (r, h') \<longrightarrow> left h' \<le> left h)"

lemma h2_boundedD:
  assumes "h2_bounded H left"
  shows "h2_poll_data H h = (Ready (Some (Inr c)), h') \<Longrightarrow> left h' + length c < left h"
    "left (h2_release_capacity H h n) \<le> left h"
    "h2_poll_capacity H (h2_reserve_capacity H h n) = (Ready (Some (Inr k)), h') \<Longrightarrow> left h' < left h"
    "h2_send_response H h hs fin = (r, h') \<Longrightarrow> left h' \<le> left h"
    "h2_send_data H h d = (q, h') \<Longrightarrow> left h' \<le> left h"
    "h2_poll_capacity H (h2_reserve_capacity H h n) = (cap, h') \<Longrightarrow> left h' \<le> left h"
  using assms by (simp_all add: h2_bounded_def)

lemma gt_round_uses:
  assumes b: "h2_bounded H left" and r: "gt_round H s n = (None, s')"
  shows "left (gt_h2 s') + length (gt_read_pending s') < left (gt_h2 s) + length (gt_read_pending s)"
proof (cases "gt_read_pending s" rule: parse_cases)
  case (message p k)
  let ?s = "release_capacity H k (s\<lparr>gt_read_pending := drop k (gt_read_pending s)\<rparr>)"
  have k: "5 \<le> k" using message(1) parse_safe [of "gt_read_pending s"] by auto
  have "s' = ?s" using r message(1) by (auto simp: gt_round_def Let_def split: option.splits if_splits)
  moreover have "left (h2_release_capacity H (gt_h2 s) (min (gt_pending_release_capacity s) k)) \<le> left (gt_h2 s)"
    by (rule h2_boundedD(2) [OF b])
  ultimately show ?thesis using k message(2) by (auto simp: release_capacity_def Let_def)
next
  case incomplete
  then have g: "gt_receive H s = (None, s')" using r by (auto simp: gt_round_def split: option.splits)
  obtain q h where q: "h2_poll_data H (gt_h2 s) = (q, h)" by fastforce
  show ?thesis
    using g q h2_boundedD(1) [OF b, of "gt_h2 s"]
    by (cases q rule: next_cases) (auto simp: gt_receive_def note_activity_def Let_def)
qed (use r in \<open>auto simp: gt_round_def split: option.splits\<close>)

lemma gt_read_loop_returns:
  assumes "h2_bounded H left"
  shows "left (gt_h2 s) + length (gt_read_pending s) < fuel \<Longrightarrow> fst (gt_read_loop fuel H s n) \<noteq> Looping"
proof (induction fuel arbitrary: s)
  case (Suc fuel)
  obtain r s1 where r: "gt_round H s n = (r, s1)" by fastforce
  show ?case
  proof (cases r)
    case None
    then show ?thesis using Suc.IH [of s1] Suc.prems gt_round_uses [OF assms r [unfolded None]] r by simp
  next
    case (Some x)
    have "x \<noteq> Looping"
      using r Some by (auto simp: gt_round_def gt_receive_def Let_def split: option.splits prod.splits sum.splits poll.splits if_splits)
    then show ?thesis using r Some by simp
  qed
qed simp

lemma gt_poll_read_returns:
  "h2_bounded H left \<Longrightarrow> left (gt_h2 s) + length (gt_read_pending s) < fuel \<Longrightarrow> fst (gt_poll_read fuel H s n) \<noteq> Looping"
  using gt_read_loop_returns [of H left s fuel n] by (auto simp: gt_poll_read_def Let_def)

lemma gt_send_loop_returns:
  assumes b: "h2_bounded H left"
  shows "left (gt_h2 s) + (length data - off) < fuel \<Longrightarrow>
    fst (gt_send_loop fuel H data off s) \<noteq> Looping \<and> left (gt_h2 (snd (gt_send_loop fuel H data off s))) \<le> left (gt_h2 s)"
proof (induction fuel arbitrary: off s)
  case (Suc fuel)
  obtain q i where q: "h2_poll_capacity H (h2_reserve_capacity H (gt_h2 s) (min (length data - off) MAX_FRAME_SIZE)) = (q, i)" by fastforce
  let ?n = "min (length data - off) (h2_capacity H (gt_h2 s))"
  obtain x j where x: "h2_send_data H (gt_h2 s) (take ?n (drop off data)) = (x, j)" by fastforce
  have j: "left j \<le> left (gt_h2 s)" by (rule h2_boundedD(5) [OF b x])
  consider (complete) "length data - off = 0" | (wait) "length data - off \<noteq> 0" "h2_capacity H (gt_h2 s) = 0"
    | (send) "length data - off \<noteq> 0" "h2_capacity H (gt_h2 s) \<noteq> 0" by blast
  then show ?case
  proof cases
    case wait
    have "left i < left (gt_h2 s)" if "q = Ready (Some (Inr k))" for k
      by (rule h2_boundedD(3) [OF b]) (use q that in simp)
    moreover have "left i \<le> left (gt_h2 s)" by (rule h2_boundedD(6) [OF b q])
    ultimately show ?thesis
      using Suc.prems Suc.IH [of "s\<lparr>gt_h2 := i\<rparr>" off] wait q
      by (cases q rule: next_cases) fastforce+
  next
    case send
    then have "left j + (length data - (off + ?n)) < fuel" using Suc.prems j by auto
    then show ?thesis
      using Suc.IH [of "s\<lparr>gt_h2 := j\<rparr>" "off + ?n"] send x j by (cases x) (auto simp: Let_def)
  qed simp
qed simp

text \<open>What a round over the queue has before it: grants, bytes, and two steps for each frame.\<close>

definition send_load :: "('h \<Rightarrow> nat) \<Rightarrow> 'h grpc_transport \<Rightarrow> nat" where
  "send_load left s = left (gt_h2 s) + length (unsent s) + 2 * length (gt_send_queue s) + (if gt_current_frame s = None then 0 else 1)"

lemma open_stream_uses:
  assumes "h2_bounded H left" and "open_stream H s = (r, s')"
  shows "left (gt_h2 s') \<le> left (gt_h2 s) \<and> gt_send_queue s' = gt_send_queue s"
  using assms(2) h2_boundedD(4) [OF assms(1)]
  by (auto simp: open_stream_def split: if_splits prod.splits sum.splits)

lemma gt_send_loop_queue: "gt_send_queue (snd (gt_send_loop fuel H data off s)) = gt_send_queue s"
  by (induction fuel arbitrary: off s) (auto simp: Let_def split: prod.splits poll.splits option.splits sum.splits)

lemma gt_finish_current_returns:
  assumes b: "h2_bounded H left" and "send_load left s \<le> fuel" and f: "gt_finish_current fuel H s = (r, s')"
  shows "r \<noteq> Looping" "r = Done (Ready (Inr ())) \<Longrightarrow> gt_current_frame s' = None \<and> gt_send_queue s' = gt_send_queue s \<and> left (gt_h2 s') \<le> left (gt_h2 s)"
proof -
  have "r \<noteq> Looping \<and> (r = Done (Ready (Inr ())) \<longrightarrow>
      gt_current_frame s' = None \<and> gt_send_queue s' = gt_send_queue s \<and> left (gt_h2 s') \<le> left (gt_h2 s))"
  proof (cases "gt_current_frame s")
    case (Some data)
    obtain x s1 where o: "open_stream H s = (x, s1)" by fastforce
    note u = open_stream_uses [OF b o]
    let ?l = "gt_send_loop fuel H data (gt_current_frame_offset s) s1"
    have "left (gt_h2 s1) + (length data - gt_current_frame_offset s) < fuel"
      using assms(2) u Some by (simp add: send_load_def unsent_def)
    from gt_send_loop_returns [OF b this] have l: "fst ?l \<noteq> Looping" "left (gt_h2 (snd ?l)) \<le> left (gt_h2 s)" using u by auto
    obtain y s2 where y: "?l = (y, s2)" by fastforce
    have "gt_send_queue s2 = gt_send_queue s" using gt_send_loop_queue [of fuel H data "gt_current_frame_offset s" s1] u y by simp
    then show ?thesis
      using f Some l by (auto simp: gt_finish_current_def poll_send_current_frame_def o y
          split: sum.splits if_splits polled.splits poll.splits)
  qed (use f in \<open>auto simp: gt_finish_current_def\<close>)
  then show "r \<noteq> Looping" "r = Done (Ready (Inr ())) \<Longrightarrow> gt_current_frame s' = None \<and> gt_send_queue s' = gt_send_queue s \<and> left (gt_h2 s') \<le> left (gt_h2 s)"
    by auto
qed

lemma poll_send_queued_returns:
  assumes b: "h2_bounded H left"
  shows "send_load left s < fuel \<Longrightarrow> fst (poll_send_queued fuel H s) \<noteq> Looping"
proof (induction fuel arbitrary: s)
  case (Suc fuel)
  obtain r s1 where r: "gt_finish_current fuel H s = (r, s1)" by fastforce
  have le: "send_load left s \<le> fuel" using Suc.prems by simp
  note f = gt_finish_current_returns [OF b le r]
  show ?case
  proof (cases "r = Done (Ready (Inr ())) \<and> gt_send_queue s1 \<noteq> []")
    case True
    then obtain q qs where q: "gt_send_queue s1 = q # qs" by (cases "gt_send_queue s1") auto
    let ?s = "s1\<lparr>gt_send_queue := qs, gt_current_frame := Some q, gt_current_frame_offset := 0\<rparr>"
    have "gt_send_queue s = q # qs" "left (gt_h2 s1) \<le> left (gt_h2 s)" using f(2) True q by auto
    then have "send_load left ?s < send_load left s" by (auto simp: send_load_def unsent_def split: option.splits)
    then show ?thesis using Suc.IH [of ?s] le r q True by simp
  next
    case False
    then show ?thesis using r f(1) by (auto split: polled.splits poll.splits sum.splits list.splits)
  qed
qed simp

lemma h2_bounded_logged: "h2_bounded H left \<Longrightarrow> h2_bounded (h2_logged_ops H) (\<lambda>h. left (hl_inner h))"
  unfolding h2_bounded_def h2_logged_sel hl_took_def by (auto split: prod.splits)

section \<open>A concrete stream\<close>

definition scripted_h2 :: "bytes list h2" where
  "scripted_h2 =
     \<lparr>h2_poll_data = (\<lambda>s. case s of [] \<Rightarrow> (Ready None, []) | c # s' \<Rightarrow> (Ready (Some (Inr c)), s')),
      h2_release_capacity = (\<lambda>s n. s), h2_send_response = (\<lambda>s hs fin. (Inr (), s)), h2_capacity = (\<lambda>s. 4),
      h2_reserve_capacity = (\<lambda>s n. s), h2_poll_capacity = (\<lambda>s. (Ready (Some (Inr 4)), s)),
      h2_send_data = (\<lambda>s d. (Inr (), s)), h2_send_trailers = (\<lambda>s hs. (Inr (), s))\<rparr>"

lemma scripted_h2_sel:
  "h2_poll_data scripted_h2 s = (case s of [] \<Rightarrow> (Ready None, []) | c # s' \<Rightarrow> (Ready (Some (Inr c)), s'))"
  "h2_release_capacity scripted_h2 s n = s" "h2_send_response scripted_h2 s hs fin = (Inr (), s)" "h2_capacity scripted_h2 s = 4"
  "h2_send_data scripted_h2 s d = (Inr (), s)" "h2_send_trailers scripted_h2 s hs = (Inr (), s)"
  by (simp_all add: scripted_h2_def)

lemma demo_encode:
  "encode_grpc_message [5] = [0, 0, 0, 0, 3, 10, 1, 5]" "encode_grpc_message [7, 8] = [0, 0, 0, 0, 4, 10, 2, 7, 8]"
  by code_simp+

lemma demo_parse:
  "parse_grpc_message_zerocopy [] = Some (Inr None, [])" "parse_grpc_message_zerocopy [0, 0, 0] = Some (Inr None, [0, 0, 0])"
  "parse_grpc_message_zerocopy [0, 0, 0, 0, 4, 10, 2, 7, 8] = Some (Inr (Some ([7, 8], 9)), [])"
  using parse_frame [OF length_message_single [of "[7, 8]"], of "[]"]
  by (simp_all add: parse_grpc_message_zerocopy_def [of "[]"] parse_grpc_message_zerocopy_def [of "[0, 0, 0]"]
      demo_encode flip: encode_grpc_frame)

lemma demo_declared:
  "declared_frame_len [] = None" "declared_frame_len [0, 0, 0] = None" "declared_frame_len [0, 0, 0, 0, 4, 10, 2, 7, 8] = Some 4"
  by code_simp+

lemma demo_too_long:
  "frame_too_long [] = None" "frame_too_long [0, 0, 0] = None" "frame_too_long [0, 0, 0, 0, 4, 10, 2, 7, 8] = None"
  by (simp_all add: frame_too_long_def demo_declared MAX_INBOUND_FRAME_LEN_def)

text \<open>A message that arrives in two pieces is read, and one is written in two pieces, followed by the end.\<close>

definition demo_grpc :: "bytes list h2_logged grpc_transport recorded" where
  "demo_grpc =
     \<lparr>rc_inner = (with_activity \<lparr>hl_inner = [], hl_received = [0, 0, 0, 0, 4, 10, 2, 7, 8], hl_released = 9,
          hl_sent = [Sent_Headers response_headers False, Sent_Data [0, 0, 0, 0], Sent_Data [3, 10, 1, 5], end_event True]\<rparr> 8 None)
        \<lparr>gt_open := True, gt_write_closed := True\<rparr>,
      rc_rx = [7, 8], rc_tx = [5]\<rparr>"

lemma demo_grpc_run:
  "clean_calls (recorded_ops (grpc_ops (Suc (Suc (Suc (Suc (Suc (Suc 0)))))) (h2_logged_ops scripted_h2))) [Read_Call 4, Write_Call [5], Shutdown_Call]
     (grpc_start [[0, 0, 0], [0, 4, 10, 2, 7, 8]] 8 None) = Some demo_grpc"
  by (simp add: grpc_start_def with_activity_def recorded_ops_def grpc_ops_def gt_poll_read_def gt_round_def gt_receive_def
      demo_parse demo_too_long h2_logged_sel scripted_h2_sel note_activity_def release_capacity_eq gt_poll_write_def
      gt_finish_current_def demo_encode poll_send_current_frame_def open_stream_def hl_took_def
      gt_poll_shutdown_def gt_poll_flush_def send_end_def MAX_SEND_QUEUE_BYTES_def demo_grpc_def end_event_def Let_def)

section \<open>Properties\<close>

text \<open>
  C19: Reading from a gRPC stream.  After any sequence of calls that returned without error, whatever
  the peer and the HTTP/2 layer do, the bytes handed to the reader, those buffered and those of the
  complete messages still in the buffer are the payloads of the messages in the stream received, as
  the reference decoder finds them; every byte received has been given back to the flow-control
  window or is still in the buffer, which is bounded.  An empty read comes only when the peer ended
  the stream at the end of a message and all payloads have been handed out.  A read returns whenever
  what the stream still has to give is bounded.
\<close>

theorem grpc_read_refines:
  assumes "clean_calls (recorded_ops (grpc_ops fuel (h2_logged_ops H))) cs (grpc_start h m act) = Some r"
  shows "rc_rx r @ gt_rest (rc_inner r) @ fst (deframe (gt_read_pending (rc_inner r))) = fst (deframe (hl_received (gt_h2 (rc_inner r)))) \<and>
    hl_released (gt_h2 (rc_inner r)) + length (gt_read_pending (rc_inner r)) = length (hl_received (gt_h2 (rc_inner r))) \<and>
    (chunks_bounded H \<longrightarrow> length (gt_read_pending (rc_inner r)) < 5 + MAX_INBOUND_FRAME_LEN + MAX_FRAME_SIZE) \<and>
    (\<forall>n r'. poll_read (recorded_ops (grpc_ops fuel (h2_logged_ops H))) r n = (Ready (Inr []), r') \<longrightarrow> 0 < n \<longrightarrow>
      deframe (hl_received (gt_h2 (rc_inner r'))) = (rc_rx r', []) \<and> gt_read_closed (rc_inner r')) \<and>
    (\<forall>left n. h2_bounded H left \<longrightarrow> left (hl_inner (gt_h2 (rc_inner r))) + length (gt_read_pending (rc_inner r)) < fuel \<longrightarrow>
      fst (gt_poll_read fuel (h2_logged_ops H) (rc_inner r) n) \<noteq> Looping)"
proof -
  have I: "grpc_inv H r" by (rule grpc_calls.clean_calls_keep [OF assms grpc_start_inv])
  have "deframe (hl_received (gt_h2 (rc_inner r'))) = (rc_rx r', []) \<and> gt_read_closed (rc_inner r')"
    if p: "poll_read (recorded_ops (grpc_ops fuel (h2_logged_ops H))) r n = (Ready (Inr []), r')" "0 < n" for n r'
  proof -
    have "call (recorded_ops (grpc_ops fuel (h2_logged_ops H))) (Read_Call n) r = (False, r')" using p by simp
    then have J: "grpc_inv H r'" by (rule grpc_call_keeps [OF I])
    obtain x i where x: "gt_poll_read fuel (h2_logged_ops H) (rc_inner r) n = (x, i)" by fastforce
    obtain d where d: "x = Done (Ready (Inr d))" "take n d = []" "rc_inner r' = i"
      using p x by (cases x) (auto simp: recorded_ops_def grpc_ops_def split: poll.splits sum.splits)
    then have "gt_read_closed (rc_inner r')"
      using gt_poll_read_inv [OF x, of "rc_rx r"] I p(2) by (auto simp: grpc_inv_def read_post_def)
    then show ?thesis using J by (auto simp: grpc_inv_def read_inv_def prod_eq_iff)
  qed
  moreover have "fst (gt_poll_read fuel (h2_logged_ops H) (rc_inner r) n) \<noteq> Looping"
    if "h2_bounded H left" "left (hl_inner (gt_h2 (rc_inner r))) + length (gt_read_pending (rc_inner r)) < fuel" for left n
    by (rule gt_poll_read_returns [OF h2_bounded_logged [OF that(1)] that(2)])
  ultimately show ?thesis using I by (simp add: grpc_inv_def read_inv_def)
qed

theorem grpc_read_refines_witness:
  "[7, 8] @ gt_rest (rc_inner demo_grpc) @ fst (deframe (gt_read_pending (rc_inner demo_grpc))) =
     fst (deframe [0, 0, 0, 0, 4, 10, 2, 7, 8]) \<and> hl_released (gt_h2 (rc_inner demo_grpc)) = 9"
  using grpc_read_refines [OF demo_grpc_run] by (simp add: demo_grpc_def with_activity_def)

text \<open>
  C20: Writing to a gRPC stream.  After any sequence of calls that returned without error, the bytes
  accepted are cut into messages of bounded size whose encodings are exactly the data given to
  HTTP/2 followed by what is queued, so that a peer decodes them to the bytes accepted; the queue is
  accounted to the byte and bounded; and the response is the headers, the data and at most one end,
  never data after the end.
\<close>

theorem grpc_write_framing:
  assumes "clean_calls (recorded_ops (grpc_ops fuel (h2_logged_ops H))) cs (grpc_start h m act) = Some r"
  shows "\<exists>ps ds. concat ps = rc_tx r \<and> (\<forall>p \<in> set ps. length p \<le> gt_max_message_size (rc_inner r)) \<and>
    sent_data (hl_sent (gt_h2 (rc_inner r))) @ unsent (rc_inner r) = concat (map encode_grpc_message ps) \<and>
    (gt_max_message_size (rc_inner r) \<le> 2 ^ 32 - 7 \<longrightarrow> unsent (rc_inner r) = [] \<longrightarrow>
      deframe (sent_data (hl_sent (gt_h2 (rc_inner r)))) = (rc_tx r, [])) \<and>
    gt_send_queue_bytes (rc_inner r) =
      (case gt_current_frame (rc_inner r) of None \<Rightarrow> 0 | Some d \<Rightarrow> length d) + sum_list (map length (gt_send_queue (rc_inner r))) \<and>
    gt_send_queue_bytes (rc_inner r) \<le> MAX_SEND_QUEUE_BYTES + gt_max_message_size (rc_inner r) + 16 \<and>
    hl_sent (gt_h2 (rc_inner r)) \<in>
      {opened_log (gt_open (rc_inner r)) ds, opened_log (gt_open (rc_inner r)) ds @ [end_event (gt_open (rc_inner r))]}"
proof -
  have "grpc_inv H r" by (rule grpc_calls.clean_calls_keep [OF assms grpc_start_inv])
  then obtain ps where ps: "concat ps = rc_tx r" "\<forall>p \<in> set ps. length p \<le> gt_max_message_size (rc_inner r)"
    "send_inv True (concat (map encode_grpc_message ps)) (MAX_SEND_QUEUE_BYTES + gt_max_message_size (rc_inner r) + 16) (rc_inner r)"
    by (auto simp: grpc_inv_def write_inv_def)
  obtain ds where ds: "hl_sent (gt_h2 (rc_inner r)) \<in>
      {opened_log (gt_open (rc_inner r)) ds, opened_log (gt_open (rc_inner r)) ds @ [end_event (gt_open (rc_inner r))]}"
    using ps(3) by (auto simp: send_inv_def order_ok_def)
  have "deframe (sent_data (hl_sent (gt_h2 (rc_inner r)))) = (rc_tx r, [])"
    if "gt_max_message_size (rc_inner r) \<le> 2 ^ 32 - 7" "unsent (rc_inner r) = []"
  proof -
    have "deframe (concat (map encode_grpc_message ps)) = (rc_tx r, [])"
      using deframe_encode [of ps] ps(1,2) that(1) by fastforce
    then show ?thesis using ps(3) that(2) by (simp add: send_inv_def)
  qed
  then show ?thesis
    using ps ds unfolding send_inv_def queue_ok_def by blast
qed

theorem grpc_write_framing_witness:
  "gt_max_message_size (rc_inner demo_grpc) = 8 \<and> unsent (rc_inner demo_grpc) = [] \<and>
   deframe [0, 0, 0, 0, 3, 10, 1, 5] = ([5], [])"
  using grpc_write_framing [OF demo_grpc_run] by (auto simp: demo_grpc_def with_activity_def unsent_def end_event_def)

end
