(* ===== verification/Grpc_Connection.thy ===== *)
theory Grpc_Connection
  imports Grpc_Transport Config
begin

text \<open>
  \<open>src/src/transport/grpc/heartbeat.rs\<close> and \<open>connection.rs\<close>: an HTTP/2 connection that carries
  the gRPC streams, its heartbeat and its idle timer.

  The \<open>select!\<close> of \<open>run\<close> is a function on events, one for every way an arm can become ready, and a
  connection is a sequence of events in any order.  Two of them come from the tasks of the streams:
  data arrived on a stream, which raises the flag shared with the heartbeat, and a stream's task
  ended.  The handshake and the limits given to HTTP/2 are library calls and are left out.
\<close>

section \<open>The heartbeat\<close>

definition MAX_MISSED_PINGS :: nat where "MAX_MISSED_PINGS = 3"

record heartbeat =
  hb_ping_pong :: bool
  hb_waiting_pong :: bool
  hb_missed_pings :: nat

definition hb_new :: "bool \<Rightarrow> heartbeat" where
  "hb_new ping_pong = \<lparr>hb_ping_pong = ping_pong, hb_waiting_pong = False, hb_missed_pings = 0\<rparr>"

definition on_activity :: "heartbeat \<Rightarrow> heartbeat" where
  "on_activity hb = hb\<lparr>hb_missed_pings := 0\<rparr>"

text \<open>The arms of \<open>poll\<close>: a PONG, and a tick with the shared flag and the outcome of \<open>send_ping\<close>.\<close>

definition hb_pong :: "bool \<Rightarrow> heartbeat \<Rightarrow> (string + unit) \<times> heartbeat" where
  "hb_pong ok hb =
     (let hb = hb\<lparr>hb_waiting_pong := False\<rparr> in
      if ok then (Inr (), hb\<lparr>hb_missed_pings := 0\<rparr>) else (Inl ''PONG error'', hb))"

definition hb_tick :: "bool \<Rightarrow> bool \<Rightarrow> heartbeat \<Rightarrow> (string + unit) \<times> bool \<times> heartbeat" where
  "hb_tick sent activity hb =
     (if hb_waiting_pong hb then
        if activity then (Inr (), False, hb\<lparr>hb_missed_pings := 0\<rparr>)
        else
          let missed = hb_missed_pings hb + 1; hb = hb\<lparr>hb_missed_pings := missed\<rparr> in
          if missed \<ge> MAX_MISSED_PINGS then (Inl ''heartbeat timeout'', False, hb) else (Inr (), False, hb)
      else (Inr (), False, if sent then hb\<lparr>hb_waiting_pong := True\<rparr> else hb))"

section \<open>Paths\<close>

text \<open>Go's \<open>url.PathEscape\<close>; the encoder is the library's, given the characters to encode.\<close>

definition is_alphanumeric :: "char \<Rightarrow> bool" where
  "is_alphanumeric c \<longleftrightarrow>
     (let n = of_char c :: nat in 48 \<le> n \<and> n \<le> 57 \<or> 65 \<le> n \<and> n \<le> 90 \<or> 97 \<le> n \<and> n \<le> 122)"

definition path_escape :: "((char \<Rightarrow> bool) \<Rightarrow> string \<Rightarrow> string) \<Rightarrow> string \<Rightarrow> string" where
  "path_escape percent_encode s = percent_encode (\<lambda>c. \<not> is_alphanumeric c \<and> c \<notin> set ''-_.~$&+:=@'') s"

fun rfind :: "char \<Rightarrow> string \<Rightarrow> nat option" where
  "rfind c [] = None"
| "rfind c (x # xs) = (case rfind c xs of Some i \<Rightarrow> Some (Suc i) | None \<Rightarrow> if x = c then Some 0 else None)"

fun join_slash :: "string list \<Rightarrow> string" where
  "join_slash [] = []"
| "join_slash [x] = x"
| "join_slash (x # xs) = x @ ''/'' @ join_slash xs"

definition grpc_paths :: "((char \<Rightarrow> bool) \<Rightarrow> string \<Rightarrow> string) \<Rightarrow> string \<Rightarrow> string \<times> string" where
  "grpc_paths percent_encode service_name =
     (if service_name \<noteq> [] \<and> hd service_name = CHR ''/'' then
        let rest = tl service_name;
            last = max (case rfind (CHR ''/'') service_name of Some i \<Rightarrow> i | None \<Rightarrow> 0) 1;
            raw_service = take (last - 1) (drop 1 service_name);
            svc = join_slash (map (path_escape percent_encode) (split_on (CHR ''/'') raw_service));
            ending = drop (case rfind (CHR ''/'') rest of Some i \<Rightarrow> i + 1 | None \<Rightarrow> 0) rest;
            names = split_on (CHR ''|'') ending;
            tun = (case names of x # _ \<Rightarrow> x | [] \<Rightarrow> []);
            multi = (case names of _ # y # _ \<Rightarrow> y | _ \<Rightarrow> tun)
        in (''/'' @ svc @ ''/'' @ path_escape percent_encode tun, ''/'' @ svc @ ''/'' @ path_escape percent_encode multi)
      else
        let svc = path_escape percent_encode service_name in (''/'' @ svc @ ''/Tun'', ''/'' @ svc @ ''/TunMulti''))"

text \<open>The forms of a service name, for names that need no escaping.\<close>

lemma grpc_paths_forms:
  "grpc_paths (\<lambda>_ s. s) ''hello'' = (''/hello/Tun'', ''/hello/TunMulti'')"
  "grpc_paths (\<lambda>_ s. s) ''/my/path/tun|multi'' = (''/my/path/tun'', ''/my/path/multi'')"
  "grpc_paths (\<lambda>_ s. s) ''/my/path/tun'' = (''/my/path/tun'', ''/my/path/tun'')"
  "grpc_paths (\<lambda>_ s. s) ''/foo'' = (''//foo'', ''//foo'')"
  by code_simp+

section \<open>The connection\<close>

datatype answer = Method_Not_Allowed | Unknown_Service | Handled

record grpc_connection =
  gc_expected_path :: string
  gc_expected_multi_path :: string
  gc_heartbeat :: heartbeat
  gc_activity :: bool
  gc_active_streams :: nat
  gc_idle_ticks :: nat
  gc_draining :: bool
  gc_cancelled :: bool
  gc_answers :: "answer list"

definition gc_new :: "string \<times> string \<Rightarrow> bool \<Rightarrow> grpc_connection" where
  "gc_new paths ping_pong =
     \<lparr>gc_expected_path = fst paths, gc_expected_multi_path = snd paths, gc_heartbeat = hb_new ping_pong, gc_activity = False,
      gc_active_streams = 0, gc_idle_ticks = 0, gc_draining = False, gc_cancelled = False, gc_answers = []\<rparr>"

datatype conn_event =
    Incoming string string
  | Incoming_Error string
  | Incoming_Closed
  | Pong_Received bool
  | Heartbeat_Tick bool
  | Idle_Tick
  | Stream_Data
  | Stream_Ended

definition accept_stream :: "string \<Rightarrow> string \<Rightarrow> grpc_connection \<Rightarrow> grpc_connection" where
  "accept_stream meth path c =
     (let c = c\<lparr>gc_heartbeat := on_activity (gc_heartbeat c)\<rparr> in
      if meth \<noteq> ''POST'' then c\<lparr>gc_answers := gc_answers c @ [Method_Not_Allowed]\<rparr>
      else if path \<noteq> gc_expected_path c \<and> path \<noteq> gc_expected_multi_path c then c\<lparr>gc_answers := gc_answers c @ [Unknown_Service]\<rparr>
      else c\<lparr>gc_idle_ticks := 0, gc_active_streams := gc_active_streams c + 1, gc_answers := gc_answers c @ [Handled]\<rparr>)"

definition idle_check :: "grpc_connection \<Rightarrow> (string + unit) option \<times> grpc_connection" where
  "idle_check c =
     (if gc_active_streams c = 0 then
        let c = c\<lparr>gc_idle_ticks := gc_idle_ticks c + 1\<rparr> in
        if gc_idle_ticks c = 3 then (None, c\<lparr>gc_draining := True\<rparr>)
        else if gc_idle_ticks c > 3 then (Some (Inr ()), c)
        else (None, c)
      else (None, c\<lparr>gc_idle_ticks := 0\<rparr>))"

text \<open>One event; \<open>Some\<close> is the value the loop is left with.\<close>

fun gc_step :: "conn_event \<Rightarrow> grpc_connection \<Rightarrow> (string + unit) option \<times> grpc_connection" where
  "gc_step (Incoming meth path) c = (None, accept_stream meth path c)"
| "gc_step (Incoming_Error e) c = (Some (Inl (''gRPC connection error: '' @ e)), c)"
| "gc_step Incoming_Closed c = (Some (Inr ()), c)"
| "gc_step (Pong_Received ok) c =
     (if hb_ping_pong (gc_heartbeat c) \<and> hb_waiting_pong (gc_heartbeat c) then
        (case hb_pong ok (gc_heartbeat c) of (r, hb) \<Rightarrow>
           (case r of Inl e \<Rightarrow> Some (Inl (''gRPC '' @ e)) | Inr _ \<Rightarrow> None, c\<lparr>gc_heartbeat := hb\<rparr>))
      else (None, c))"
| "gc_step (Heartbeat_Tick sent) c =
     (if hb_ping_pong (gc_heartbeat c) then
        (case hb_tick sent (gc_activity c) (gc_heartbeat c) of (r, activity, hb) \<Rightarrow>
           (case r of Inl e \<Rightarrow> Some (Inl (''gRPC '' @ e)) | Inr _ \<Rightarrow> None, c\<lparr>gc_heartbeat := hb, gc_activity := activity\<rparr>))
      else (None, c))"
| "gc_step Idle_Tick c = idle_check c"
| "gc_step Stream_Data c = (None, c\<lparr>gc_activity := True\<rparr>)"
| "gc_step Stream_Ended c = (None, c\<lparr>gc_active_streams := gc_active_streams c - 1\<rparr>)"

fun gc_run :: "conn_event list \<Rightarrow> grpc_connection \<Rightarrow> (string + unit) option \<times> grpc_connection" where
  "gc_run [] c = (None, c)"
| "gc_run (ev # evs) c =
     (case gc_step ev c of
        (Some r, c') \<Rightarrow> (Some r, c'\<lparr>gc_cancelled := True\<rparr>)
      | (None, c') \<Rightarrow> gc_run evs c')"

text \<open>An invariant that relates the state to the events so far, and what it says when the loop is left.\<close>

lemma gc_run_history:
  assumes step: "\<And>evs ev c r c'. I evs c \<Longrightarrow> gc_step ev c = (r, c') \<Longrightarrow>
      (r = None \<longrightarrow> I (evs @ [ev]) c') \<and> (\<forall>x. r = Some x \<longrightarrow> Q x (evs @ [ev]) (c'\<lparr>gc_cancelled := True\<rparr>))"
    and "I evs0 c" and "gc_run evs c = (r, c')"
  shows "(r = None \<longrightarrow> I (evs0 @ evs) c') \<and> (\<forall>x. r = Some x \<longrightarrow> (\<exists>es rest. evs = es @ rest \<and> Q x (evs0 @ es) c'))"
  using assms(2,3)
proof (induction evs arbitrary: evs0 c)
  case Nil
  then show ?case by simp
next
  case (Cons ev evs)
  obtain q c1 where q: "gc_step ev c = (q, c1)" by fastforce
  note st = step [OF Cons.prems(1) q]
  show ?case
  proof (cases q)
    case None
    then have run: "gc_run evs c1 = (r, c')" and inv: "I (evs0 @ [ev]) c1" using st Cons.prems(2) q by auto
    have "\<exists>es rest. ev # evs = es @ rest \<and> Q x (evs0 @ es) c'" if "evs = es @ rest" "Q x ((evs0 @ [ev]) @ es) c'" for es rest x
      using that by (intro exI [of _ "ev # es"] exI [of _ rest]) simp
    then show ?thesis using Cons.IH [OF inv run] by auto
  next
    case (Some x)
    then have "r = Some x" "c' = c1\<lparr>gc_cancelled := True\<rparr>" using Cons.prems(2) q by auto
    then have "Q x (evs0 @ [ev]) c'" using st Some by simp
    then have "\<exists>es rest. ev # evs = es @ rest \<and> Q x (evs0 @ es) c'" by (intro exI [of _ "[ev]"] exI [of _ evs]) simp
    then show ?thesis using \<open>r = Some x\<close> by simp
  qed
qed

section \<open>Signs of life\<close>

text \<open>
  What proves that the peer is alive, and the events of a time in which nothing does.  A rejected
  request proves it too, but does not count against idleness.
\<close>

fun sign_of_life :: "conn_event \<Rightarrow> bool" where
  "sign_of_life (Incoming _ _) = True"
| "sign_of_life (Pong_Received ok) = ok"
| "sign_of_life Stream_Data = True"
| "sign_of_life _ = False"

fun is_heartbeat_tick :: "conn_event \<Rightarrow> bool" where
  "is_heartbeat_tick (Heartbeat_Tick _) = True"
| "is_heartbeat_tick _ = False"

definition heartbeat_ticks :: "conn_event list \<Rightarrow> nat" where
  "heartbeat_ticks evs = length (filter is_heartbeat_tick evs)"

definition idle_tick_count :: "conn_event list \<Rightarrow> nat" where
  "idle_tick_count evs = length (filter (\<lambda>e. e = Idle_Tick) evs)"

text \<open>The events end with a time in which nothing proved the peer alive, of at least \<open>n\<close> ticks.\<close>

definition silent_for :: "nat \<Rightarrow> conn_event list \<Rightarrow> bool" where
  "silent_for n evs \<longleftrightarrow> (\<exists>pre mid. evs = pre @ mid \<and> \<not> list_ex sign_of_life mid \<and> n \<le> heartbeat_ticks mid)"

lemma silent_for_0 [simp]: "silent_for 0 evs"
  unfolding silent_for_def by (intro exI [of _ evs] exI [of _ "[]"]) simp

lemma silent_for_mono: "silent_for n evs \<Longrightarrow> m \<le> n \<Longrightarrow> silent_for m evs"
  unfolding silent_for_def by (metis order_trans)

lemma silent_for_snoc:
  assumes "silent_for n evs" "\<not> sign_of_life ev"
  shows "silent_for (n + (if is_heartbeat_tick ev then 1 else 0)) (evs @ [ev])"
proof -
  obtain pre mid where m: "evs = pre @ mid" "\<not> list_ex sign_of_life mid" "n \<le> heartbeat_ticks mid"
    using assms(1) by (auto simp: silent_for_def)
  then show ?thesis
    unfolding silent_for_def using assms(2)
    by (intro exI [of _ pre] exI [of _ "mid @ [ev]"]) (auto simp: heartbeat_ticks_def)
qed

text \<open>The counter of missed pings, explained by the latest events.\<close>

definition hb_inv :: "conn_event list \<Rightarrow> grpc_connection \<Rightarrow> bool" where
  "hb_inv evs c \<longleftrightarrow>
     (gc_activity c \<or> silent_for (hb_missed_pings (gc_heartbeat c)) evs) \<and>
     hb_missed_pings (gc_heartbeat c) < MAX_MISSED_PINGS \<and> (\<not> hb_waiting_pong (gc_heartbeat c) \<longrightarrow> hb_missed_pings (gc_heartbeat c) = 0) \<and>
     (hb_waiting_pong (gc_heartbeat c) \<longrightarrow> hb_ping_pong (gc_heartbeat c))"

lemma hb_step_inv:
  assumes I: "hb_inv evs c" and "gc_step ev c = (r, c')"
  shows "(r = None \<longrightarrow> hb_inv (evs @ [ev]) c') \<and>
    (r = Some (Inl ''gRPC heartbeat timeout'') \<longrightarrow> silent_for MAX_MISSED_PINGS (evs @ [ev]))"
proof -
  let ?n = "hb_missed_pings (gc_heartbeat c)"
  have up: "gc_activity c \<or> silent_for (?n + (if is_heartbeat_tick ev then 1 else 0)) (evs @ [ev])" if "\<not> sign_of_life ev"
    using I silent_for_snoc [of ?n evs ev] that unfolding hb_inv_def by blast
  then have keep: "gc_activity c \<or> silent_for ?n (evs @ [ev])" if "\<not> sign_of_life ev"
    using that silent_for_mono le_add1 by blast
  show ?thesis
  proof (cases ev)
    case (Heartbeat_Tick sent)
    then show ?thesis
      using assms keep up
      by (auto simp: hb_inv_def hb_tick_def Let_def MAX_MISSED_PINGS_def split: if_splits prod.splits elim: silent_for_mono)
  next
    case (Pong_Received ok)
    then show ?thesis
      using assms keep by (cases ok) (auto simp: hb_inv_def hb_pong_def Let_def MAX_MISSED_PINGS_def split: if_splits)
  next
    case Idle_Tick
    then show ?thesis
      using assms keep by (auto simp: hb_inv_def idle_check_def Let_def split: if_splits)
  next
    case (Incoming meth path)
    then show ?thesis
      using assms by (auto simp: hb_inv_def accept_stream_def on_activity_def Let_def MAX_MISSED_PINGS_def)
  qed (use assms keep in \<open>auto simp: hb_inv_def\<close>)
qed

text \<open>The ticks that silence may still last, when every PING can be sent.\<close>

definition budget :: "grpc_connection \<Rightarrow> nat" where
  "budget c =
     (if hb_waiting_pong (gc_heartbeat c) \<and> \<not> gc_activity c then MAX_MISSED_PINGS - hb_missed_pings (gc_heartbeat c)
      else MAX_MISSED_PINGS + 1)"

lemma budget_step:
  assumes "gc_step ev c = (None, c')" and "hb_inv evs c" and "hb_ping_pong (gc_heartbeat c)"
    and "\<not> sign_of_life ev" and "ev \<noteq> Heartbeat_Tick False"
  shows "budget c' + (if is_heartbeat_tick ev then 1 else 0) \<le> budget c \<and> hb_ping_pong (gc_heartbeat c')"
proof (cases ev)
  case (Heartbeat_Tick sent)
  then show ?thesis
    using assms by (auto simp: budget_def hb_inv_def hb_tick_def Let_def MAX_MISSED_PINGS_def split: if_splits)
next
  case (Pong_Received ok)
  then show ?thesis using assms by (auto simp: budget_def hb_pong_def split: if_splits)
next
  case Idle_Tick
  then show ?thesis using assms by (auto simp: budget_def idle_check_def Let_def split: if_splits)
qed (use assms in \<open>auto simp: budget_def\<close>)

lemma silence_ends:
  assumes "gc_run evs c = (None, c')" and "hb_inv evs0 c" and "hb_ping_pong (gc_heartbeat c)"
    and "\<not> list_ex sign_of_life evs" and "Heartbeat_Tick False \<notin> set evs"
  shows "heartbeat_ticks evs < budget c"
  using assms
proof (induction evs arbitrary: evs0 c)
  case Nil
  then show ?case by (simp add: heartbeat_ticks_def budget_def hb_inv_def)
next
  case (Cons ev evs)
  obtain c1 where st: "gc_step ev c = (None, c1)" "gc_run evs c1 = (None, c')"
    using Cons.prems(1) by (auto split: prod.splits option.splits)
  have b: "budget c1 + (if is_heartbeat_tick ev then 1 else 0) \<le> budget c" "hb_ping_pong (gc_heartbeat c1)"
    using budget_step [OF st(1) Cons.prems(2,3)] Cons.prems(4,5) by auto
  have "hb_inv (evs0 @ [ev]) c1" using hb_step_inv [OF Cons.prems(2) st(1)] by simp
  from Cons.IH [OF st(2) this b(2)] Cons.prems(4,5) have "heartbeat_ticks evs < budget c1" by simp
  then show ?case using b(1) by (auto simp: heartbeat_ticks_def split: if_splits)
qed

lemma hb_inv_new: "hb_inv [] (gc_new paths pp)"
  by (simp add: hb_inv_def gc_new_def hb_new_def MAX_MISSED_PINGS_def)

section \<open>Idleness\<close>

text \<open>A request that becomes a stream, and events in which none did, with their idle ticks.\<close>

fun handled :: "string \<times> string \<Rightarrow> conn_event \<Rightarrow> bool" where
  "handled paths (Incoming meth path) \<longleftrightarrow> meth = ''POST'' \<and> (path = fst paths \<or> path = snd paths)"
| "handled paths _ \<longleftrightarrow> False"

definition idle_for :: "string \<times> string \<Rightarrow> nat \<Rightarrow> conn_event list \<Rightarrow> bool" where
  "idle_for paths n evs \<longleftrightarrow> (\<exists>pre mid. evs = pre @ mid \<and> \<not> list_ex (handled paths) mid \<and> n \<le> idle_tick_count mid)"

lemma idle_for_0 [simp]: "idle_for paths 0 evs"
  unfolding idle_for_def by (intro exI [of _ evs] exI [of _ "[]"]) simp

lemma idle_for_snoc:
  assumes "idle_for paths n evs" "\<not> handled paths ev"
  shows "idle_for paths (n + (if ev = Idle_Tick then 1 else 0)) (evs @ [ev])"
proof -
  obtain pre mid where "evs = pre @ mid" "\<not> list_ex (handled paths) mid" "n \<le> idle_tick_count mid"
    using assms(1) by (auto simp: idle_for_def)
  then show ?thesis
    unfolding idle_for_def using assms(2)
    by (intro exI [of _ pre] exI [of _ "mid @ [ev]"]) (auto simp: idle_tick_count_def)
qed

definition idle_inv :: "string \<times> string \<Rightarrow> conn_event list \<Rightarrow> grpc_connection \<Rightarrow> bool" where
  "idle_inv paths evs c \<longleftrightarrow>
     (gc_expected_path c, gc_expected_multi_path c) = paths \<and> idle_for paths (gc_idle_ticks c) evs \<and> gc_idle_ticks c \<le> 3 \<and>
     (gc_idle_ticks c = 3 \<longrightarrow> gc_draining c)"

lemma idle_step_inv:
  assumes I: "idle_inv paths evs c" and "gc_step ev c = (r, c')"
  shows "(r = None \<longrightarrow> idle_inv paths (evs @ [ev]) c') \<and>
    (r = Some (Inr ()) \<longrightarrow> ev = Incoming_Closed \<or> gc_active_streams c' = 0 \<and> gc_draining c' \<and> idle_for paths 4 (evs @ [ev]))"
proof -
  have up: "idle_for paths (gc_idle_ticks c + (if ev = Idle_Tick then 1 else 0)) (evs @ [ev])" if "\<not> handled paths ev"
    using I that idle_for_snoc unfolding idle_inv_def by blast
  show ?thesis
  proof (cases ev)
    case (Incoming meth path)
    then show ?thesis using assms up by (auto simp: idle_inv_def accept_stream_def Let_def)
  next
    case Idle_Tick
    have "gc_idle_ticks c \<le> 3" using I by (simp add: idle_inv_def)
    then show ?thesis
      using assms up Idle_Tick
      by (cases "gc_idle_ticks c = 3") (auto simp: idle_inv_def idle_check_def Let_def split: if_splits)
  next
    case (Heartbeat_Tick sent)
    then show ?thesis using assms up by (auto simp: idle_inv_def split: if_splits prod.splits sum.splits)
  next
    case (Pong_Received ok)
    then show ?thesis using assms up by (auto simp: idle_inv_def split: if_splits prod.splits sum.splits)
  qed (use assms up in \<open>auto simp: idle_inv_def\<close>)
qed


lemma idle_inv_new: "idle_inv paths [] (gc_new paths pp)"
  by (simp add: idle_inv_def gc_new_def)

text \<open>Without a stream, every idle tick brings the end nearer.\<close>

lemma idle_step_counts:
  assumes "gc_step ev c = (None, c')" and "gc_active_streams c = 0" and "(gc_expected_path c, gc_expected_multi_path c) = paths"
    and "\<not> handled paths ev"
  shows "gc_active_streams c' = 0 \<and> (gc_expected_path c', gc_expected_multi_path c') = paths \<and>
    gc_idle_ticks c' = gc_idle_ticks c + (if ev = Idle_Tick then 1 else 0) \<and> (ev = Idle_Tick \<longrightarrow> gc_idle_ticks c' \<le> 3)"
proof (cases ev)
  case Idle_Tick
  then show ?thesis using assms by (auto simp: idle_check_def Let_def split: if_splits)
next
  case (Incoming meth path)
  then show ?thesis using assms by (auto simp: accept_stream_def Let_def)
next
  case (Heartbeat_Tick sent)
  then show ?thesis using assms by (auto split: if_splits prod.splits sum.splits)
next
  case (Pong_Received ok)
  then show ?thesis using assms by (auto split: if_splits prod.splits sum.splits)
qed (use assms in auto)

lemma idleness_ends:
  assumes "gc_run evs c = (None, c')" and "gc_active_streams c = 0" and "(gc_expected_path c, gc_expected_multi_path c) = paths"
    and "\<not> list_ex (handled paths) evs" and "gc_idle_ticks c \<le> 3"
  shows "gc_idle_ticks c + idle_tick_count evs \<le> 3"
  using assms
proof (induction evs arbitrary: c)
  case Nil
  then show ?case by (simp add: idle_tick_count_def)
next
  case (Cons ev evs)
  obtain c1 where st: "gc_step ev c = (None, c1)" "gc_run evs c1 = (None, c')"
    using Cons.prems(1) by (auto split: prod.splits option.splits)
  have n: "gc_active_streams c1 = 0" "(gc_expected_path c1, gc_expected_multi_path c1) = paths"
    "gc_idle_ticks c1 = gc_idle_ticks c + (if ev = Idle_Tick then 1 else 0)" "gc_idle_ticks c1 \<le> 3"
    using idle_step_counts [OF st(1) Cons.prems(2,3)] Cons.prems(4,5) by auto
  from Cons.IH [OF st(2) n(1,2)] n(3,4) Cons.prems(4) show ?case by (auto simp: idle_tick_count_def split: if_splits)
qed

section \<open>Properties\<close>

text \<open>
  C24: The heartbeat.  A connection is declared dead only after three ticks in a row with no PONG, no
  new request and no data on any stream; and when PINGs can be sent, four ticks of such silence
  always end the connection, from any state it can be in.
\<close>

theorem heartbeat_verdict:
  assumes "gc_run evs (gc_new paths pp) = (r, c)"
  shows "(r = Some (Inl ''gRPC heartbeat timeout'') \<longrightarrow> (\<exists>es rest. evs = es @ rest \<and> silent_for MAX_MISSED_PINGS es)) \<and>
    (r = None \<longrightarrow> (\<forall>more_evs. hb_ping_pong (gc_heartbeat c) \<longrightarrow> \<not> list_ex sign_of_life more_evs \<longrightarrow> Heartbeat_Tick False \<notin> set more_evs \<longrightarrow>
       MAX_MISSED_PINGS + 1 \<le> heartbeat_ticks more_evs \<longrightarrow> fst (gc_run more_evs c) \<noteq> None))"
proof -
  have step: "(r = None \<longrightarrow> hb_inv (evs @ [ev]) c') \<and>
      (\<forall>x. r = Some x \<longrightarrow> x = Inl ''gRPC heartbeat timeout'' \<longrightarrow> silent_for MAX_MISSED_PINGS (evs @ [ev]))"
    if "hb_inv evs c" "gc_step ev c = (r, c')" for evs ev c r c'
    using hb_step_inv [OF that] by blast
  have h: "(r = None \<longrightarrow> hb_inv evs c) \<and>
      (\<forall>x. r = Some x \<longrightarrow> (\<exists>es rest. evs = es @ rest \<and> (x = Inl ''gRPC heartbeat timeout'' \<longrightarrow> silent_for MAX_MISSED_PINGS es)))"
    using gc_run_history [where I = hb_inv and Q = "\<lambda>x evs _. x = Inl ''gRPC heartbeat timeout'' \<longrightarrow> silent_for MAX_MISSED_PINGS evs",
        OF step hb_inv_new assms] by simp
  have "fst (gc_run more_evs c) \<noteq> None"
    if "r = None" "hb_ping_pong (gc_heartbeat c)" "\<not> list_ex sign_of_life more_evs" "Heartbeat_Tick False \<notin> set more_evs"
      "MAX_MISSED_PINGS + 1 \<le> heartbeat_ticks more_evs" for more_evs
  proof
    assume "fst (gc_run more_evs c) = None"
    then have "heartbeat_ticks more_evs < budget c"
      using silence_ends [of more_evs c "snd (gc_run more_evs c)"] h that by (simp add: prod_eq_iff)
    then show False using that(5) by (simp add: budget_def split: if_splits)
  qed
  then show ?thesis using h by blast
qed

theorem heartbeat_verdict_witness:
  "gc_run (replicate 4 (Heartbeat_Tick True)) (gc_new (''/Gun/Tun'', ''/Gun/TunMulti'') True) =
     (Some (Inl ''gRPC heartbeat timeout''), snd (gc_run (replicate 4 (Heartbeat_Tick True)) (gc_new (''/Gun/Tun'', ''/Gun/TunMulti'') True))) \<and>
   (\<exists>es rest. replicate 4 (Heartbeat_Tick True) = es @ rest \<and> silent_for MAX_MISSED_PINGS es)"
proof -
  have r: "gc_run (replicate 4 (Heartbeat_Tick True)) (gc_new (''/Gun/Tun'', ''/Gun/TunMulti'') True) =
     (Some (Inl ''gRPC heartbeat timeout''), snd (gc_run (replicate 4 (Heartbeat_Tick True)) (gc_new (''/Gun/Tun'', ''/Gun/TunMulti'') True)))"
    by (simp add: gc_new_def hb_new_def hb_tick_def MAX_MISSED_PINGS_def numeral_eq_Suc)
  then show ?thesis using heartbeat_verdict [OF r] by simp
qed

text \<open>
  C25: Idle connections.  A connection is closed for idleness only when no stream is open, after a
  GOAWAY, and after four idle ticks since the last accepted stream; rejected requests do not keep it
  open, and without a stream four idle ticks always end it.
\<close>

theorem idle_connection_closed:
  assumes "gc_run evs (gc_new paths pp) = (r, c)"
  shows "(r = Some (Inr ()) \<longrightarrow> Incoming_Closed \<notin> set evs \<longrightarrow>
      gc_active_streams c = 0 \<and> gc_draining c \<and> (\<exists>es rest. evs = es @ rest \<and> idle_for paths 4 es)) \<and>
    (r = None \<longrightarrow> gc_active_streams c = 0 \<longrightarrow> (\<forall>more_evs. \<not> list_ex (handled paths) more_evs \<longrightarrow> 4 \<le> idle_tick_count more_evs \<longrightarrow>
       fst (gc_run more_evs c) \<noteq> None))"
proof -
  let ?Q = "\<lambda>x evs c. x = Inr () \<longrightarrow> Incoming_Closed \<notin> set evs \<longrightarrow> gc_active_streams c = 0 \<and> gc_draining c \<and> idle_for paths 4 evs"
  have step: "(r = None \<longrightarrow> idle_inv paths (evs @ [ev]) c') \<and> (\<forall>x. r = Some x \<longrightarrow> ?Q x (evs @ [ev]) (c'\<lparr>gc_cancelled := True\<rparr>))"
    if "idle_inv paths evs c" "gc_step ev c = (r, c')" for evs ev c r c'
    using idle_step_inv [OF that] by auto
  have h: "(r = None \<longrightarrow> idle_inv paths evs c) \<and> (\<forall>x. r = Some x \<longrightarrow> (\<exists>es rest. evs = es @ rest \<and> ?Q x es c))"
    using gc_run_history [where I = "idle_inv paths" and Q = ?Q, OF step idle_inv_new assms] by simp
  have "fst (gc_run more_evs c) \<noteq> None"
    if t: "r = None" "gc_active_streams c = 0" "\<not> list_ex (handled paths) more_evs" "4 \<le> idle_tick_count more_evs" for more_evs
  proof
    assume "fst (gc_run more_evs c) = None"
    then have "gc_idle_ticks c + idle_tick_count more_evs \<le> 3"
      using idleness_ends [of more_evs c "snd (gc_run more_evs c)" paths] h t by (simp add: prod_eq_iff idle_inv_def)
    then show False using t(4) by simp
  qed
  then show ?thesis using h by fastforce
qed

theorem idle_connection_closed_witness:
  "gc_run (Incoming ''GET'' ''/'' # replicate 4 Idle_Tick) (gc_new (''/Gun/Tun'', ''/Gun/TunMulti'') True) =
     (Some (Inr ()), snd (gc_run (Incoming ''GET'' ''/'' # replicate 4 Idle_Tick) (gc_new (''/Gun/Tun'', ''/Gun/TunMulti'') True))) \<and>
   gc_draining (snd (gc_run (Incoming ''GET'' ''/'' # replicate 4 Idle_Tick) (gc_new (''/Gun/Tun'', ''/Gun/TunMulti'') True)))"
proof -
  have r: "gc_run (Incoming ''GET'' ''/'' # replicate 4 Idle_Tick) (gc_new (''/Gun/Tun'', ''/Gun/TunMulti'') True) =
     (Some (Inr ()), snd (gc_run (Incoming ''GET'' ''/'' # replicate 4 Idle_Tick) (gc_new (''/Gun/Tun'', ''/Gun/TunMulti'') True)))"
    by (simp add: gc_new_def hb_new_def accept_stream_def on_activity_def idle_check_def numeral_eq_Suc)
  then show ?thesis using idle_connection_closed [OF r] by simp
qed

end
