(* ===== verification/Accept.thy ===== *)
theory Accept
  imports Client_Stream Ws Grpc_Connection
begin

text \<open>
  \<open>src/src/server_runner.rs\<close>, \<open>accept_connection\<close> and the task of a connection in \<open>run_server\<close>: the
  handshakes under their timeouts and what each transport hands to \<open>process_connection\<close>.

  A handshake is given by how it came out.  The stream handed on is boxed: \<open>box_stream\<close> adds the
  histories of what it hands out and accepts, which no operation reads.  A gRPC connection is the
  loop of \<open>Grpc_Connection\<close>; each stream it accepts is a task of its own, \<open>grpc_stream\<close>.  The permits
  are those of the limiter, \<open>None\<close> without one.
\<close>

section \<open>Handshakes\<close>

record network_settings =
  ns_grpc_service_name :: string
  ns_ws_path :: string

datatype 'r handshake = Timed_Out | Refused string | Established 'r

definition box_stream :: "'s \<Rightarrow> 's recorded" where
  "box_stream s = \<lparr>rc_inner = s, rc_rx = [], rc_tx = []\<rparr>"

type_synonym ('a, 'b, 'c, 'd, 'w) served =
  "outcome \<times> 'd shared \<times> ('a recorded \<times> 'b option \<times> ('c, 'd, 'w) udp_state option) option"

definition serve ::
    "'d server \<Rightarrow> 'a stream_ops \<Rightarrow> 'b stream_ops \<Rightarrow> ('a recorded, 'b, 'c, 'w) outside \<Rightarrow> transport_type \<Rightarrow> 'd shared \<Rightarrow> 'a \<Rightarrow>
     ('a, 'b, 'c, 'd, 'w) served" where
  "serve sv A B ou ty sh stream =
     (case process_connection sv (recorded_ops A) B ou ty sh (box_stream stream) of
        (out, sh, a, b, us) \<Rightarrow> (out, sh, Some (a, b, us)))"

definition fail_with :: "string \<Rightarrow> 'd shared \<Rightarrow> ('a, 'b, 'c, 'd, 'w) served" where
  "fail_with e sh = (Returned (Inl (Msg e)), sh, None)"

section \<open>The transports\<close>

definition accept_tcp ::
    "'d server \<Rightarrow> 'a stream_ops \<Rightarrow> 'b stream_ops \<Rightarrow> ('a recorded, 'b, 'c, 'w) outside \<Rightarrow> 'd shared \<Rightarrow> 'a \<Rightarrow>
     ('a, 'b, 'c, 'd, 'w) served" where
  "accept_tcp sv A B ou = serve sv A B ou Tcp"

text \<open>
  The decoders of the upgrade request and the text of an HTTP error are those of the libraries.
\<close>

record ws_decoders =
  wd_percent_decode :: "string \<Rightarrow> string"
  wd_to_str :: "bytes \<Rightarrow> string option"
  wd_base64_decode :: "string \<Rightarrow> bytes option"
  wd_http_error :: "nat \<Rightarrow> string"

definition accept_ws ::
    "ws_decoders \<Rightarrow> network_settings \<Rightarrow> nat \<Rightarrow> 't tungstenite \<Rightarrow> 'd server \<Rightarrow> 'b stream_ops \<Rightarrow>
     ('t ws_transport recorded, 'b, 'c, 'w) outside \<Rightarrow> 'd shared \<Rightarrow> (ws_request \<times> 't) handshake \<Rightarrow>
     ('t ws_transport, 'b, 'c, 'd, 'w) served" where
  "accept_ws wd ns fuel T sv B ou sh hs =
     (case hs of
        Timed_Out \<Rightarrow> fail_with ''WebSocket handshake timeout'' sh
      | Refused e \<Rightarrow> fail_with e sh
      | Established (req, stream) \<Rightarrow>
          (case ws_accept (wd_percent_decode wd) (wd_to_str wd) (wd_base64_decode wd) (ns_ws_path ns) req stream of
             Inl status \<Rightarrow> fail_with (wd_http_error wd status) sh
           | Inr ws_transport \<Rightarrow> serve sv (ws_ops fuel T) B ou WebSocket sh ws_transport))"

fun take_permit :: "nat option \<Rightarrow> nat option option" where
  "take_permit None = Some None"
| "take_permit (Some 0) = None"
| "take_permit (Some (Suc n)) = Some (Some n)"

definition give_permit :: "nat option \<Rightarrow> nat option" where
  "give_permit p = map_option Suc p"

text \<open>The handler of a gRPC stream: at capacity it is refused instead of waiting.\<close>

definition grpc_stream ::
    "nat \<Rightarrow> 'h h2 \<Rightarrow> 'd server \<Rightarrow> 'b stream_ops \<Rightarrow> ('h grpc_transport recorded, 'b, 'c, 'w) outside \<Rightarrow> nat option \<Rightarrow>
     'd shared \<Rightarrow> 'h \<Rightarrow> ('h grpc_transport, 'b, 'c, 'd, 'w) served" where
  "grpc_stream fuel H sv B ou permits sh h =
     (case take_permit permits of
        None \<Rightarrow> fail_with ''max_connections reached'' sh
      | Some _ \<Rightarrow>
          serve sv (grpc_ops fuel H) B ou Grpc sh (with_activity h (cc_buffer_size (sv_conn_config sv)) (Some False)))"

text \<open>The connection the streams come from; \<open>None\<close> while it runs.\<close>

definition accept_grpc ::
    "((char \<Rightarrow> bool) \<Rightarrow> string \<Rightarrow> string) \<Rightarrow> network_settings \<Rightarrow> conn_event list \<Rightarrow> bool handshake \<Rightarrow>
     (string + unit) option \<times> grpc_connection option" where
  "accept_grpc percent_encode ns evs hs =
     (case hs of
        Timed_Out \<Rightarrow> (Some (Inl ''HTTP/2 handshake timeout''), None)
      | Refused e \<Rightarrow> (Some (Inl (''h2 handshake: '' @ e)), None)
      | Established ping_pong \<Rightarrow>
          apsnd Some (gc_run evs (gc_new (grpc_paths percent_encode (ns_grpc_service_name ns)) ping_pong)))"

text \<open>The socket before it: plain, or behind a TLS handshake.\<close>

datatype 's socket = Plain 's | Tls "'s handshake"

definition accept_socket ::
    "('d shared \<Rightarrow> 's \<Rightarrow> ('a, 'b, 'c, 'd, 'w) served) \<Rightarrow> 'd shared \<Rightarrow> 's socket \<Rightarrow> ('a, 'b, 'c, 'd, 'w) served" where
  "accept_socket accept_connection sh sock =
     (case sock of
        Plain stream \<Rightarrow> accept_connection sh stream
      | Tls (Established stream) \<Rightarrow> accept_connection sh stream
      | Tls (Refused e) \<Rightarrow> fail_with (''TLS handshake failed: '' @ e) sh
      | Tls Timed_Out \<Rightarrow> fail_with ''TLS handshake timeout'' sh)"

section \<open>Lemmas\<close>

text \<open>The scripts of the client leave everything but the state of the library alone.\<close>

definition client_quiet :: "('a \<Rightarrow> 'v) \<Rightarrow> ('a, 'b, 'c, 'w) outside \<Rightarrow> bool" where
  "client_quiet v ou \<longleftrightarrow>
     quiet v (sc_read (ou_scripts ou)) \<and> quiet v (sc_close (ou_scripts ou)) \<and>
     quiet_events (\<lambda>s. v (nh_inner s)) (\<lambda>_. ()) (sc_relay (ou_scripts ou)) \<and> quiet_udp v (ou_events ou)"

lemma client_quiet_keeps:
  assumes "client_quiet v ou" and i: "\<And>s s'. v s' = v s \<Longrightarrow> I s \<Longrightarrow> I s'"
  shows "outside_keeps I ou"
proof -
  have k: "keeps I script" if "quiet v script" for script
    using that i unfolding quiet_def keeps_def by meson
  have "relay_keeps (\<lambda>s. I (nh_inner s)) (sc_relay (ou_scripts ou))"
    using assms unfolding client_quiet_def quiet_events_def relay_keeps_def by meson
  then show ?thesis
    using assms(1) k by (auto simp: outside_keeps_def client_keeps_def udp_keeps_def client_quiet_def quiet_udp_def)
qed

definition ws_view :: "'t logged ws_transport recorded \<Rightarrow> _" where
  "ws_view r =
     (rc_rx r, rc_tx r, ws_rest (rc_inner r), ws_read_closed (rc_inner r), ws_write_closed (rc_inner r),
      lg_received (ws_stream (rc_inner r)), lg_sent (ws_stream (rc_inner r)))"

definition grpc_view :: "'h h2_logged grpc_transport recorded \<Rightarrow> _" where
  "grpc_view r = (rc_rx r, rc_tx r, read_view (rc_inner r))"

text \<open>A library with an empty log.\<close>

definition fresh_log :: "'t \<Rightarrow> 't logged" where
  "fresh_log t = \<lparr>lg_inner = t, lg_received = [], lg_sent = []\<rparr>"

definition fresh_h2_log :: "'h \<Rightarrow> 'h h2_logged" where
  "fresh_h2_log h = \<lparr>hl_inner = h, hl_received = [], hl_released = 0, hl_sent = []\<rparr>"

lemma ws_view_inv: "ws_view s' = ws_view s \<Longrightarrow> ws_inv early (rc_rx s) (rc_tx s) (rc_inner s) \<Longrightarrow> ws_inv early (rc_rx s') (rc_tx s') (rc_inner s')"
  by (simp add: ws_view_def ws_inv_def)

lemma grpc_view_inv: "grpc_view s' = grpc_view s \<Longrightarrow> read_inv H (rc_rx s) (rc_inner s) \<Longrightarrow> read_inv H (rc_rx s') (rc_inner s')"
  using read_inv_view by (auto simp: grpc_view_def)

lemma serve_eq:
  "serve sv A B ou ty sh s = (out, sh', Some (a, b, us)) \<longleftrightarrow>
     process_connection sv (recorded_ops A) B ou ty sh (box_stream s) = (out, sh', a, b, us)"
  by (auto simp: serve_def split: prod.splits)

text \<open>A served WebSocket has passed the handshake.\<close>

lemma accept_ws_served:
  assumes "accept_ws wd ns fuel T sv B ou sh (Established (req, stream)) = (out, sh', Some (a', b', us))"
  obtains early where "wd_percent_decode wd (wr_path req) = ns_ws_path ns" "length early \<le> MAX_EARLY_DATA"
    "process_connection sv (recorded_ops (ws_ops fuel T)) B ou WebSocket sh (box_stream (with_early_data stream early)) = (out, sh', a', b', us)"
  using assms
  by (auto simp: accept_ws_def ws_accept_def fail_with_def serve_eq dest!: ws_callback_accepts split: sum.splits ws_handshake.splits)

lemma grpc_stream_served:
  "grpc_stream fuel H sv B ou permits sh h = (out, sh', Some (a', b', us)) \<longleftrightarrow>
     permits \<noteq> Some 0 \<and> process_connection sv (recorded_ops (grpc_ops fuel H)) B ou Grpc sh
       (box_stream (with_activity h (cc_buffer_size (sv_conn_config sv)) (Some False))) = (out, sh', a', b', us)"
  by (cases permits rule: take_permit.cases) (auto simp: grpc_stream_def fail_with_def serve_eq)

text \<open>An accepted upgrade and a stream with a permit are served.\<close>

lemma serve_runs: "\<exists>out sh' a' b' us. serve sv A B ou ty sh s = (out, sh', Some (a', b', us))"
  unfolding serve_eq by (metis prod_cases5)

lemma accept_ws_runs:
  "ws_callback (wd_percent_decode wd) (wd_to_str wd) (wd_base64_decode wd) (ns_ws_path ns) req = Handshake_Accept early proto \<Longrightarrow>
     \<exists>out sh' a' b' us. accept_ws wd ns fuel T sv B ou sh (Established (req, stream)) = (out, sh', Some (a', b', us))"
  by (simp add: accept_ws_def ws_accept_def serve_runs)

lemma grpc_stream_runs:
  "permits \<noteq> Some 0 \<Longrightarrow> \<exists>out sh' a' b' us. grpc_stream fuel H sv B ou permits sh h = (out, sh', Some (a', b', us))"
  by (cases permits rule: take_permit.cases) (simp_all add: grpc_stream_def serve_runs)

text \<open>The relay of each transport works on a pair whose invariants hold in both directions.\<close>

interpretation ws_pair: invariant_pair "no_half_close_ops (recorded_ops (ws_ops fuel (logged_ops T)))"
  "\<lambda>s. ws_inv early (rc_rx (nh_inner s)) (rc_tx (nh_inner s)) (rc_inner (nh_inner s))" "recorded_ops B" "\<lambda>_. True"
  for fuel early and T :: "'t tungstenite" and B :: "'b stream_ops"
  by (intro invariant_pair.intro call_invariant.no_half_close_keeps [OF ws_calls.call_invariant_axioms] any_calls.call_invariant_axioms)

interpretation grpc_pair: invariant_pair "no_half_close_ops (recorded_ops (grpc_ops fuel (h2_logged_ops H)))"
  "\<lambda>s. read_inv H (rc_rx (nh_inner s)) (rc_inner (nh_inner s))" "recorded_ops B" "\<lambda>_. True"
  for fuel and H :: "'h h2" and B :: "'b stream_ops"
  by (intro invariant_pair.intro call_invariant.no_half_close_keeps [OF grpc_reads.call_invariant_axioms] any_calls.call_invariant_axioms)

text \<open>
  What a session delivers, by the data the client has sent: the header of an authenticated user and
  then data.  For CONNECT the remote gets a prefix of the data and the client a prefix of the answers;
  for UDP the packets handled are a prefix of the data and the client gets the encoded replies.
\<close>

definition delivers ::
    "'d server \<Rightarrow> (socket_addr \<Rightarrow> (io_error, 'b recorded) dialled) \<Rightarrow> (handler_ref \<Rightarrow> acl_addr \<Rightarrow> (string, 'b recorded) dialled) \<Rightarrow>
     bytes \<Rightarrow> bytes \<Rightarrow> 'b recorded option \<Rightarrow> ('c, 'd, 'w) udp_state option \<Rightarrow> bool" where
  "delivers sv connect dial sent answered b' us \<longleftrightarrow>
     (case (b', us) of
        (None, None) \<Rightarrow> answered = []
      | (Some b1, _) \<Rightarrow> \<exists>pw target u data b0 up back.
          sent = header_bytes pw Connect target @ data \<and> sv_authenticate sv pw = Some u \<and> opened connect dial b0 \<and>
          rc_tx b1 = rc_tx b0 @ up \<and> prefix up data \<and> rc_rx b1 = rc_rx b0 @ back \<and> prefix answered back
      | (None, Some st) \<Rightarrow> \<exists>pw target u data part.
          sent = header_bytes pw UdpAssociate target @ data \<and> sv_authenticate sv pw = Some u \<and>
          prefix (packets_bytes (received (us_log st))) data \<and>
          answered = packets_bytes (replied (us_log st)) @ part \<and> reply_part part)"

text \<open>The client may have sent more than the session has read.\<close>

lemma process_connection_delivers:
  assumes "process_connection sv (recorded_ops A) (recorded_ops B) ou ty sh (box_stream s) = (out, sh', a', b', us)"
    and "outside_quiet ou" and "sent = rc_rx a' @ more_sent"
  shows "delivers sv (ou_connect ou) (ou_dial ou) sent (rc_tx a') b' us"
proof (cases b')
  case None
  show ?thesis
  proof (cases us)
    case None
    then show ?thesis using \<open>b' = None\<close> process_connection_flow [OF assms(1,2)] by (simp add: delivers_def box_stream_def)
  next
    case (Some st)
    with process_connection_udp_flow [OF assms(1) [unfolded Some] assms(2)] \<open>b' = None\<close> assms(3) show ?thesis
      by (fastforce simp: delivers_def box_stream_def)
  qed
next
  case (Some b1)
  then obtain pw target u data b0 up bk where f: "rc_rx a' = header_bytes pw Connect target @ data"
    "sv_authenticate sv pw = Some u" "opened (ou_connect ou) (ou_dial ou) b0" "rc_tx b1 = rc_tx b0 @ up" "prefix up data"
    "rc_rx b1 = rc_rx b0 @ bk" "prefix (rc_tx a') bk"
    using process_connection_flow [OF assms(1,2)] by (auto simp: box_stream_def)
  have "sent = header_bytes pw Connect target @ (data @ more_sent)" using f(1) assms(3) by simp
  moreover have "prefix up (data @ more_sent)" using f(5) by (rule prefix_prefix)
  ultimately show ?thesis using f(2-4,6,7) unfolding delivers_def Some prod.case option.case by blast
qed

section \<open>Concrete connections\<close>

text \<open>Early data carries the first half of the request, a message the rest; a gRPC stream ends before its request.\<close>

definition demo_decoders :: ws_decoders where
  "demo_decoders =
     \<lparr>wd_percent_decode = id, wd_to_str = (\<lambda>_. Some ''x''), wd_base64_decode = (\<lambda>_. Some (take 30 demo_wire)), wd_http_error = (\<lambda>_. ''HTTP error'')\<rparr>"

definition quiet_outside :: "('a, bytes io_result poll list recorded, nat, nat) outside" where
  "quiet_outside =
     \<lparr>ou_spare = (\<lambda>_. 100),
      ou_scripts = \<lparr>sc_read = [id, id, id], sc_close = [id], sc_write = [id], sc_relay = [Cancelled], sc_close_remote = [id], sc_start = 0\<rparr>,
      ou_connect = (\<lambda>_. Dialled (scripted_remote [])), ou_dial = (\<lambda>_ _. Dial_Timeout), ou_net = demo_net, ou_events = [Kick],
      ou_world = 0, ou_registry = id\<rparr>"

lemma quiet_outside_sel:
  "ou_connect quiet_outside = (\<lambda>_. Dialled (scripted_remote []))" "ou_dial quiet_outside = (\<lambda>_ _. Dial_Timeout)"
  by (simp_all add: quiet_outside_def)

lemma quiet_outside_quiet: "outside_quiet quiet_outside" "client_quiet v quiet_outside"
  by (simp_all add: quiet_outside_def outside_quiet_def quiet_scripts_def client_quiet_def)

section \<open>Properties\<close>





end
