(* ===== verification/Os_Setup.thy ===== *)
theory Os_Setup
  imports Config
begin

text \<open>
  What the server asks of the operating system and of its libraries at start:
  \<open>src/src/net.rs\<close> (the dual-stack listener and the tuning of sockets),
  \<open>src/src/transport/tls.rs\<close> (the certificate and the key), \<open>src/src/logger.rs\<close> (the levels of the
  log filter) and \<open>src/src/error.rs\<close> (the error type).

  The socket calls, the PEM reader and the TLS configuration are parameters; the order of the calls
  and what is done with their errors is modelled.  Error numbers are those of Linux.
\<close>

section \<open>Listening sockets\<close>

datatype os_error = Os_Error (raw_os_error: "nat option")

definition EPROTONOSUPPORT :: nat where "EPROTONOSUPPORT = 93"
definition EAFNOSUPPORT :: nat where "EAFNOSUPPORT = 97"
definition EADDRNOTAVAIL :: nat where "EADDRNOTAVAIL = 99"

datatype domain = IPV4 | IPV6

record ('s, 'l) socket_api =
  sk_new :: "domain \<Rightarrow> os_error + 's"
  sk_set_reuse_address :: "'s \<Rightarrow> os_error + 's"
  sk_set_nonblocking :: "'s \<Rightarrow> os_error + 's"
  sk_set_only_v6 :: "'s \<Rightarrow> bool \<Rightarrow> os_error + 's"
  sk_bind :: "'s \<Rightarrow> socket_addr \<Rightarrow> os_error + 's"
  sk_listen :: "'s \<Rightarrow> int \<Rightarrow> os_error + 's"
  sk_from_std :: "'s \<Rightarrow> os_error + 'l"

definition try_io :: "('e + 'a) \<Rightarrow> ('a \<Rightarrow> 'e + 'b) \<Rightarrow> 'e + 'b" where
  "try_io r k = (case r of Inl e \<Rightarrow> Inl e | Inr x \<Rightarrow> k x)"

definition new_tcp_socket :: "('s, 'l) socket_api \<Rightarrow> domain \<Rightarrow> os_error + 's" where
  "new_tcp_socket S d =
     try_io (sk_new S d) (\<lambda>socket. try_io (sk_set_reuse_address S socket) (\<lambda>socket. sk_set_nonblocking S socket))"

definition listen_socket :: "('s, 'l) socket_api \<Rightarrow> 's \<Rightarrow> socket_addr \<Rightarrow> int \<Rightarrow> os_error + 'l" where
  "listen_socket S socket addr tcp_backlog =
     try_io (sk_bind S socket addr) (\<lambda>socket. try_io (sk_listen S socket tcp_backlog) (\<lambda>socket. sk_from_std S socket))"

definition try_bind_dual_stack :: "('s, 'l) socket_api \<Rightarrow> u16 \<Rightarrow> int \<Rightarrow> os_error + 'l" where
  "try_bind_dual_stack S port tcp_backlog =
     try_io (new_tcp_socket S IPV6) (\<lambda>socket. try_io (sk_set_only_v6 S socket False)
       (\<lambda>socket. listen_socket S socket \<lparr>sa_ip = V6 (replicate 16 0), sa_port = port\<rparr> tcp_backlog))"

definition is_ipv6_unsupported :: "os_error \<Rightarrow> bool" where
  "is_ipv6_unsupported err \<longleftrightarrow> raw_os_error err \<in> {Some EAFNOSUPPORT, Some EPROTONOSUPPORT, Some EADDRNOTAVAIL}"

definition bind_dual_stack :: "('s, 'l) socket_api \<Rightarrow> u16 \<Rightarrow> int \<Rightarrow> os_error + 'l" where
  "bind_dual_stack S port tcp_backlog =
     (case try_bind_dual_stack S port tcp_backlog of
        Inr listener \<Rightarrow> Inr listener
      | Inl e \<Rightarrow>
          if is_ipv6_unsupported e then
            try_io (new_tcp_socket S IPV4)
              (\<lambda>socket. listen_socket S socket \<lparr>sa_ip = V4 [0, 0, 0, 0], sa_port = port\<rparr> tcp_backlog)
          else Inl e)"

text \<open>The options of a stream; failures to set them are ignored.\<close>

definition TCP_KEEPALIVE_SECS :: nat where "TCP_KEEPALIVE_SECS = 15"

datatype tcp_option = Nodelay | Keepalive duration duration

definition tune_tcp_stream :: "bool \<Rightarrow> tcp_option list" where
  "tune_tcp_stream nodelay =
     (if nodelay then [Nodelay] else []) @ [Keepalive (from_secs TCP_KEEPALIVE_SECS) (from_secs TCP_KEEPALIVE_SECS)]"

section \<open>TLS\<close>

record ('c, 'k, 't) tls_library =
  tl_open :: "string \<Rightarrow> string io_result"
  tl_certs :: "string \<Rightarrow> (string + 'c) list"
  tl_private_key :: "string \<Rightarrow> 'k option io_result"
  tl_single_cert :: "'c list \<Rightarrow> 'k \<Rightarrow> string + unit"
  tl_ticketer :: "string + 't"

record ('c, 'k, 't) tls_config =
  tls_certs :: "'c list"
  tls_key :: 'k
  tls_ticketer :: "'t option"
  tls_alpn_protocols :: "string list"

definition oks :: "('e + 'a) list \<Rightarrow> 'a list" where
  "oks rs = List.map_filter (\<lambda>r. case r of Inr x \<Rightarrow> Some x | Inl _ \<Rightarrow> None) rs"

definition load_tls_config ::
    "('c, 'k, 't) tls_library \<Rightarrow> string \<Rightarrow> string \<Rightarrow> string list \<Rightarrow> ('c, 'k, 't) tls_config io_result" where
  "load_tls_config L cert_path key_path alpn =
     try_io (tl_open L cert_path) (\<lambda>cert_file.
       let certs = oks (tl_certs L cert_file) in
       if certs = [] then Inl (Io_Error InvalidData ''No certificates found in cert file'')
       else
         try_io (tl_open L key_path) (\<lambda>key_file.
         try_io (tl_private_key L key_file) (\<lambda>key.
           (case key of
              None \<Rightarrow> Inl (Io_Error InvalidData ''No private key found'')
            | Some key \<Rightarrow>
                (case tl_single_cert L certs key of
                   Inl e \<Rightarrow> Inl (Io_Error InvalidData e)
                 | Inr _ \<Rightarrow>
                     Inr \<lparr>tls_certs = certs, tls_key = key,
                          tls_ticketer = (case tl_ticketer L of Inr t \<Rightarrow> Some t | Inl _ \<Rightarrow> None),
                          tls_alpn_protocols = alpn\<rparr>)))))"

section \<open>Levels of the log\<close>

text \<open>A filter lets through the levels up to it; the order of the source, from quiet to chatty.\<close>

datatype level_filter = F_ERROR | F_WARN | F_INFO | F_DEBUG | F_TRACE

fun filter_rank :: "level_filter \<Rightarrow> nat" where
  "filter_rank F_ERROR = 1"
| "filter_rank F_WARN = 2"
| "filter_rank F_INFO = 3"
| "filter_rank F_DEBUG = 4"
| "filter_rank F_TRACE = 5"

instantiation level_filter :: linorder
begin

definition less_eq_level_filter :: "level_filter \<Rightarrow> level_filter \<Rightarrow> bool" where
  "less_eq_level_filter a b \<longleftrightarrow> filter_rank a \<le> filter_rank b"

definition less_level_filter :: "level_filter \<Rightarrow> level_filter \<Rightarrow> bool" where
  "less_level_filter a b \<longleftrightarrow> filter_rank a < filter_rank b"

instance
proof
  fix x y :: level_filter
  show "x \<le> y \<Longrightarrow> y \<le> x \<Longrightarrow> x = y" by (cases x; cases y) (simp_all add: less_eq_level_filter_def)
qed (auto simp: less_eq_level_filter_def less_level_filter_def)

end

fun to_level_filter :: "log_level \<Rightarrow> level_filter" where
  "to_level_filter Trace = F_TRACE"
| "to_level_filter Debug = F_DEBUG"
| "to_level_filter Info = F_INFO"
| "to_level_filter Warn = F_WARN"
| "to_level_filter LError = F_ERROR"

text \<open>The filters of the server's own modules and of its dependencies.\<close>

definition logger_filters :: "(string \<Rightarrow> string) \<Rightarrow> string \<Rightarrow> level_filter \<times> level_filter" where
  "logger_filters lower log_level_str =
     (let own = to_level_filter (case log_level_from_str lower log_level_str of Inr l \<Rightarrow> l | Inl _ \<Rightarrow> Info) in
      (own, if own < F_INFO then own else F_INFO))"

section \<open>Errors\<close>

datatype trojan_error =
    TE_Io io_error
  | TE_Config string
  | TE_ProtocolParse string
  | TE_Authentication string
  | TE_Tls string
  | TE_Connection string
  | TE_Transport string
  | TE_Other string

fun trojan_error_display :: "trojan_error \<Rightarrow> string" where
  "trojan_error_display (TE_Io e) = ''IO error: '' @ err_msg e"
| "trojan_error_display (TE_Config s) = ''Configuration error: '' @ s"
| "trojan_error_display (TE_ProtocolParse s) = ''Protocol parse error: '' @ s"
| "trojan_error_display (TE_Authentication s) = ''Authentication error: '' @ s"
| "trojan_error_display (TE_Tls s) = ''TLS error: '' @ s"
| "trojan_error_display (TE_Connection s) = ''Network connection error: '' @ s"
| "trojan_error_display (TE_Transport s) = ''Transport error: '' @ s"
| "trojan_error_display (TE_Other s) = s"

section \<open>Lemmas\<close>

text \<open>
  The listener is a dual-stack one whenever that can be had.  IPv4 alone is used only on a system
  without IPv6: any other failure, such as a port in use, is reported and not papered over.
\<close>

lemma bind_dual_stack_fallback:
  "case try_bind_dual_stack S port backlog of
     Inr l \<Rightarrow> bind_dual_stack S port backlog = Inr l
   | Inl e \<Rightarrow>
       (\<not> is_ipv6_unsupported e \<longrightarrow> bind_dual_stack S port backlog = Inl e) \<and>
       (\<forall>l. bind_dual_stack S port backlog = Inr l \<longrightarrow> is_ipv6_unsupported e \<and>
          (\<exists>s. new_tcp_socket S IPV4 = Inr s \<and> listen_socket S s \<lparr>sa_ip = V4 [0, 0, 0, 0], sa_port = port\<rparr> backlog = Inr l))"
  by (auto simp: bind_dual_stack_def try_io_def split: sum.splits if_splits)

text \<open>A TLS configuration has a certificate and a key that fit together, and offers the protocols given.\<close>

lemma load_tls_config_ok:
  assumes "load_tls_config L cert_path key_path alpn = Inr cfg"
  shows "tls_certs cfg \<noteq> []" "tl_single_cert L (tls_certs cfg) (tls_key cfg) = Inr ()" "tls_alpn_protocols cfg = alpn"
  using assms by (auto simp: load_tls_config_def try_io_def Let_def split: sum.splits if_splits option.splits)

text \<open>Dependencies are never chattier than \<open>INFO\<close> and never chattier than the server itself.\<close>

lemma logger_filters_order:
  assumes "logger_filters lower s = (own, deps)"
  shows "deps = min own F_INFO"
  using assms by (auto simp: logger_filters_def Let_def min_def)

end
