(* ===== verification/Runner.thy ===== *)
theory Runner
  imports Accept Os_Setup
begin

text \<open>
  \<open>src/src/core/server.rs\<close> and \<open>src/src/server_runner.rs\<close>: building the server and its router from
  the configuration, the dispatch on the transport, and the accept loop with its permits.

  The loader and the compiler of the rules are the parameters of the ACL engine.  The accept loop is
  a step relation between the listener, the tasks of the connections, the tasks of the gRPC streams
  and the semaphore they share.  The TLS handshake and the tuning of sockets are library calls.
\<close>

section \<open>Configuration of the transports\<close>

fun alpn_for_transport :: "transport_type \<Rightarrow> string list" where
  "alpn_for_transport Grpc = [''h2'']"
| "alpn_for_transport WebSocket = [''http/1.1'']"
| "alpn_for_transport Tcp = []"

definition WS_MIN_MAX_FRAME :: nat where "WS_MIN_MAX_FRAME = 64 * 1024"
definition WS_MIN_MAX_MESSAGE :: nat where "WS_MIN_MAX_MESSAGE = 256 * 1024"

record ws_limits =
  wl_write_buffer_size :: nat
  wl_max_write_buffer_size :: nat
  wl_max_message_size :: nat
  wl_max_frame_size :: nat

definition ws_config_for :: "nat \<Rightarrow> ws_limits" where
  "ws_config_for buf_size =
     (let max_frame = max (buf_size * 2) WS_MIN_MAX_FRAME in
      \<lparr>wl_write_buffer_size = buf_size, wl_max_write_buffer_size = buf_size + max_frame + 16,
       wl_max_message_size = max (buf_size * 4) WS_MIN_MAX_MESSAGE, wl_max_frame_size = max_frame\<rparr>)"

definition build_transport_config :: "server_config \<Rightarrow> transport_type \<times> bool" where
  "build_transport_config config =
     (if sc_enable_grpc config then Grpc else if sc_enable_ws config then WebSocket else Tcp,
      sc_cert config \<noteq> None \<and> sc_key config \<noteq> None)"

text \<open>The two paths are set whenever TLS is on.\<close>

definition load_tls :: "('c, 'k, 't) tls_library \<Rightarrow> server_config \<Rightarrow> ('c, 'k, 't) tls_config option io_result" where
  "load_tls L config =
     (case build_transport_config config of (ty, has_tls) \<Rightarrow>
        if \<not> has_tls then Inr None
        else
          try_io (load_tls_config L (the (sc_cert config)) (the (sc_key config)) (alpn_for_transport ty))
            (\<lambda>tls_config. Inr (Some tls_config)))"

section \<open>The router and the server\<close>

datatype router = Acl_Router acl_router | Direct_Router direct_router

fun router_route :: "'d resolver \<Rightarrow> router \<Rightarrow> 'd \<Rightarrow> address \<Rightarrow> handler_ref outbound_type \<times> 'd" where
  "router_route resolve (Acl_Router r) = acl_route resolve r"
| "router_route resolve (Direct_Router r) = direct_route resolve r"

fun router_route_udp :: "'d resolver \<Rightarrow> router \<Rightarrow> 'd \<Rightarrow> address \<Rightarrow> handler_ref outbound_type \<times> 'd" where
  "router_route_udp resolve (Acl_Router r) = acl_route_udp resolve r"
| "router_route_udp resolve (Direct_Router r) = direct_route_udp resolve r"

text \<open>Reading the rule file: the file system and the YAML parser are parameters.\<close>

definition load_acl_config ::
    "(string \<Rightarrow> string + string) \<Rightarrow> (string \<Rightarrow> string + acl_config) \<Rightarrow> string \<Rightarrow> string + acl_config" where
  "load_acl_config read_to_string from_yaml path =
     (case read_to_string path of
        Inl e \<Rightarrow> Inl (''Failed to read ACL config file '' @ quoted path @ '': '' @ e)
      | Inr content \<Rightarrow>
          (case from_yaml content of
             Inl e \<Rightarrow> Inl (''Failed to parse ACL config file '' @ quoted path @ '': '' @ e)
           | Inr config \<Rightarrow> Inr config))"

definition build_router ::
    "acl_env \<Rightarrow> (string \<Rightarrow> string + 'r) \<Rightarrow> ('r \<Rightarrow> outbounds \<Rightarrow> geo_loader \<Rightarrow> string + matcher) \<Rightarrow>
     (string \<Rightarrow> string + string) \<Rightarrow> (string \<Rightarrow> string + acl_config) \<Rightarrow> server_config \<Rightarrow> bool \<Rightarrow> string + router" where
  "build_router env parse_rules compile read_to_string from_yaml config refresh_geodata =
     (case sc_acl_conf_file config of
        Some acl_path \<Rightarrow>
          (case load_acl_config read_to_string from_yaml acl_path of
             Inl e \<Rightarrow> Inl e
           | Inr acl_config \<Rightarrow>
               (case acl_engine_new env parse_rules compile acl_config (Some (sc_data_dir config)) refresh_geodata of
                  Inl e \<Rightarrow> Inl e
                | Inr engine \<Rightarrow>
                    Inr (Acl_Router \<lparr>ar_engine = engine, ar_block_private_ip = sc_block_private_ip config\<rparr>)))
      | None \<Rightarrow> Inr (Direct_Router \<lparr>dr_block_private_ip = sc_block_private_ip config\<rparr>))"

record 'd server_builder =
  sb_authenticator :: "(bytes \<Rightarrow> user_id option) option"
  sb_stats :: bool
  sb_router :: "router option"
  sb_conn_manager :: "connection_manager option"
  sb_conn_config :: "conn_config option"
  sb_dns_cache :: "'d resolver option"

definition builder_new :: "'d server_builder" where
  "builder_new =
     \<lparr>sb_authenticator = None, sb_stats = False, sb_router = None, sb_conn_manager = None, sb_conn_config = None, sb_dns_cache = None\<rparr>"

text \<open>\<open>build\<close> panics, here \<open>None\<close>, unless everything it requires is set; the default router blocks private addresses.\<close>

definition build :: "'d server_builder \<Rightarrow> ('d server \<times> connection_manager) option" where
  "build self =
     (case (sb_dns_cache self, sb_authenticator self, sb_stats self, sb_conn_config self) of
        (Some dns, Some auth, True, Some cc) \<Rightarrow>
          let rt = (case sb_router self of Some rt \<Rightarrow> rt | None \<Rightarrow> Direct_Router \<lparr>dr_block_private_ip = True\<rparr>) in
          Some
            (\<lparr>sv_authenticate = auth, sv_route = router_route dns rt, sv_route_udp = router_route_udp dns rt,
              sv_resolve = dns, sv_conn_config = cc\<rparr>,
             case sb_conn_manager self of Some cm \<Rightarrow> cm | None \<Rightarrow> cm_new)
      | _ \<Rightarrow> None)"

section \<open>The accept loop\<close>

text \<open>
  \<open>rn_permits\<close> is the number of free permits, \<open>None\<close> without a limiter; \<open>rn_waiting\<close> says that the
  loop has accepted a socket and awaits a permit for it.  A gRPC stream is a task of its own that
  may outlive its connection by the time its cancellation takes.
\<close>

record runner =
  rn_permits :: "nat option"
  rn_waiting :: bool
  rn_connections :: nat
  rn_streams :: nat
  rn_refused :: nat

definition runner_init :: "nat \<Rightarrow> runner" where
  "runner_init max_connections =
     \<lparr>rn_permits = (if max_connections > 0 then Some max_connections else None), rn_waiting = False,
      rn_connections = 0, rn_streams = 0, rn_refused = 0\<rparr>"

inductive runner_step :: "transport_type \<Rightarrow> runner \<Rightarrow> runner \<Rightarrow> bool" for ty :: transport_type where
  accepted: "\<not> rn_waiting s \<Longrightarrow> runner_step ty s (s\<lparr>rn_waiting := True\<rparr>)"
| spawned: "rn_waiting s \<Longrightarrow> take_permit (rn_permits s) = Some p \<Longrightarrow>
    runner_step ty s (s\<lparr>rn_waiting := False, rn_permits := p, rn_connections := rn_connections s + 1\<rparr>)"
| closed: "0 < rn_connections s \<Longrightarrow>
    runner_step ty s (s\<lparr>rn_connections := rn_connections s - 1, rn_permits := give_permit (rn_permits s)\<rparr>)"
| stream_opened: "ty = Grpc \<Longrightarrow> 0 < rn_connections s \<Longrightarrow> take_permit (rn_permits s) = Some p \<Longrightarrow>
    runner_step ty s (s\<lparr>rn_permits := p, rn_streams := rn_streams s + 1\<rparr>)"
| stream_refused: "ty = Grpc \<Longrightarrow> 0 < rn_connections s \<Longrightarrow> take_permit (rn_permits s) = None \<Longrightarrow>
    runner_step ty s (s\<lparr>rn_refused := rn_refused s + 1\<rparr>)"
| stream_closed: "0 < rn_streams s \<Longrightarrow>
    runner_step ty s (s\<lparr>rn_streams := rn_streams s - 1, rn_permits := give_permit (rn_permits s)\<rparr>)"

inductive_cases runner_stepE: "runner_step ty s s'"

inductive runner_reach :: "transport_type \<Rightarrow> nat \<Rightarrow> runner \<Rightarrow> bool" for ty :: transport_type and m :: nat where
  start: "runner_reach ty m (runner_init m)"
| step: "runner_reach ty m s \<Longrightarrow> runner_step ty s s' \<Longrightarrow> runner_reach ty m s'"

section \<open>Lemmas\<close>

text \<open>The permits are conserved.\<close>

definition permits_ok :: "transport_type \<Rightarrow> nat \<Rightarrow> runner \<Rightarrow> bool" where
  "permits_ok ty m s \<longleftrightarrow>
     (case rn_permits s of
        None \<Rightarrow> m = 0
      | Some p \<Rightarrow> 0 < m \<and> p + rn_connections s + rn_streams s = m) \<and>
     (ty \<noteq> Grpc \<longrightarrow> rn_streams s = 0)"

lemma take_permit_cases:
  "take_permit p = Some q \<longleftrightarrow> (p = None \<and> q = None) \<or> (\<exists>n. p = Some (Suc n) \<and> q = Some n)"
  by (cases p rule: take_permit.cases) auto

lemma permits_step: "permits_ok ty m s \<Longrightarrow> runner_step ty s s' \<Longrightarrow> permits_ok ty m s'"
  by (erule runner_stepE) (auto simp: permits_ok_def take_permit_cases give_permit_def split: option.splits)

lemma permits_reach: "runner_reach ty m s \<Longrightarrow> permits_ok ty m s"
proof (induction rule: runner_reach.induct)
  case start
  then show ?case by (simp add: permits_ok_def runner_init_def)
next
  case (step s s')
  then show ?case by (blast intro: permits_step)
qed

text \<open>With TLS, exactly the protocol of the transport is offered.\<close>

lemma load_tls_alpn:
  assumes "load_tls L config = Inr (Some cfg)"
  shows "tls_alpn_protocols cfg = alpn_for_transport (fst (build_transport_config config))" "tls_certs cfg \<noteq> []"
  using assms load_tls_config_ok
  by (fastforce simp: load_tls_def build_transport_config_def try_io_def split: sum.splits if_splits)+

text \<open>
  The limits given to the WebSocket library: its write buffer has room for one message of the
  largest size beyond what it holds back, which the library requires, and a frame fits a message.
\<close>

lemma ws_config_for_room:
  "wl_write_buffer_size (ws_config_for n) + wl_max_frame_size (ws_config_for n) < wl_max_write_buffer_size (ws_config_for n) \<and>
   wl_max_frame_size (ws_config_for n) \<le> wl_max_message_size (ws_config_for n) \<and> n \<le> wl_max_frame_size (ws_config_for n) \<and>
   WS_MIN_MAX_FRAME \<le> wl_max_frame_size (ws_config_for n)"
  by (auto simp: ws_config_for_def WS_MIN_MAX_FRAME_def WS_MIN_MAX_MESSAGE_def Let_def)

text \<open>A router built under \<open>block_private_ip\<close> screens.\<close>

fun router_trusted :: "router \<Rightarrow> ip_addr set" where
  "router_trusted (Acl_Router r) = hijack_ips (ar_engine r)"
| "router_trusted (Direct_Router r) = {}"

fun router_screens :: "router \<Rightarrow> bool" where
  "router_screens (Acl_Router r) = ar_block_private_ip r"
| "router_screens (Direct_Router r) = dr_block_private_ip r"

lemma build_router_screens:
  assumes "build_router env parse_rules compile read_to_string from_yaml config refresh_geodata = Inr rt"
  shows "router_screens rt = sc_block_private_ip config"
  using assms by (auto simp: build_router_def split: option.splits sum.splits)

lemma router_screens_cases:
  assumes "router_screens rt"
  shows "rt = Direct_Router \<lparr>dr_block_private_ip = True\<rparr> \<and> router_trusted rt = {} \<or>
    (\<exists>engine. rt = Acl_Router \<lparr>ar_engine = engine, ar_block_private_ip = True\<rparr> \<and> router_trusted rt = hijack_ips engine)"
proof (cases rt)
  case (Acl_Router r)
  then have "r = \<lparr>ar_engine = ar_engine r, ar_block_private_ip = True\<rparr>" using assms by simp
  then show ?thesis using Acl_Router by (metis router_trusted.simps(1))
qed (use assms in simp)

text \<open>The routes of a built server are those of its router, and screen if it does.\<close>

lemma built_server_routes:
  assumes "build sb = Some (sv, cm)" "sb_router sb = Some rt" "sb_dns_cache sb = Some resolve" and "router_screens rt"
  shows "sv_resolve sv = resolve"
    "sv_route sv = direct_route resolve \<lparr>dr_block_private_ip = True\<rparr> \<and> router_trusted rt = {} \<or>
      (\<exists>engine. sv_route sv = acl_route resolve \<lparr>ar_engine = engine, ar_block_private_ip = True\<rparr> \<and> router_trusted rt = hijack_ips engine)"
    "sv_route_udp sv = direct_route_udp resolve \<lparr>dr_block_private_ip = True\<rparr> \<and> router_trusted rt = {} \<or>
      (\<exists>engine. sv_route_udp sv = acl_route_udp resolve \<lparr>ar_engine = engine, ar_block_private_ip = True\<rparr> \<and> router_trusted rt = hijack_ips engine)"
proof -
  have sv: "sv_resolve sv = resolve" "sv_route sv = router_route resolve rt" "sv_route_udp sv = router_route_udp resolve rt"
    using assms(1-3) by (auto simp: build_def Let_def split: option.splits bool.splits)
  then show "sv_resolve sv = resolve" by simp
  show "sv_route sv = direct_route resolve \<lparr>dr_block_private_ip = True\<rparr> \<and> router_trusted rt = {} \<or>
      (\<exists>engine. sv_route sv = acl_route resolve \<lparr>ar_engine = engine, ar_block_private_ip = True\<rparr> \<and> router_trusted rt = hijack_ips engine)"
    "sv_route_udp sv = direct_route_udp resolve \<lparr>dr_block_private_ip = True\<rparr> \<and> router_trusted rt = {} \<or>
      (\<exists>engine. sv_route_udp sv = acl_route_udp resolve \<lparr>ar_engine = engine, ar_block_private_ip = True\<rparr> \<and> router_trusted rt = hijack_ips engine)"
    unfolding sv using router_screens_cases [OF assms(4)] by auto
qed

text \<open>A server built from a router that screens dials nothing private, and sends no datagram there.\<close>

lemma built_server_actions:
  assumes "build sb = Some (sv, cm)" "sb_router sb = Some rt" "sb_dns_cache sb = Some resolve" and "router_screens rt"
    and "resolver_answers resolve" "resolver_literals resolve"
    and p: "process_connection sv A B ou ty sh a = (out, sh', a', b', us)"
  shows "\<exists>target acts. sh_actions sh' = sh_actions sh @ acts \<and> (\<forall>x \<in> set acts. action_safe (router_trusted rt) target x)"
  using p
proof (cases rule: process_connection_cases)
  case (panic a1)
  then show ?thesis using read_not_unreachable by (metis fst_conv)
next
  case (refused res a1 e)
  then show ?thesis by (simp add: act_def)
next
  case (session q a1 u c tok cm1 sh2)
  note t = built_server_routes [OF assms(1-4)]
  show ?thesis
  proof (cases "tr_cmd q")
    case Connect
    then have "handle_connect sv A B (ou_scripts ou) (ou_connect ou) (ou_dial ou) ty u (tr_payload q) (tr_addr q)
        (stat (Record_Request u) (sh\<lparr>sh_conn_manager := cm1\<rparr>)) a1 = (out, sh2, a', b')"
      using session(4) by (auto simp: run_command_def split: prod.splits)
    from connect_targets_screened [OF _ _ _ this, of "router_trusted rt"] t assms(5,6) show ?thesis
      by (auto simp: session(5) stat_def)
  next
    case UdpAssociate
    then have "did (stat (Record_Request u) (sh\<lparr>sh_conn_manager := cm1\<rparr>)) out sh2 (if out = Running then [] else [Close_Client])"
      using session(4) by (auto simp: run_command_def split: prod.splits dest!: handle_udp_associate_did)
    then show ?thesis by (auto simp: session(5) did_def stat_def)
  qed
qed

lemma built_server_datagrams:
  assumes "build sb = Some (sv, cm)" "sb_router sb = Some rt" "sb_dns_cache sb = Some resolve" and "router_screens rt"
    and "resolver_answers resolve"
    and p: "process_connection sv A B ou ty sh a = (out, sh', a', b', Some st)"
    and s: "Sent h route q n \<in> set (us_log st)" "ur_outbound route = Direct resolved handler"
  shows "acl_addr_safe (router_trusted rt) (up_addr q) (ur_send_addr route)"
  using p
proof (cases rule: process_connection_cases)
  case (panic a1)
  then show ?thesis using read_not_unreachable by (metis fst_conv)
next
  case (session z a1 u c tok cm1 sh2)
  note t = built_server_routes [OF assms(1-4)]
  obtain sh3 a3 where "handle_udp_associate sv A (ou_net ou) (sc_close (ou_scripts ou)) (ou_events ou) u (tr_payload z) (ou_world ou)
      (stat (Record_Request u) (sh\<lparr>sh_conn_manager := cm1\<rparr>)) a1 = (out, sh3, a3, st)"
    using session(4) by (auto simp: run_command_def split: trojan_cmd.splits prod.splits)
  from udp_targets_screened [OF _ _ this s, of "router_trusted rt"] t assms(5) show ?thesis by simp
qed simp

text \<open>A server with a limit of one never opens a gRPC stream.\<close>

lemma limit_one_starves:
  assumes "runner_reach Grpc 1 s"
  shows "rn_streams s = 0"
  using assms
proof (induction rule: runner_reach.induct)
  case start
  then show ?case by (simp add: runner_init_def)
next
  case (step s s')
  then show ?case
    using permits_reach [OF step.hyps(1)]
    by (elim runner_stepE) (auto simp: permits_ok_def take_permit_cases)
qed

section \<open>Properties\<close>

text \<open>The loop that waits for a permit goes on exactly when one is free.\<close>

lemma waiting_resumes:
  assumes "rn_waiting s"
  shows "(\<exists>s'. runner_step ty s s' \<and> \<not> rn_waiting s') \<longleftrightarrow> rn_permits s \<noteq> Some 0"
proof
  assume "\<exists>s'. runner_step ty s s' \<and> \<not> rn_waiting s'"
  then show "rn_permits s \<noteq> Some 0" using assms by (auto elim!: runner_stepE simp: take_permit_cases)
next
  assume "rn_permits s \<noteq> Some 0"
  then obtain p where "take_permit (rn_permits s) = Some p"
    by (cases "rn_permits s" rule: take_permit.cases) auto
  then show "\<exists>s'. runner_step ty s s' \<and> \<not> rn_waiting s'" using runner_step.spawned [OF assms] by fastforce
qed

text \<open>
  C16: The connection limit.  In every reachable state of the accept loop the free permits, the
  connections and the gRPC streams add up to \<open>max_connections\<close>, so no interleaving of accepts,
  streams and closes exceeds the limit or loses a permit; only gRPC has streams of its own, and with
  a limit of one not even gRPC, since the connection holds the only permit; and a loop that waits for a permit can go on exactly while there are fewer tasks than the limit.
\<close>

theorem permits_conserved:
  assumes "runner_reach ty m s" and "0 < m"
  shows "(\<exists>p. rn_permits s = Some p \<and> p + rn_connections s + rn_streams s = m) \<and>
    (ty \<noteq> Grpc \<or> m = 1 \<longrightarrow> rn_streams s = 0) \<and>
    (rn_waiting s \<longrightarrow>
      (\<exists>s'. runner_step ty s s' \<and> \<not> rn_waiting s') = (rn_connections s + rn_streams s < m))"
  using permits_reach [OF assms(1)] assms(2) waiting_resumes [of s ty] limit_one_starves [of s] assms(1)
  by (cases "ty = Grpc") (auto simp: permits_ok_def split: option.splits)

theorem permits_conserved_witness:
  "\<exists>s. runner_reach Grpc 2 s \<and> rn_connections s = 1 \<and> rn_streams s = 1 \<and> rn_waiting s \<and>
     \<not> (\<exists>s'. runner_step Grpc s s' \<and> \<not> rn_waiting s')"
proof -
  let ?s = "\<lambda>p w c t. \<lparr>rn_permits = Some p, rn_waiting = w, rn_connections = c, rn_streams = t, rn_refused = 0\<rparr>"
  have "runner_reach Grpc 2 (?s 2 False 0 0)" using runner_reach.start [of Grpc 2] by (simp add: runner_init_def)
  then have "runner_reach Grpc 2 (?s 2 True 0 0)"
    using runner_reach.step [OF _ runner_step.accepted] by fastforce
  then have "runner_reach Grpc 2 (?s 1 False 1 0)"
    using runner_reach.step [OF _ runner_step.spawned [where p = "Some 1"]] by (fastforce simp: numeral_2_eq_2)
  then have "runner_reach Grpc 2 (?s 0 False 1 1)"
    using runner_reach.step [OF _ runner_step.stream_opened [where p = "Some 0"]] by fastforce
  then have r: "runner_reach Grpc 2 (?s 0 True 1 1)"
    using runner_reach.step [OF _ runner_step.accepted] by fastforce
  then show ?thesis using permits_conserved [OF r] by (intro exI [of _ "?s 0 True 1 1"]) simp
qed

end
