(* ===== verification/Main_Run.thy ===== *)
theory Main_Run
  imports Runner
begin

text \<open>
  \<open>src/src/main.rs\<close> and \<open>src/src/business/mod.rs\<close>: the life of the process, from the command line
  through the registration of the node with its panel to the shutdown.

  The panel client, the statistics collector and the user manager are library code: records of
  functions on their states.  The calls \<open>main\<close> makes to the panel are logged with their outcome.
  What happens while the server runs is the record \<open>world\<close>: how the accept loop ended, what
  connections and background tasks did to the shared state, and the instants of the drain loop.
\<close>

section \<open>Panel and collector\<close>

record user =
  pu_id :: user_id
  pu_uuid :: string

record user_traffic =
  ut_user_id :: user_id
  ut_upload :: nat
  ut_download :: nat
  ut_request_count :: nat

record user_snapshot =
  sn_user_id :: user_id
  sn_upload_bytes :: nat
  sn_download_bytes :: nat
  sn_request_count :: nat

record 'p panel_api =
  pa_fetch_config :: "'p \<Rightarrow> (string + node_config) \<times> 'p"
  pa_initialize :: "u16 \<Rightarrow> 'p \<Rightarrow> (string + unit) \<times> 'p"
  pa_fetch_users :: "'p \<Rightarrow> (string + user list option) \<times> 'p"
  pa_submit_traffic :: "user_traffic list \<Rightarrow> 'p \<Rightarrow> (string + unit) \<times> 'p"
  pa_unregister :: "'p \<Rightarrow> (string + unit) \<times> 'p"

record 's collector =
  co_reset_all :: "'s \<Rightarrow> user_snapshot list \<times> 's"
  co_restore :: "user_snapshot list \<Rightarrow> 's \<Rightarrow> 's"

datatype panel_call =
    Fetched_Config bool
  | Initialized bool
  | Fetched_Users bool
  | Submitted "user_traffic list" bool
  | Unregistered bool
  | Tasks_Stopped

record ('p, 's) node =
  nd_panel :: 'p
  nd_stats :: 's
  nd_conn_manager :: connection_manager
  nd_calls :: "panel_call list"

definition ask :: "(bool \<Rightarrow> panel_call) \<Rightarrow> ('p \<Rightarrow> (string + 'r) \<times> 'p) \<Rightarrow> ('p, 's) node \<Rightarrow> (string + 'r) \<times> ('p, 's) node" where
  "ask c f n =
     (case f (nd_panel n) of (r, p) \<Rightarrow>
        (r, n\<lparr>nd_panel := p, nd_calls := nd_calls n @ [c (case r of Inr _ \<Rightarrow> True | Inl _ \<Rightarrow> False)]\<rparr>))"

definition traffic_of :: "user_snapshot \<Rightarrow> user_traffic" where
  "traffic_of s =
     \<lparr>ut_user_id = sn_user_id s, ut_upload = sn_upload_bytes s, ut_download = sn_download_bytes s,
      ut_request_count = sn_request_count s\<rparr>"

definition flush_traffic :: "'p panel_api \<Rightarrow> 's collector \<Rightarrow> ('p, 's) node \<Rightarrow> ('p, 's) node" where
  "flush_traffic P C n =
     (case co_reset_all C (nd_stats n) of (snapshots, s) \<Rightarrow>
        let n = n\<lparr>nd_stats := s\<rparr> in
        if snapshots = [] then n
        else
          let traffic = map traffic_of snapshots in
          (case ask (Submitted traffic) (pa_submit_traffic P traffic) n of
             (Inr _, n) \<Rightarrow> n
           | (Inl _, n) \<Rightarrow> n\<lparr>nd_stats := co_restore C snapshots (nd_stats n)\<rparr>))"

text \<open>The callback for changed users.\<close>

record user_diff =
  ud_removed_ids :: "user_id list"
  ud_uuid_changed_ids :: "user_id list"

definition on_diff :: "user_diff \<Rightarrow> connection_manager \<Rightarrow> connection_manager" where
  "on_diff diff cm = fold (\<lambda>uid cm. snd (kick_user uid cm)) (ud_removed_ids diff @ ud_uuid_changed_ids diff) cm"

section \<open>Start\<close>

record ('r, 'c, 'k, 't, 'd) libraries =
  lb_lower :: "string \<Rightarrow> string"
  lb_exists :: "string \<Rightarrow> bool"
  lb_fmt_max :: string
  lb_new_api :: "string + unit"
  lb_parse_config :: "string \<Rightarrow> string + trojan_config"
  lb_acl_env :: acl_env
  lb_parse_rules :: "string \<Rightarrow> string + 'r"
  lb_compile :: "'r \<Rightarrow> outbounds \<Rightarrow> geo_loader \<Rightarrow> string + matcher"
  lb_read_to_string :: "string \<Rightarrow> string + string"
  lb_from_yaml :: "string \<Rightarrow> string + acl_config"
  lb_tls :: "('c, 'k, 't) tls_library"
  lb_host :: Config_Auto.host_info
  lb_authenticate :: "user list \<Rightarrow> bytes \<Rightarrow> user_id option"
  lb_dns_cache :: "'d resolver"

record ('c, 'k, 't) local_config =
  lc_remote :: trojan_config
  lc_config :: server_config
  lc_router :: router
  lc_tls :: "('c, 'k, 't) tls_config option"

text \<open>Everything that can fail on the local configuration, before the node registers.\<close>

definition load_local ::
    "('r, 'c, 'k, 't, 'd) libraries \<Rightarrow> cli_args \<Rightarrow> node_config \<Rightarrow> string + ('c, 'k, 't) local_config" where
  "load_local L cli node_config =
     try_io (parse_trojan_config (lb_parse_config L) node_config) (\<lambda>remote.
       let config = from_remote (lb_lower L) remote cli in
       try_io (build_router (lb_acl_env L) (lb_parse_rules L) (lb_compile L) (lb_read_to_string L) (lb_from_yaml L)
                 config (cli_refresh_geodata cli)) (\<lambda>rt.
         (case load_tls (lb_tls L) config of
            Inl e \<Rightarrow> Inl (err_msg e)
          | Inr tls \<Rightarrow> Inr \<lparr>lc_remote = remote, lc_config = config, lc_router = rt, lc_tls = tls\<rparr>)))"

definition startup ::
    "('r, 'c, 'k, 't, 'd) libraries \<Rightarrow> 'p panel_api \<Rightarrow> cli_args \<Rightarrow> ('p, 's) node \<Rightarrow>
     (string + ('c, 'k, 't) local_config \<times> user list) \<times> ('p, 's) node" where
  "startup L P cli n =
     (case try_io (validate (lb_lower L) (lb_exists L) (lb_fmt_max L) cli) (\<lambda>_. lb_new_api L) of
        Inl e \<Rightarrow> (Inl e, n)
      | Inr _ \<Rightarrow>
          (case ask Fetched_Config (pa_fetch_config P) n of
             (Inl e, n) \<Rightarrow> (Inl e, n)
           | (Inr node_config, n) \<Rightarrow>
               (case load_local L cli node_config of
                  Inl e \<Rightarrow> (Inl e, n)
                | Inr lc \<Rightarrow>
                    (case ask Initialized (pa_initialize P (tc_server_port (lc_remote lc))) n of
                       (Inl e, n) \<Rightarrow> (Inl e, n)
                     | (Inr _, n) \<Rightarrow>
                         (case ask Fetched_Users (pa_fetch_users P) n of
                            (Inl e, n) \<Rightarrow> (Inl e, snd (ask Unregistered (pa_unregister P) n))
                          | (Inr users, n) \<Rightarrow> (Inr (lc, case users of Some us \<Rightarrow> us | None \<Rightarrow> []), n))))))"

definition build_server ::
    "('r, 'c, 'k, 't, 'd) libraries \<Rightarrow> cli_args \<Rightarrow> router \<Rightarrow> user list \<Rightarrow> connection_manager \<Rightarrow>
     ('d server \<times> connection_manager) option" where
  "build_server L cli rt users cm =
     (let resolved_max = resolve_limit (lb_host L) (cli_max_connections cli);
          conn_config = conn_config_from_cli cli (rm_value resolved_max) in
      build (builder_new\<lparr>sb_authenticator := Some (lb_authenticate L users), sb_stats := True, sb_router := Some rt,
               sb_conn_manager := Some cm, sb_conn_config := Some conn_config, sb_dns_cache := Some (lb_dns_cache L)\<rparr>))"

section \<open>Shutdown\<close>

text \<open>
  The drain loop: every 100 ms it looks at the registry, until it is empty or the deadline has passed.
  An element of the script is a sleep, how long it took and what happened meanwhile.
\<close>

definition DRAIN_TIMEOUT_MS :: nat where "DRAIN_TIMEOUT_MS = 5000"
definition DRAIN_POLL_MS :: nat where "DRAIN_POLL_MS = 100"

fun drain ::
    "(nat \<times> (connection_manager \<Rightarrow> connection_manager)) list \<Rightarrow> nat \<Rightarrow> connection_manager \<Rightarrow> nat option \<times> connection_manager" where
  "drain script now cm =
     (let remaining = connection_count cm in
      if remaining = 0 then (Some 0, cm)
      else if now \<ge> DRAIN_TIMEOUT_MS then (Some remaining, cm)
      else
        (case script of
           [] \<Rightarrow> (None, cm)
         | (slept, env) # script' \<Rightarrow> drain script' (now + slept) (env cm)))"

declare drain.simps [simp del]

record ('p, 's) world =
  wo_result :: "string + unit"
  wo_panel :: "'p \<Rightarrow> 'p"
  wo_stats :: "'s \<Rightarrow> 's"
  wo_registry :: "connection_manager \<Rightarrow> connection_manager"
  wo_drain :: "(nat \<times> (connection_manager \<Rightarrow> connection_manager)) list"
  wo_drain_stats :: "'s \<Rightarrow> 's"
  wo_joined :: bool

text \<open>\<open>wo_joined\<close>: the shutdown handler ended without a panic.  \<open>None\<close> while the drain loop runs.\<close>

definition shutdown :: "'p panel_api \<Rightarrow> 's collector \<Rightarrow> ('p, 's) world \<Rightarrow> ('p, 's) node \<Rightarrow> ('p, 's) node option" where
  "shutdown P C w n =
     (case cancel_all (nd_conn_manager n) of (cancelled, cm) \<Rightarrow>
        (case (if cancelled > 0 then drain (wo_drain w) 0 cm else (Some 0, cm)) of
           (None, cm) \<Rightarrow> None
         | (Some _, cm) \<Rightarrow>
             let n = n\<lparr>nd_conn_manager := cm, nd_stats := wo_drain_stats w (nd_stats n)\<rparr> in
             if wo_joined w then
               let n = flush_traffic P C n;
                   n = snd (ask Unregistered (pa_unregister P) n) in
               Some (n\<lparr>nd_calls := nd_calls n @ [Tasks_Stopped]\<rparr>)
             else Some n))"

definition trojan_main ::
    "('r, 'c, 'k, 't, 'd) libraries \<Rightarrow> 'p panel_api \<Rightarrow> 's collector \<Rightarrow> ('p, 's) world \<Rightarrow> cli_args \<Rightarrow> ('p, 's) node \<Rightarrow>
     ((string + unit) \<times> ('p, 's) node) option" where
  "trojan_main L P C w cli n =
     (case startup L P cli n of
        (Inl e, n) \<Rightarrow> Some (Inl e, n)
      | (Inr (lc, users), n) \<Rightarrow>
          (case build_server L cli (lc_router lc) users (nd_conn_manager n) of
             None \<Rightarrow> None
           | Some (_, cm) \<Rightarrow>
               let n = n\<lparr>nd_panel := wo_panel w (nd_panel n), nd_stats := wo_stats w (nd_stats n),
                         nd_conn_manager := wo_registry w cm\<rparr> in
               map_option (\<lambda>n. (wo_result w, n)) (shutdown P C w n)))"

section \<open>Lemmas\<close>

lemma ask_calls:
  "ask c f n = (r, n') \<Longrightarrow> nd_calls n' = nd_calls n @ [c (case r of Inr _ \<Rightarrow> True | Inl _ \<Rightarrow> False)] \<and>
     nd_stats n' = nd_stats n \<and> nd_conn_manager n' = nd_conn_manager n"
  by (auto simp: ask_def split: prod.splits)

lemma build_server_total:
  "\<exists>sv. build_server L cli rt users cm = Some (sv, cm) \<and> sv_route sv = router_route (lb_dns_cache L) rt \<and>
     sv_conn_config sv = conn_config_from_cli cli (rm_value (resolve_limit (lb_host L) (cli_max_connections cli)))"
  by (simp add: build_server_def build_def builder_new_def Let_def)

lemma drain_simps:
  "drain [] now cm =
     (if connection_count cm = 0 then (Some 0, cm) else if now \<ge> DRAIN_TIMEOUT_MS then (Some (connection_count cm), cm) else (None, cm))"
  "drain ((slept, env) # script) now cm =
     (if connection_count cm = 0 then (Some 0, cm) else if now \<ge> DRAIN_TIMEOUT_MS then (Some (connection_count cm), cm)
      else drain script (now + slept) (env cm))"
  by (simp_all add: drain.simps [of "[]"] drain.simps [of "(slept, env) # script"] Let_def)

lemma load_local_screens:
  assumes "load_local L cli node_config = Inr lc"
  shows "router_screens (lc_router lc) = cli_block_private_ip cli"
proof -
  obtain remote where "build_router (lb_acl_env L) (lb_parse_rules L) (lb_compile L) (lb_read_to_string L) (lb_from_yaml L)
      (from_remote (lb_lower L) remote cli) (cli_refresh_geodata cli) = Inr (lc_router lc)"
    using assms by (auto simp: load_local_def try_io_def Let_def split: sum.splits)
  from build_router_screens [OF this] show ?thesis by (simp add: from_remote_def Let_def split: prod.splits)
qed

text \<open>The drain loop ends: fifty sleeps of 100 ms reach the deadline.\<close>

lemma drain_ends:
  assumes "\<forall>(slept, env) \<in> set script. DRAIN_POLL_MS \<le> slept" and "DRAIN_TIMEOUT_MS \<le> now + DRAIN_POLL_MS * length script"
  shows "\<exists>k cm'. drain script now cm = (Some k, cm')"
  using assms
proof (induction script arbitrary: now cm)
  case Nil
  then show ?case by (simp add: drain_simps)
next
  case (Cons x script)
  obtain slept env where x: "x = (slept, env)" by fastforce
  have "\<exists>k cm'. drain script (now + slept) (env cm) = (Some k, cm')"
    using Cons.prems by (intro Cons.IH) (auto simp: x)
  then show ?case by (simp add: drain_simps x)
qed

text \<open>What a drain reports is what is left in the registry.\<close>

lemma drain_remaining: "drain script now cm = (Some k, cm') \<Longrightarrow> connection_count cm' = k"
proof (induction script arbitrary: now cm)
  case Nil
  then show ?case by (auto simp: drain_simps split: if_splits)
next
  case (Cons x script)
  then show ?case by (cases x) (auto simp: drain_simps split: if_splits)
qed

text \<open>The calls of the final report, at most one.\<close>

lemma flush_traffic_calls:
  "\<exists>sub. nd_calls (flush_traffic P C n) = nd_calls n @ sub \<and> (sub = [] \<or> (\<exists>d b. sub = [Submitted d b]))"
  by (auto simp: flush_traffic_def Let_def split: prod.splits sum.splits dest!: ask_calls)

text \<open>
  The accounting of the collector: what a user has in it, in the units a report carries.  Taking the
  counts empties it, and putting them back restores them.
\<close>

definition reported :: "user_id \<Rightarrow> user_traffic list \<Rightarrow> nat \<times> nat" where
  "reported u ts = (sum_list (map ut_upload (filter (\<lambda>t. ut_user_id t = u) ts)), sum_list (map ut_download (filter (\<lambda>t. ut_user_id t = u) ts)))"

definition collector_laws :: "'s collector \<Rightarrow> ('s \<Rightarrow> user_id \<Rightarrow> nat \<times> nat) \<Rightarrow> bool" where
  "collector_laws C held \<longleftrightarrow>
     (\<forall>s snaps s'. co_reset_all C s = (snaps, s') \<longrightarrow>
        held s = (\<lambda>u. reported u (map traffic_of snaps)) \<and> held s' = (\<lambda>_. (0, 0)) \<and> held (co_restore C snaps s') = held s)"

definition submitted :: "user_id \<Rightarrow> panel_call list \<Rightarrow> nat \<times> nat" where
  "submitted u cs = reported u (concat (map (\<lambda>c. case c of Submitted ts True \<Rightarrow> ts | _ \<Rightarrow> []) cs))"

lemma reported_append: "reported u (xs @ ys) = (fst (reported u xs) + fst (reported u ys), snd (reported u xs) + snd (reported u ys))"
  by (simp add: reported_def)

text \<open>The final report neither loses nor repeats traffic: a user's traffic is in the collector or has been accepted by the panel.\<close>

lemma flush_traffic_exact:
  assumes "collector_laws C held" and "flush_traffic P C n = n'"
  shows "fst (submitted u (nd_calls n')) + fst (held (nd_stats n') u) = fst (submitted u (nd_calls n)) + fst (held (nd_stats n) u)"
    "snd (submitted u (nd_calls n')) + snd (held (nd_stats n') u) = snd (submitted u (nd_calls n)) + snd (held (nd_stats n) u)"
proof -
  obtain snaps s where r: "co_reset_all C (nd_stats n) = (snaps, s)" by fastforce
  have h: "held (nd_stats n) = (\<lambda>u. reported u (map traffic_of snaps))" "held s = (\<lambda>_. (0, 0))"
    "held (co_restore C snaps s) = held (nd_stats n)"
    using assms(1) r by (auto simp: collector_laws_def)
  note defs = flush_traffic_def r submitted_def reported_append ask_def Let_def
  have "fst (submitted u (nd_calls n')) + fst (held (nd_stats n') u) = fst (submitted u (nd_calls n)) + fst (held (nd_stats n) u) \<and>
    snd (submitted u (nd_calls n')) + snd (held (nd_stats n') u) = snd (submitted u (nd_calls n)) + snd (held (nd_stats n) u)"
  proof (cases "snaps = []")
    case True
    then show ?thesis using assms(2) h by (auto simp: defs reported_def)
  next
    case False
    obtain q p where q: "pa_submit_traffic P (map traffic_of snaps) (nd_panel n) = (q, p)" by fastforce
    show ?thesis using assms(2) False q h by (cases q) (auto simp: defs reported_def [of u "[]"])
  qed
  then show "fst (submitted u (nd_calls n')) + fst (held (nd_stats n') u) = fst (submitted u (nd_calls n)) + fst (held (nd_stats n) u)"
    "snd (submitted u (nd_calls n')) + snd (held (nd_stats n') u) = snd (submitted u (nd_calls n)) + snd (held (nd_stats n) u)" by simp_all
qed

text \<open>The calls of a start: it stops before the registration, undoes it, or leaves a registered node.\<close>

definition start_failed :: "panel_call list \<Rightarrow> bool" where
  "start_failed cs \<longleftrightarrow>
     cs \<in> {[], [Fetched_Config False], [Fetched_Config True], [Fetched_Config True, Initialized False]} \<or>
     (\<exists>b. cs = [Fetched_Config True, Initialized True, Fetched_Users False, Unregistered b])"

lemma startup_calls:
  assumes "startup L P cli n = (res, n')"
  shows "\<exists>cs. nd_calls n' = nd_calls n @ cs \<and>
    (case res of
       Inl e \<Rightarrow> start_failed cs
     | Inr _ \<Rightarrow> cs = [Fetched_Config True, Initialized True, Fetched_Users True]) \<and>
    (\<forall>b. Initialized b \<in> set cs \<longrightarrow>
       (\<exists>nc lc. fst (pa_fetch_config P (nd_panel n)) = Inr nc \<and> load_local L cli nc = Inr lc))"
proof (cases "try_io (validate (lb_lower L) (lb_exists L) (lb_fmt_max L) cli) (\<lambda>_. lb_new_api L)")
  case (Inl e)
  then show ?thesis using assms by (auto simp: startup_def start_failed_def)
next
  case v: (Inr _)
  obtain r1 n1 where 1: "ask Fetched_Config (pa_fetch_config P) n = (r1, n1)" by fastforce
  note c1 = ask_calls [OF 1]
  have f: "fst (pa_fetch_config P (nd_panel n)) = r1" using 1 by (auto simp: ask_def split: prod.splits)
  show ?thesis
  proof (cases "\<exists>nc lc. r1 = Inr nc \<and> load_local L cli nc = Inr lc")
    case False
    then show ?thesis
      using assms v 1 c1 by (cases r1) (auto simp: startup_def start_failed_def split: sum.splits)
  next
    case True
    then obtain nc lc where lc: "r1 = Inr nc" "load_local L cli nc = Inr lc" by blast
    obtain r2 n2 where 2: "ask Initialized (pa_initialize P (tc_server_port (lc_remote lc))) n1 = (r2, n2)" by fastforce
    obtain r3 n3 where 3: "ask Fetched_Users (pa_fetch_users P) n2 = (r3, n3)" by fastforce
    obtain r4 n4 where 4: "ask Unregistered (pa_unregister P) n3 = (r4, n4)" by fastforce
    note c = c1 ask_calls [OF 2] ask_calls [OF 3] ask_calls [OF 4]
    have r: "(res, n') = (case r2 of Inl e \<Rightarrow> (Inl e, n2) | Inr _ \<Rightarrow>
        (case r3 of Inl e \<Rightarrow> (Inl e, n4) | Inr users \<Rightarrow> (Inr (lc, case users of Some us \<Rightarrow> us | None \<Rightarrow> []), n3)))"
      using assms v lc by (simp add: startup_def 1 2 3 4 split: sum.splits)
    show ?thesis
      using r c lc f by (cases r2; cases r3) (auto simp: start_failed_def)
  qed
qed

lemma shutdown_calls:
  assumes "wo_joined w" and "\<forall>(slept, env) \<in> set (wo_drain w). DRAIN_POLL_MS \<le> slept"
    and "DRAIN_TIMEOUT_MS \<le> DRAIN_POLL_MS * length (wo_drain w)"
  shows "\<exists>n' sub b. shutdown P C w n = Some n' \<and> nd_calls n' = nd_calls n @ sub @ [Unregistered b, Tasks_Stopped] \<and>
    (sub = [] \<or> (\<exists>d b. sub = [Submitted d b]))"
proof -
  obtain k cm where c: "cancel_all (nd_conn_manager n) = (k, cm)" by fastforce
  obtain left cm' where d: "(if k > 0 then drain (wo_drain w) 0 cm else (Some 0, cm)) = (Some left, cm')"
    using drain_ends [OF assms(2), of 0 cm] assms(3) by (cases "k > 0") auto
  let ?n = "n\<lparr>nd_conn_manager := cm', nd_stats := wo_drain_stats w (nd_stats n)\<rparr>"
  obtain sub where s: "nd_calls (flush_traffic P C ?n) = nd_calls n @ sub" "sub = [] \<or> (\<exists>d b. sub = [Submitted d b])"
    using flush_traffic_calls [of P C ?n] by auto
  obtain q n2 where q: "ask Unregistered (pa_unregister P) (flush_traffic P C ?n) = (q, n2)" by fastforce
  show ?thesis
    using s(2) assms(1) ask_calls [OF q] by (simp add: shutdown_def c d q s(1) Let_def)
qed

text \<open>Kicking the users of a change: their connections are cancelled, and no other.\<close>

lemma kick_user_wf: "cm_wf cm \<Longrightarrow> cm_wf (snd (kick_user u cm)) \<and> length (cm_tokens (snd (kick_user u cm))) = length (cm_tokens cm)"
proof -
  assume wf: "cm_wf cm"
  have k: "kick_user u cm = fold visit (user_ids cm u) (0, cm)"
    by (simp add: kick_user_def user_ids_def split: option.split)
  have "\<forall>c \<in> set (user_ids cm u). \<exists>ac. map_of (connections cm) c = Some ac" using cm_wfD(3) [OF wf] by blast
  from fold_visit [OF this, of 0] show ?thesis
    using wf by (auto simp: k cm_wf_def user_ids_def split: prod.splits)
qed

lemma fold_kick:
  assumes "cm_wf cm"
  shows "connections (fold (\<lambda>u cm. snd (kick_user u cm)) us cm) = connections cm \<and>
    (\<forall>i < length (cm_tokens cm). cm_tokens (fold (\<lambda>u cm. snd (kick_user u cm)) us cm) ! i \<longleftrightarrow>
       cm_tokens cm ! i \<or> (\<exists>c ac. map_of (connections cm) c = Some ac \<and> ac_user_id ac \<in> set us \<and> ac_cancel_token ac = i))"
  using assms
proof (induction us arbitrary: cm)
  case (Cons u us)
  let ?cm = "snd (kick_user u cm)"
  have "cm_wf ?cm" "length (cm_tokens ?cm) = length (cm_tokens cm)" "connections ?cm = connections cm"
    using kick_user_wf [OF Cons.prems] kick_user_spec [OF Cons.prems] by auto
  then show ?case using Cons.IH [of ?cm] kick_user_tokens [OF Cons.prems] by (auto 0 3)
qed simp

text \<open>The tokens after a change: those cancelled before and those of the connections of its users.\<close>

lemma on_diff_tokens:
  assumes "cm_wf cm" and "i < length (cm_tokens cm)"
  shows "cm_tokens (on_diff diff cm) ! i \<longleftrightarrow> cm_tokens cm ! i \<or>
    (\<exists>c ac. map_of (connections cm) c = Some ac \<and> ac_user_id ac \<in> set (ud_removed_ids diff) \<union> set (ud_uuid_changed_ids diff) \<and>
       ac_cancel_token ac = i)"
  using fold_kick [OF assms(1), of "ud_removed_ids diff @ ud_uuid_changed_ids diff"] assms(2)
  unfolding on_diff_def set_append by blast

lemma on_diff_kicks:
  assumes "cm_wf cm" and "map_of (connections cm) c = Some ac"
    and "\<And>c' ac'. map_of (connections cm) c' = Some ac' \<Longrightarrow> ac_cancel_token ac' = ac_cancel_token ac \<Longrightarrow> c' = c"
  shows "cm_tokens (on_diff diff cm) ! ac_cancel_token ac \<longleftrightarrow>
    cm_tokens cm ! ac_cancel_token ac \<or> ac_user_id ac \<in> set (ud_removed_ids diff) \<union> set (ud_uuid_changed_ids diff)"
proof -
  have "(\<exists>c' ac'. map_of (connections cm) c' = Some ac' \<and> ac_user_id ac' \<in> U \<and> ac_cancel_token ac' = ac_cancel_token ac) \<longleftrightarrow>
      ac_user_id ac \<in> U" for U using assms(2,3) by (metis option.inject)
  then show ?thesis using on_diff_tokens [OF assms(1) cm_wfD(4) [OF assms(1,2)]] by presburger
qed

section \<open>A concrete node\<close>

definition demo_libraries :: "(string, nat, nat, unit, nat) libraries" where
  "demo_libraries =
     \<lparr>lb_lower = map to_ascii_lowercase, lb_exists = (\<lambda>_. True), lb_fmt_max = ''30days'', lb_new_api = Inr (),
      lb_parse_config = (\<lambda>_. Inr \<lparr>tc_server_port = 443, tc_network = Some ''ws'', tc_websocket_config = None, tc_grpc_config = None\<rparr>),
      lb_acl_env = \<lparr>env_socket_v4 = None, env_socket_v6 = None, env_bind = \<lambda>_. None, env_bind_device = \<lambda>_. None,
         env_direct_options = \<lambda>_. None, env_socks5_auth = \<lambda>_ _ _. None, env_http_tls = \<lambda>_. None\<rparr>,
      lb_parse_rules = Inr, lb_compile = (\<lambda>_ _ _. Inr (\<lambda>_ _ _. None)), lb_read_to_string = Inr, lb_from_yaml = (\<lambda>e. Inl e),
      lb_tls = \<lparr>tl_open = Inr, tl_certs = (\<lambda>_. [Inr 1]), tl_private_key = (\<lambda>_. Inr (Some 2)), tl_single_cert = (\<lambda>_ _. Inr ()), tl_ticketer = Inl []\<rparr>,
      lb_host = \<lparr>hi_parallelism = Some 4, hi_pages = 0, hi_page_size = 0, hi_rlimit = (0, 1024)\<rparr>,
      lb_authenticate = (\<lambda>_ pw. if pw = replicate 56 97 then Some 7 else None), lb_dns_cache = rebinding_resolver\<rparr>"

definition demo_local :: "(nat, nat, unit) local_config" where
  "demo_local = (case load_local demo_libraries demo_cli (NTrojan []) of Inr lc \<Rightarrow> lc)"

lemma demo_load: "load_local demo_libraries demo_cli (NTrojan []) = Inr demo_local"
  "lc_router demo_local = Direct_Router \<lparr>dr_block_private_ip = True\<rparr>"
  by (simp_all add: demo_local_def load_local_def demo_libraries_def demo_cli_def parse_trojan_config_def try_io_def from_remote_def
      build_router_def load_tls_def build_transport_config_def load_tls_config_def oks_def map_filter_simps Let_def split: sum.splits)

definition demo_world :: "(nat, nat) world" where
  "demo_world =
     \<lparr>wo_result = Inr (), wo_panel = id, wo_stats = id, wo_registry = id, wo_drain = replicate 50 (100, id), wo_drain_stats = id, wo_joined = True\<rparr>"

definition demo_panel :: "nat panel_api" where
  "demo_panel =
     \<lparr>pa_fetch_config = (\<lambda>p. (Inr (NTrojan []), p)), pa_initialize = (\<lambda>_ p. (Inr (), Suc p)), pa_fetch_users = (\<lambda>p. (Inr None, p)),
      pa_submit_traffic = (\<lambda>_ p. (Inr (), p)), pa_unregister = (\<lambda>p. (Inr (), p - 1))\<rparr>"

section \<open>Properties\<close>

text \<open>
  C4: Screening from the command line to the socket.  A server that \<open>main\<close> builds with
  \<open>--block_private_ip\<close>, whether from a rule file or without one, lets no connection of any transport
  reach the internal network: every address it connects to or hands to a direct outbound, over TCP
  and UDP, is public or a hijack destination of the operator's rules.
\<close>

theorem configured_server_screens:
  assumes "cli_block_private_ip cli" and "load_local L cli node_config = Inr lc"
    and "build_server L cli (lc_router lc) users cm = Some (sv, cm')"
    and "resolver_answers (lb_dns_cache L)" and "resolver_literals (lb_dns_cache L)"
    and "process_connection sv A B ou ty sh a = (out, sh', a', b', us)"
  shows "(\<exists>target acts. sh_actions sh' = sh_actions sh @ acts \<and>
      (\<forall>x \<in> set acts. action_safe (router_trusted (lc_router lc)) target x)) \<and>
    (\<forall>st h route p n resolved handler.
      us = Some st \<longrightarrow> Sent h route p n \<in> set (us_log st) \<longrightarrow> ur_outbound route = Direct resolved handler \<longrightarrow>
        acl_addr_safe (router_trusted (lc_router lc)) (up_addr p) (ur_send_addr route))"
proof -
  have s: "router_screens (lc_router lc)" using load_local_screens [OF assms(2)] assms(1) by simp
  note b = assms(3) [unfolded build_server_def Let_def]
  have "acl_addr_safe (router_trusted (lc_router lc)) (up_addr p) (ur_send_addr route)"
    if "us = Some st" "Sent h route p n \<in> set (us_log st)" "ur_outbound route = Direct resolved handler"
    for st h route p n resolved handler
    by (rule built_server_datagrams [OF b _ _ s assms(4) assms(6) [unfolded that(1)] that(2,3)]) simp_all
  then show ?thesis using built_server_actions [OF b _ _ s assms(4,5,6)] by simp
qed

theorem configured_server_screens_witness:
  "case process_connection (fst (the (build_server demo_libraries demo_cli (Direct_Router \<lparr>dr_block_private_ip = True\<rparr>) [] cm_new)))
      (recorded_ops scripted_ops) (recorded_ops scripted_ops) demo_outside Tcp demo_shared demo_arrival
    of (out, sh', a', b', us) \<Rightarrow> \<exists>target. \<forall>x \<in> set (sh_actions sh'). action_safe {} target x"
proof -
  obtain sv where sv: "build_server demo_libraries demo_cli (lc_router demo_local) [] cm_new = Some (sv, cm_new)"
    using build_server_total by blast
  obtain out sh' a' b' us where r: "process_connection sv (recorded_ops scripted_ops) (recorded_ops scripted_ops) demo_outside Tcp
      demo_shared demo_arrival = (out, sh', a', b', us)" by (metis prod_cases5)
  have b: "cli_block_private_ip demo_cli" by (simp add: demo_cli_def)
  have l: "lb_dns_cache demo_libraries = rebinding_resolver" by (simp add: demo_libraries_def)
  from configured_server_screens [OF b demo_load(1) sv rebinding_resolver_contract [folded l] r]
  show ?thesis using sv r by (auto simp: demo_load(2) demo_shared_def)
qed



end
