(* ===== verification/Spec2Isabelle.thy ===== *)
theory Spec2Isabelle
  imports Main_Run
begin

text \<open>
  Verification of \<open>server-trojan-rs\<close>, a multi-user Trojan proxy server (\<open>src/src\<close>).

  \<^bold>\<open>The program.\<close>  A client connects over TCP or TLS, bare, inside a WebSocket or as a gRPC stream, sends
  a Trojan request (the hash of a password, a command, a target) and then data.  The server looks the
  user up, routes the target by the operator's rules, refuses targets in the internal network, and
  relays TCP both ways or forwards UDP packets framed in the stream, billing each user's traffic.  A
  panel tells it its users and its configuration; users that vanish are kicked.

  \<^bold>\<open>Theories and sources.\<close>  Each theory models the files named, in the order of the source; the
  definitions keep the names of the functions.

  \<^item> \<open>Prelude\<close>, \<open>Net_Addr\<close>: bytes, polls, I/O errors, IP addresses and their text form.
  \<^item> \<open>Protocol\<close> (\<open>core/protocol.rs\<close>): requests, addresses and UDP packets, their decoders and encoders.
  \<^item> \<open>Ip_Filter\<close> (\<open>core/ip_filter.rs\<close>), \<open>Dns\<close> (\<open>core/dns.rs\<close>, \<open>core/hooks.rs\<close>): private addresses,
    resolution, screening and the direct router.
  \<^item> \<open>Acl\<close> (\<open>acl.rs\<close>): outbounds, the rule engine around the compiled matcher, the ACL router.
  \<^item> \<open>Conn_Manager\<close> (\<open>core/connection.rs\<close>): the registry of connections and kicks.
  \<^item> \<open>Config_Auto\<close>, \<open>Config\<close> (\<open>config_auto.rs\<close>, \<open>config.rs\<close>): limits, validation, configurations.
  \<^item> \<open>Transport\<close> (\<open>transport/mod.rs\<close>), \<open>Relay\<close> (\<open>core/relay.rs\<close>): streams, \<open>NoHalfClose\<close>, the
    bidirectional copy with its timers and accounting.
  \<^item> \<open>Session\<close>, \<open>Udp_Session\<close>, \<open>Handler\<close> (\<open>handler.rs\<close>): reading the request, CONNECT, UDP ASSOCIATE, and
    \<open>process_connection\<close>, which composes them.
  \<^item> \<open>Stream_Calls\<close>, \<open>Ws\<close> (\<open>transport/ws.rs\<close>), \<open>Grpc_Codec\<close>, \<open>Grpc_Transport\<close>, \<open>Grpc_Connection\<close>
    (\<open>transport/grpc\<close>): the two framed transports, the heartbeat and the gRPC connection loop.
  \<^item> \<open>Client_Stream\<close>, \<open>Accept\<close>, \<open>Runner\<close> (\<open>core/server.rs\<close>, \<open>server_runner.rs\<close>): from an accepted socket
    to \<open>process_connection\<close>, the builder, the router, and the accept loop with its permits.
  \<^item> \<open>Os_Setup\<close> (\<open>net.rs\<close>, \<open>transport/tls.rs\<close>, \<open>logger.rs\<close>, \<open>error.rs\<close>), \<open>Main_Run\<close> (\<open>main.rs\<close>,
    \<open>business/mod.rs\<close>): start, registration with the panel, shutdown.

  \<^bold>\<open>State and effects.\<close>  A struct is a record, an enum a datatype, a fallible call a sum with the error
  on the left.  Counters that can wrap are words; lengths and instants are naturals.  A stream is a
  state with four poll functions (\<open>stream_ops\<close>); a poll returns its outcome and the next state.  The
  state shared by connections (\<open>shared\<close>) is passed along, with logs of the statistics calls and of the
  addresses dialled, which no operation reads.  Concurrency is explicit: the registry is a step
  relation whose steps are the atomic accesses of the concurrent maps (\<open>cm_step\<close>), the accept loop one
  over permits, connections and streams (\<open>runner_step\<close>), and inside one connection other tasks act
  through \<open>outside\<close>.

  \<^bold>\<open>Environment.\<close>  Code outside the repository is a parameter: the resolver, the compiled rules, the
  dialers, tungstenite, h2, rustls, the socket calls, the panel client and its collector.  Where a
  property needs something of it, it is a named hypothesis: \<open>resolver_answers\<close> (a resolver returns
  addresses or an error), \<open>resolver_literals\<close> (a literal resolves to itself), \<open>chunks_bounded\<close> (an HTTP/2
  frame is at most the advertised size), \<open>reads_within\<close> (a stream has a finite amount of data to give
  before it answers pending or ends), \<open>collector_laws\<close>.  The peer and the network act between polls by
  scripts, lists of changes of the stream's state; \<open>outside_quiet\<close> and \<open>client_quiet\<close> say that such a
  change does not rewrite what has already been sent and received, and nothing more.

  \<^bold>\<open>Loops and fuel.\<close>  Loops over data are total functions with measures.  A loop that goes on as long as
  a peer has data to give has fuel: \<open>poll_copy\<close>, \<open>ws_read_loop\<close>, \<open>gt_read_loop\<close> and the send loops of the
  gRPC transport.  \<open>poll_copy_returns\<close> and \<open>ws_read_returns\<close> give an amount that is enough and show
  that more changes nothing; running out is a value of its own, never a result.  \<open>gt_poll_read_returns\<close>
  and \<open>poll_send_queued_returns\<close> give enough for the loops of the gRPC transport, under \<open>h2_bounded\<close>: the HTTP/2
  library has a finite amount of data and window to give before it answers pending.  \<open>drive_relay_ends\<close> and
  \<open>udp_loop_ends\<close> show that a relay and a UDP session end at a kick.  The drain loop of \<open>main\<close> ends by its
  deadline (\<open>drain_ends\<close>).

  \<^bold>\<open>Interfaces.\<close>  Locales state what one part relies on and are interpreted on the definitions of the
  part that provides it: \<open>screening_router\<close> and \<open>screening_server\<close> (what a router that blocks private
  addresses promises; the direct and the ACL router), \<open>async_stream\<close> and \<open>relay_pair\<close> (what the relay
  asks of its streams; every stream under observation, also behind \<open>NoHalfClose\<close>), \<open>call_invariant\<close>,
  \<open>clean_invariant\<close> and \<open>invariant_pair\<close> (what the calls of a transport keep; WebSocket and gRPC).

  \<^bold>\<open>What is shown.\<close>
  \<^item> No access to the internal network: a router that blocks private addresses never yields one that was
    not screened, even under a resolver that changes its mind, and so for each dialled address and
    datagram of a connection, for every server \<open>main\<close> can build with that switch.
  \<^item> No byte lost, invented or reordered: in the relay, in the framing of UDP packets, and from end to end
    over TCP, WebSocket and gRPC, in CONNECT and in UDP sessions, however streams are cut.
  \<^item> Exact bills: the collector is told what was transferred, whenever and however a session ends.
  \<^item> Authentication first; registration and deregistration of every connection; kicks that reach every
    connection of a user and no other; connections of removed users that end; permits conserved; a
    registered node that unregisters.
  \<^item> Codecs: decoders accept exactly what encoders write, agree with each other and never panic.
  \<^item> Time: relay deadlines, heartbeat and idle closing of gRPC connections, bounds of buffers and caches.
  \<^item> Deviations from the documentation, stated as theorems where the code decides them: half-close
    windows, the unlimited setting, short domains, empty resolver answers, UDP after a failed dial, a
    limit of one connection with gRPC, a connection that registers after its user was kicked.

  This theory holds the property that spans the panel, the registry and the connection.

  \<^bold>\<open>Not modelled.\<close>  The set-up of the log subscriber, log calls and the housekeeping task (output only);
  signal handling beyond its outcome; buffer capacities apart from the arithmetic of their growth; the
  derived parsers of the command line and of YAML and JSON; the libraries named above.
\<close>

section \<open>A user that vanishes\<close>

text \<open>
  C7: Removed users are disconnected.  A connection of an authenticated user registers itself.  When
  the panel later reports that the user is gone or has a new password, and the connection still has
  its entry, the callback of \<open>main\<close> cancels its token; and a connection that notices a cancelled token
  returns and has closed its client, in a relay and in a UDP session, whatever its streams do and in
  whatever order polls and events come.  No other token is cancelled than those of connections of the
  users reported.  What this needs is that a stream cannot hand out data for ever without being
  waited for, and that the write of the payload that came with the request comes to an end, since the
  source awaits it outside the \<open>select!\<close>.
\<close>

theorem removed_user_disconnected:
  assumes "process_connection sv A B ou ty sh a = (out, sh', a', b', us)"
    and "read_trojan_request A (ou_spare ou) (cc_buffer_size (sv_conn_config sv)) (sc_read (ou_scripts ou)) a [] = (Request r, a1)"
    and "sv_authenticate sv (tr_password r) = Some u" "register u (sh_conn_manager sh) = ((c, tok), cm1)"
    and "cm_wf cm2" "map_of (connections cm2) c = Some \<lparr>ac_user_id = u, ac_cancel_token = tok\<rparr>"
    and "u \<in> set (ud_removed_ids diff) \<union> set (ud_uuid_changed_ids diff)"
    and "cm_tokens (on_diff diff cm2) ! tok \<Longrightarrow> Cancelled \<in> set (sc_relay (ou_scripts ou)) \<and> Kick \<in> set (ou_events ou)"
    and "reads_within N A" "reads_within N B" "enough_rounds N (sc_relay (ou_scripts ou))"
    and "\<And>b. opened (ou_connect ou) (ou_dial ou) b \<Longrightarrow> fst (write_all B (sc_write (ou_scripts ou)) (tr_payload r) b) \<noteq> None"
  shows "cm_tokens (on_diff diff cm2) ! tok \<and>
    (\<exists>res. out = Returned res) \<and> (\<exists>acts. sh_actions sh' = sh_actions sh @ acts \<and> Close_Client \<in> set acts) \<and>
    (\<forall>i < length (cm_tokens cm2). cm_tokens (on_diff diff cm2) ! i \<longrightarrow> cm_tokens cm2 ! i \<or>
       (\<exists>c ac. map_of (connections cm2) c = Some ac \<and>
          ac_user_id ac \<in> set (ud_removed_ids diff) \<union> set (ud_uuid_changed_ids diff) \<and> ac_cancel_token ac = i))"
proof -
  have "tok < length (cm_tokens cm2)" using cm_wfD(4) [OF assms(5,6)] by simp
  then have t: "cm_tokens (on_diff diff cm2) ! tok"
    using on_diff_tokens [OF assms(5)] assms(6,7) by (metis active_connection.select_convs)
  have "(\<exists>res. out = Returned res) \<and> (\<exists>acts. sh_actions sh' = sh_actions sh @ acts \<and> Close_Client \<in> set acts)"
    by (rule kicked_connection_ends [OF assms(1) _ _ assms(9-11)]) (use assms(2,8,12) t in auto)
  then show ?thesis using t on_diff_tokens [OF assms(5)] by blast
qed

text \<open>User 7 connects, is polled once, and vanishes.\<close>

theorem removed_user_disconnected_witness:
  "\<exists>res. fst (process_connection demo_server once_ops once_ops once_outside Tcp demo_shared True) = Returned res"
proof -
  obtain out sh' a' b' us where r: "process_connection demo_server once_ops once_ops once_outside Tcp demo_shared True = (out, sh', a', b', us)"
    by (metis prod_cases5)
  have w: "fst (write_all once_ops [id] payload b) \<noteq> None" for payload b
    by (cases payload) (simp_all add: once_ops_def)
  have q: "read_trojan_request once_ops (ou_spare once_outside) (cc_buffer_size (sv_conn_config demo_server)) (sc_read (ou_scripts once_outside)) True [] =
      (Request demo_request, False)"
    using once_read by (simp add: once_outside_def demo_server_def)
  let ?cm = "snd (register 7 cm_new)"
  have g: "register 7 (sh_conn_manager demo_shared) = ((1, 0), ?cm)"
    by (simp add: demo_shared_def register_def take_id_def cm_new_def Let_def)
  have "cm_wf (sh_conn_manager demo_shared)"
    "map_of (connections (sh_conn_manager demo_shared)) (next_conn_id (sh_conn_manager demo_shared)) = None"
    by (simp_all add: demo_shared_def cm_wf_def cm_new_def user_ids_def)
  then have m: "cm_wf ?cm" "map_of (connections ?cm) 1 = Some \<lparr>ac_user_id = 7, ac_cancel_token = 0\<rparr>"
    using register_wf [OF _ _ g] register_eqs(3) [OF g] by simp_all
  have u: "sv_authenticate demo_server (tr_password demo_request) = Some 7" by (simp add: demo_server_def demo_request_def)
  have o: "sc_relay (ou_scripts once_outside) = [Poll 3 0 id id, Cancelled]" "ou_events once_outside = [Kick]"
    "sc_write (ou_scripts once_outside) = [id]" by (simp_all add: once_outside_def)
  have d: "7 \<in> set (ud_removed_ids \<lparr>ud_removed_ids = [7], ud_uuid_changed_ids = []\<rparr>) \<union>
    set (ud_uuid_changed_ids \<lparr>ud_removed_ids = [7], ud_uuid_changed_ids = []\<rparr>)" by simp
  note t = removed_user_disconnected [OF r q u g m d _ once_within once_within]
  show ?thesis using t w by (simp add: r o enough_rounds_def)
qed

end
